(* ===== verification/Prelude.thy ===== *)
theory Prelude
  imports Main "HOL-Library.Word" "HOL-Library.Sublist" "HOL-Library.AList"
    "HOL-Library.Monad_Syntax"
begin

text \<open>
  Shared vocabulary of the development: the types that name Rust's machine types, the list
  operations that model \<open>str::split\<close>, \<open>join\<close> and \<open>contains\<close>, the treatment of Rust's
  \<open>Result\<close> and of panics, and the lemma collections the component theories extend.

  Conventions used by every theory.
  \<^item> A Rust \<open>String\<close> or \<open>&str\<close> is a \<^typ>\<open>string\<close> holding its UTF-8 bytes: HOL's
    \<^typ>\<open>char\<close> is one byte, so \<^const>\<open>length\<close> is Rust's \<open>len()\<close>.
  \<^item> A \<open>Vec<u8>\<close> is a list of 8-bit words.
  \<^item> A \<open>Result<T, E>\<close> is a sum: \<^term>\<open>Inl e\<close> for \<open>Err(e)\<close>, \<^term>\<open>Inr v\<close> for \<open>Ok(v)\<close>.
  \<^item> A function that may panic, abort or not return has an \<^typ>\<open>'a option\<close> result, where
    \<^const>\<open>None\<close> says that the call does not come back.
\<close>

type_synonym byte = "8 word"
type_synonym u16 = "16 word"
type_synonym u32 = "32 word"
type_synonym u64 = "64 word"

named_theorems caps_simps \<open>rewriting of the capability table\<close>
named_theorems frame_simps \<open>which parts of the system state an operation leaves alone\<close>
named_theorems str_simps \<open>facts on the string model\<close>
named_theorems inv_intros \<open>operations preserve the session invariant\<close>

section \<open>Results\<close>

abbreviation is_ok :: "'e + 'a \<Rightarrow> bool" where
  "is_ok r \<equiv> \<not> isl r"

abbreviation is_err :: "'e + 'a \<Rightarrow> bool" where
  "is_err r \<equiv> isl r"

text \<open>Rust's \<open>?\<close> operator on a computed result, in a pure function.\<close>

definition try_ok :: "'e + 'a \<Rightarrow> ('a \<Rightarrow> 'e + 'b) \<Rightarrow> 'e + 'b" where
  "try_ok r k = (case r of Inl e \<Rightarrow> Inl e | Inr v \<Rightarrow> k v)"

lemma try_ok_simps [simp]:
  "try_ok (Inl e) k = Inl e"
  "try_ok (Inr v) k = k v"
  by (simp_all add: try_ok_def)

lemma try_ok_Inr_iff: "try_ok r k = Inr y \<longleftrightarrow> (\<exists>v. r = Inr v \<and> k v = Inr y)"
  by (cases r) auto

lemma try_ok_split:
  "P (try_ok r k) \<longleftrightarrow> (\<forall>e. r = Inl e \<longrightarrow> P (Inl e)) \<and> (\<forall>v. r = Inr v \<longrightarrow> P (k v))"
  by (cases r) auto

section \<open>Splitting and joining\<close>

text \<open>\<open>s.split(c)\<close>: always at least one piece, empty pieces kept.\<close>

fun split_on :: "'a \<Rightarrow> 'a list \<Rightarrow> 'a list list" where
  "split_on c [] = [[]]"
| "split_on c (x # xs) =
     (if x = c then [] # split_on c xs
      else (case split_on c xs of [] \<Rightarrow> [[x]] | p # ps \<Rightarrow> (x # p) # ps))"

text \<open>\<open>pieces.join(sep)\<close>.\<close>

fun join :: "'a list \<Rightarrow> 'a list list \<Rightarrow> 'a list" where
  "join sep [] = []"
| "join sep [p] = p"
| "join sep (p # q # ps) = p @ sep @ join sep (q # ps)"

lemma split_on_not_Nil [simp]: "split_on c xs \<noteq> []"
  by (induction xs) (auto split: list.splits)

lemma join_Cons_ne: "ps \<noteq> [] \<Longrightarrow> join sep (p # ps) = p @ sep @ join sep ps"
  by (cases ps) auto

lemma join_Cons_Cons: "join sep ((x # p) # ps) = x # join sep (p # ps)"
  by (cases ps) auto

lemma join_split_on [simp]: "join [c] (split_on c xs) = xs"
proof (induction xs)
  case (Cons x xs)
  obtain p ps where sp: "split_on c xs = p # ps"
    using split_on_not_Nil [of c xs] by (cases "split_on c xs") blast+
  with Cons.IH show ?case by (auto simp: join_Cons_Cons)
qed simp

lemma split_on_no_sep: "c \<notin> set xs \<Longrightarrow> split_on c xs = [xs]"
  by (induction xs) auto

lemma split_on_append_sep:
  "c \<notin> set xs \<Longrightarrow> split_on c (xs @ c # ys) = xs # split_on c ys"
  by (induction xs) auto

lemma split_on_join:
  assumes "ps \<noteq> []" "\<forall>p \<in> set ps. c \<notin> set p"
  shows "split_on c (join [c] ps) = ps"
  using assms
proof (induction ps)
  case (Cons p ps)
  show ?case
  proof (cases ps)
    case Nil
    with Cons.prems show ?thesis by (simp add: split_on_no_sep)
  next
    case (Cons q qs)
    with Cons.IH Cons.prems show ?thesis
      by (auto simp: split_on_append_sep join_Cons_ne)
  qed
qed simp

lemma split_on_pieces: "p \<in> set (split_on c xs) \<Longrightarrow> c \<notin> set p"
proof (induction xs arbitrary: p)
  case (Cons x xs)
  obtain q qs where sp: "split_on c xs = q # qs"
    using split_on_not_Nil [of c xs] by (cases "split_on c xs") blast+
  from Cons.prems sp Cons.IH show ?case
    by (auto split: if_splits)
qed simp

lemma set_split_on: "p \<in> set (split_on c xs) \<Longrightarrow> set p \<subseteq> set xs"
proof (induction xs arbitrary: p)
  case (Cons x xs)
  obtain q qs where sp: "split_on c xs = q # qs"
    using split_on_not_Nil [of c xs] by (cases "split_on c xs") blast+
  from Cons.prems sp Cons.IH show ?case
    by (fastforce split: if_splits)
qed simp

lemma set_join_subset:
  "set (join sep ps) \<subseteq> set sep \<union> (\<Union>p \<in> set ps. set p)"
proof (induction ps)
  case (Cons p ps)
  then show ?case by (cases ps) auto
qed simp

text \<open>\<open>s.contains(m)\<close> for a string pattern.\<close>

fun contains :: "'a list \<Rightarrow> 'a list \<Rightarrow> bool" where
  "contains m [] = (m = [])"
| "contains m (x # xs) = (prefix m (x # xs) \<or> contains m xs)"

lemma contains_iff_sublist: "contains m s = sublist m s"
proof (induction s)
  case (Cons x xs)
  then show ?case by (simp add: sublist_Cons_right)
qed auto

text \<open>\<open>s.replace(['\\t', '\\n'], " ")\<close>: each character of a set replaced by one character.\<close>

definition replace_all :: "'a list \<Rightarrow> 'a \<Rightarrow> 'a list \<Rightarrow> 'a list" where
  "replace_all cs d s = map (\<lambda>c. if c \<in> set cs then d else c) s"

lemma replace_all_absent: "d \<notin> set cs \<Longrightarrow> c \<in> set cs \<Longrightarrow> c \<notin> set (replace_all cs d s)"
  by (auto simp: replace_all_def)

lemma replace_all_id: "\<forall>c \<in> set s. c \<notin> set cs \<Longrightarrow> replace_all cs d s = s"
  by (induction s) (auto simp: replace_all_def)

text \<open>Indexing as Rust does it: out of range is a panic.\<close>

definition nth_opt :: "'a list \<Rightarrow> nat \<Rightarrow> 'a option" where
  "nth_opt xs i = (if i < length xs then Some (xs ! i) else None)"

lemma nth_opt_Some [simp]: "i < length xs \<Longrightarrow> nth_opt xs i = Some (xs ! i)"
  by (simp add: nth_opt_def)

text \<open>\<open>iter().position(p)\<close>.\<close>

fun position :: "('a \<Rightarrow> bool) \<Rightarrow> 'a list \<Rightarrow> nat option" where
  "position P [] = None"
| "position P (x # xs) = (if P x then Some 0 else map_option Suc (position P xs))"

lemma position_Some:
  "position P xs = Some i \<Longrightarrow> i < length xs \<and> P (xs ! i) \<and> (\<forall>j < i. \<not> P (xs ! j))"
proof (induction xs arbitrary: i)
  case (Cons x xs)
  then show ?case by (auto split: if_splits simp: nth_Cons' gr0_conv_Suc less_Suc_eq_0_disj)
qed simp

lemma position_None: "position P xs = None \<longleftrightarrow> (\<forall>x \<in> set xs. \<not> P x)"
  by (induction xs) auto

section \<open>Association lists\<close>

text \<open>
  A \<open>HashMap\<close> is an association list with distinct keys: \<^const>\<open>map_of\<close> is \<open>get\<close>,
  \<^const>\<open>AList.update\<close> is \<open>insert\<close> and \<^const>\<open>AList.delete\<close> is \<open>remove\<close>. Iteration follows the
  list; the theorems quantify over all lists, that is, over all iteration orders.
\<close>

lemma map_of_update [caps_simps, simp]: "map_of (AList.update k v al) = (map_of al)(k \<mapsto> v)"
  by (simp add: update_conv')

lemma map_of_delete [caps_simps, simp]: "map_of (AList.delete k al) = (map_of al)(k := None)"
  by (simp add: delete_conv')

lemma distinct_map_of_iff:
  "distinct (map fst al) \<Longrightarrow> map_of al k = Some v \<longleftrightarrow> (k, v) \<in> set al"
  by simp

end
