(* ===== verification/Rust_Str.thy ===== *)
theory Rust_Str
  imports Prelude
begin

text \<open>
  The parts of Rust's string library the program uses: UTF-8 encoding and decoding
  (\<open>chars\<close>, \<open>from_utf8_lossy\<close>), trimming, number formatting and parsing, control
  characters, the \<open>{:?}\<close> rendering of a string. Strings are their UTF-8 bytes, and a
  \<^typ>\<open>nat\<close> stands for a Unicode scalar value.
\<close>

unbundle bit_operations_syntax

section \<open>Bytes and strings\<close>

definition byte_of_char :: "char \<Rightarrow> byte" where
  "byte_of_char c = word_of_nat (of_char c)"

definition char_of_byte :: "byte \<Rightarrow> char" where
  "char_of_byte b = char_of (unat b)"

text \<open>\<open>s.as_bytes()\<close> and its inverse.\<close>

definition as_bytes :: "string \<Rightarrow> byte list" where
  "as_bytes s = map byte_of_char s"

definition of_bytes :: "byte list \<Rightarrow> string" where
  "of_bytes bs = map char_of_byte bs"

lemma of_char_less_256: "(of_char c :: nat) < 256"
  by (metis of_char_mod_256 mod_less_divisor zero_less_numeral)

lemma char_of_byte_of_char [simp]: "char_of_byte (byte_of_char c) = c"
proof -
  have "unat (word_of_nat (of_char c) :: byte) = of_char c"
    using of_char_less_256 [of c] by (simp add: unat_of_nat take_bit_eq_mod)
  then show ?thesis by (simp add: char_of_byte_def byte_of_char_def)
qed

lemma byte_of_char_of_byte [simp]: "byte_of_char (char_of_byte b) = b"
proof -
  have "unat b < 256" using unsigned_less [of b, where 'a = nat] by simp
  then show ?thesis
    by (simp add: char_of_byte_def byte_of_char_def)
qed

lemma of_bytes_as_bytes [str_simps, simp]: "of_bytes (as_bytes s) = s"
  by (simp add: of_bytes_def as_bytes_def comp_def)

lemma as_bytes_of_bytes [str_simps, simp]: "as_bytes (of_bytes bs) = bs"
  by (simp add: of_bytes_def as_bytes_def comp_def)

lemma as_bytes_inject: "as_bytes s = as_bytes t \<longleftrightarrow> s = t"
  by (metis of_bytes_as_bytes)

lemma length_as_bytes [simp]: "length (as_bytes s) = length s"
  by (simp add: as_bytes_def)

lemma length_of_bytes [simp]: "length (of_bytes s) = length s"
  by (simp add: of_bytes_def)

lemma as_bytes_append [simp]: "as_bytes (s @ t) = as_bytes s @ as_bytes t"
  by (simp add: as_bytes_def)

abbreviation tab :: char where "tab \<equiv> CHR 0x09"
abbreviation nl :: char where "nl \<equiv> CHR 0x0A"
abbreviation cr :: char where "cr \<equiv> CHR 0x0D"

section \<open>UTF-8\<close>

text \<open>The UTF-8 bytes of one scalar value.\<close>

definition enc_char :: "nat \<Rightarrow> string" where
  "enc_char n = map char_of
     (if n < 0x80 then [n]
      else if n < 0x800 then [0xC0 + n div 0x40, 0x80 + n mod 0x40]
      else if n < 0x10000
        then [0xE0 + n div 0x1000, 0x80 + n div 0x40 mod 0x40, 0x80 + n mod 0x40]
      else [0xF0 + n div 0x40000, 0x80 + n div 0x1000 mod 0x40,
            0x80 + n div 0x40 mod 0x40, 0x80 + n mod 0x40])"

text \<open>Text given by its scalar values; the messages of the program are written this way.\<close>

definition U :: "nat list \<Rightarrow> string" where
  "U cps = concat (map enc_char cps)"

definition is_cont :: "nat \<Rightarrow> bool" where
  "is_cont b \<longleftrightarrow> 0x80 \<le> b \<and> b \<le> 0xBF"

text \<open>
  One step of the decoder on bytes as numbers: the scalar value (or \<^const>\<open>None\<close> for an
  ill-formed run) and how many bytes it takes. An ill-formed run is the longest prefix of a
  well-formed sequence, as in Rust's \<open>Utf8Chunks\<close>; a missing byte reads as \<open>0\<close>.
\<close>

definition byte_at :: "nat list \<Rightarrow> nat \<Rightarrow> nat" where
  "byte_at bs i = (if i < length bs then bs ! i else 0)"

definition second_ok :: "nat \<Rightarrow> nat \<Rightarrow> bool" where
  "second_ok b0 b1 \<longleftrightarrow>
     (if b0 = 0xE0 then 0xA0 \<le> b1 \<and> b1 \<le> 0xBF
      else if b0 = 0xED then 0x80 \<le> b1 \<and> b1 \<le> 0x9F
      else if b0 = 0xF0 then 0x90 \<le> b1 \<and> b1 \<le> 0xBF
      else if b0 = 0xF4 then 0x80 \<le> b1 \<and> b1 \<le> 0x8F
      else is_cont b1)"

definition dec_step :: "nat list \<Rightarrow> nat option \<times> nat" where
  "dec_step bs =
     (let b0 = byte_at bs 0; b1 = byte_at bs 1; b2 = byte_at bs 2; b3 = byte_at bs 3 in
      if b0 < 0x80 then (Some b0, 1)
      else if 0xC2 \<le> b0 \<and> b0 \<le> 0xDF then
        (if is_cont b1 then (Some ((b0 - 0xC0) * 0x40 + (b1 - 0x80)), 2) else (None, 1))
      else if 0xE0 \<le> b0 \<and> b0 \<le> 0xEF then
        (if \<not> second_ok b0 b1 then (None, 1)
         else if \<not> is_cont b2 then (None, 2)
         else (Some ((b0 - 0xE0) * 0x1000 + (b1 - 0x80) * 0x40 + (b2 - 0x80)), 3))
      else if 0xF0 \<le> b0 \<and> b0 \<le> 0xF4 then
        (if \<not> second_ok b0 b1 then (None, 1)
         else if \<not> is_cont b2 then (None, 2)
         else if \<not> is_cont b3 then (None, 3)
         else (Some ((b0 - 0xF0) * 0x40000 + (b1 - 0x80) * 0x1000
                     + (b2 - 0x80) * 0x40 + (b3 - 0x80)), 4))
      else (None, 1))"

lemma dec_step_pos: "0 < snd (dec_step bs)"
  by (simp add: dec_step_def Let_def)

function dec_all :: "nat list \<Rightarrow> nat option list" where
  "dec_all bs =
     (if bs = [] then []
      else case dec_step bs of (r, k) \<Rightarrow> r # dec_all (drop k bs))"
  by pat_completeness auto
termination
proof (relation "measure length", goal_cases)
  case (2 bs p k)
  then have "0 < k" using dec_step_pos [of bs] by (metis snd_conv)
  with 2 show ?case by (cases bs) auto
qed simp

declare dec_all.simps [simp del]

definition decode :: "string \<Rightarrow> nat option list" where
  "decode s = dec_all (map of_char s)"

text \<open>\<open>str::from_utf8(..).is_ok()\<close>, \<open>s.chars()\<close>, \<open>String::from_utf8_lossy\<close>.\<close>

definition valid_utf8 :: "string \<Rightarrow> bool" where
  "valid_utf8 s \<longleftrightarrow> None \<notin> set (decode s)"

definition chars :: "string \<Rightarrow> nat list" where
  "chars s = List.map_filter id (decode s)"

definition from_utf8_lossy :: "byte list \<Rightarrow> string" where
  "from_utf8_lossy bs =
     concat (map (\<lambda>r. enc_char (case r of Some n \<Rightarrow> n | None \<Rightarrow> 0xFFFD)) (decode (of_bytes bs)))"

text \<open>
  \<open>s.is_char_boundary(i)\<close>: the start, the end, or a byte that does not continue a character.
  Slicing a \<open>&str\<close> anywhere else panics.
\<close>

definition is_char_boundary :: "string \<Rightarrow> nat \<Rightarrow> bool" where
  "is_char_boundary s i \<longleftrightarrow>
     i = 0 \<or> i = length s \<or> (i < length s \<and> \<not> is_cont (of_char (s ! i)))"

definition slice_to :: "string \<Rightarrow> nat \<Rightarrow> string option" where
  "slice_to s i = (if is_char_boundary s i then Some (take i s) else None)"

definition is_ascii :: "string \<Rightarrow> bool" where
  "is_ascii s \<longleftrightarrow> (\<forall>c \<in> set s. (of_char c :: nat) < 0x80)"

lemma is_ascii_append [str_simps, simp]: "is_ascii (s @ t) \<longleftrightarrow> is_ascii s \<and> is_ascii t"
  by (auto simp: is_ascii_def)

lemma is_ascii_Nil [simp]: "is_ascii []"
  by (simp add: is_ascii_def)

lemma is_ascii_Cons: "is_ascii (c # s) \<longleftrightarrow> (of_char c :: nat) < 0x80 \<and> is_ascii s"
  by (auto simp: is_ascii_def)

lemma is_ascii_boundary:
  assumes "is_ascii s" "i \<le> length s" shows "is_char_boundary s i"
proof (cases "i = length s")
  case False
  with assms have "s ! i \<in> set s" by simp
  then have "(of_char (s ! i) :: nat) < 0x80" using assms(1) by (simp add: is_ascii_def)
  with False assms(2) show ?thesis by (simp add: is_char_boundary_def is_cont_def)
qed (simp add: is_char_boundary_def)

lemma is_ascii_slice: "is_ascii s \<Longrightarrow> i \<le> length s \<Longrightarrow> slice_to s i = Some (take i s)"
  by (simp add: slice_to_def is_ascii_boundary)

lemma of_char_inject: "(of_char c :: nat) = of_char d \<longleftrightarrow> c = d"
  by (metis char_of_char)

lemma dec_all_ascii: "\<forall>b \<in> set bs. b < 0x80 \<Longrightarrow> dec_all bs = map Some bs"
proof (induction bs)
  case Nil
  show ?case by (simp add: dec_all.simps [of "[]"])
next
  case (Cons b bs)
  then show ?case
    by (simp add: dec_all.simps [of "b # bs"] dec_step_def byte_at_def Let_def)
qed

lemma decode_ascii: "is_ascii s \<Longrightarrow> decode s = map (Some \<circ> of_char) s"
  by (simp add: decode_def is_ascii_def dec_all_ascii)

lemma valid_utf8_ascii [str_simps]: "is_ascii s \<Longrightarrow> valid_utf8 s"
  by (auto simp: valid_utf8_def decode_ascii)

lemma map_filter_id_Some: "List.map_filter id (map (Some \<circ> f) s) = map f s"
  by (induction s) (auto simp: map_filter_simps)

lemma chars_ascii: "is_ascii s \<Longrightarrow> chars s = map of_char s"
  unfolding chars_def by (simp only: decode_ascii map_filter_id_Some)

lemma enc_char_ascii: "(of_char c :: nat) < 0x80 \<Longrightarrow> enc_char (of_char c) = [c]"
  by (simp add: enc_char_def)

lemma from_utf8_lossy_ascii:
  assumes "is_ascii s" shows "from_utf8_lossy (as_bytes s) = s"
proof -
  have "concat (map (\<lambda>c. enc_char (of_char c)) s) = s"
    using assms by (induction s) (auto simp: is_ascii_Cons enc_char_ascii)
  then show ?thesis
    by (simp add: from_utf8_lossy_def decode_ascii assms comp_def)
qed

section \<open>Numbers as text\<close>

definition digit :: "nat \<Rightarrow> char" where
  "digit d = char_of (if d < 10 then 48 + d else 87 + d)"

lemma digit_values [simp]:
  "digit 0 = CHR ''0''"
  "digit (Suc 0) = CHR ''1''"
  "digit 2 = CHR ''2''"
  "digit 3 = CHR ''3''"
  "digit 4 = CHR ''4''"
  "digit 5 = CHR ''5''"
  "digit 6 = CHR ''6''"
  "digit 7 = CHR ''7''"
  "digit 8 = CHR ''8''"
  "digit 9 = CHR ''9''"
  "digit 10 = CHR ''a''"
  "digit 11 = CHR ''b''"
  "digit 12 = CHR ''c''"
  "digit 13 = CHR ''d''"
  "digit 14 = CHR ''e''"
  "digit 15 = CHR ''f''"
  by code_simp+

text \<open>\<open>{}\<close> on an unsigned integer.\<close>

fun show_nat :: "nat \<Rightarrow> string" where
  "show_nat n = (if n < 10 then [digit n] else show_nat (n div 10) @ [digit (n mod 10)])"

declare show_nat.simps [simp del]

definition show_int :: "int \<Rightarrow> string" where
  "show_int i = (if i < 0 then CHR ''-'' # show_nat (nat (- i)) else show_nat (nat i))"

text \<open>\<open>{:0wx}\<close>: \<open>w\<close> lower-case hexadecimal digits; \<open>{:x}\<close>: as many as needed.\<close>

fun hex_fixed :: "nat \<Rightarrow> nat \<Rightarrow> string" where
  "hex_fixed 0 n = []"
| "hex_fixed (Suc w) n = hex_fixed w (n div 16) @ [digit (n mod 16)]"

fun show_hex :: "nat \<Rightarrow> string" where
  "show_hex n = (if n < 16 then [digit n] else show_hex (n div 16) @ [digit (n mod 16)])"

declare show_hex.simps [simp del]

definition is_digit :: "char \<Rightarrow> bool" where
  "is_digit c \<longleftrightarrow> 48 \<le> (of_char c :: nat) \<and> (of_char c :: nat) \<le> 57"

definition digits_value :: "string \<Rightarrow> nat" where
  "digits_value s = foldl (\<lambda>a c. a * 10 + (of_char c - 48)) 0 s"

text \<open>\<open>s.parse::<uN>()\<close>: an optional \<open>+\<close>, at least one digit, no overflow.\<close>

definition parse_uint :: "nat \<Rightarrow> string \<Rightarrow> nat option" where
  "parse_uint bound s =
     (let d = (case s of [] \<Rightarrow> [] | c # r \<Rightarrow> if c = CHR ''+'' then r else s) in
      if d = [] \<or> \<not> list_all is_digit d then None
      else if digits_value d < bound then Some (digits_value d) else None)"

lemma show_nat_small: "n < 10 \<Longrightarrow> show_nat n = [digit n]"
  by (simp add: show_nat.simps)

lemma digit_is_digit: "d < 10 \<Longrightarrow> is_digit (digit d)"
  by (simp add: digit_def is_digit_def)

lemma digit_value: "d < 10 \<Longrightarrow> (of_char (digit d) :: nat) - 48 = d"
  by (simp add: digit_def)

lemma show_nat_digits: "list_all is_digit (show_nat n)"
proof (induction n rule: show_nat.induct)
  case (1 n)
  then show ?case
    by (subst show_nat.simps) (auto simp: digit_is_digit)
qed

lemma show_nat_ne [simp]: "show_nat n \<noteq> []"
  by (subst show_nat.simps) simp

lemma digits_value_show_nat: "digits_value (show_nat n) = n"
proof (induction n rule: show_nat.induct)
  case (1 n)
  then show ?case
    by (subst show_nat.simps) (auto simp: digits_value_def digit_value)
qed

lemma show_nat_inject: "show_nat m = show_nat n \<longleftrightarrow> m = n"
  by (metis digits_value_show_nat)

lemma is_digit_range: "is_digit c \<Longrightarrow> c \<notin> {tab, nl, cr, CHR '' '', CHR ''+'', CHR '':'', CHR ''|''}"
  by (auto simp: is_digit_def)

lemma show_nat_no: "c \<in> {tab, nl, cr, CHR '' '', CHR ''+'', CHR '':'', CHR ''|''} \<Longrightarrow> c \<notin> set (show_nat n)"
  using show_nat_digits [of n] is_digit_range by (auto simp: list_all_iff)

lemma parse_show_nat [str_simps]:
  assumes "n < bound" shows "parse_uint bound (show_nat n) = Some n"
proof -
  obtain c r where s: "show_nat n = c # r" by (cases "show_nat n") auto
  have "c \<noteq> CHR ''+''" using show_nat_no [of "CHR ''+''" n] s by auto
  then show ?thesis
    using assms show_nat_digits [of n] digits_value_show_nat [of n] s
    by (simp add: parse_uint_def Let_def)
qed

lemma is_ascii_show_nat [str_simps, simp]: "is_ascii (show_nat n)"
  using show_nat_digits [of n]
  by (force simp: is_ascii_def list_all_iff is_digit_def)

definition is_hex_digit :: "char \<Rightarrow> bool" where
  "is_hex_digit c \<longleftrightarrow> is_digit c \<or> (97 \<le> (of_char c :: nat) \<and> (of_char c :: nat) \<le> 102)"

lemma digit_hex: "d < 16 \<Longrightarrow> is_hex_digit (digit d)"
  by (auto simp: digit_def is_hex_digit_def is_digit_def)

lemma length_hex_fixed [simp]: "length (hex_fixed w n) = w"
  by (induction w arbitrary: n) auto

lemma hex_fixed_hex: "list_all is_hex_digit (hex_fixed w n)"
  by (induction w arbitrary: n) (auto simp: digit_hex)

lemma digit_inject: assumes "a < 16" "b < 16" "digit a = digit b" shows "a = b"
proof -
  have "(of_char (digit a) :: nat) = of_char (digit b)" using assms(3) by simp
  then show ?thesis using assms(1,2) by (simp add: digit_def split: if_splits)
qed

lemma hex_fixed_inject:
  "m < 16 ^ w \<Longrightarrow> n < 16 ^ w \<Longrightarrow> hex_fixed w m = hex_fixed w n \<Longrightarrow> m = n"
proof (induction w arbitrary: m n)
  case (Suc w)
  from Suc.prems(3) have "hex_fixed w (m div 16) = hex_fixed w (n div 16)"
    and "digit (m mod 16) = digit (n mod 16)" by auto
  moreover have "m div 16 < 16 ^ w" "n div 16 < 16 ^ w"
    using Suc.prems(1,2) by (auto simp: less_mult_imp_div_less mult.commute)
  ultimately have "m div 16 = n div 16" "m mod 16 = n mod 16"
    using Suc.IH digit_inject [of "m mod 16" "n mod 16"] by auto
  then show ?case by (metis div_mult_mod_eq)
qed simp

lemma is_hex_no: "is_hex_digit c \<Longrightarrow> c \<notin> {tab, nl, cr, CHR '' '', CHR ''|'', CHR '':''}"
  by (auto simp: is_hex_digit_def is_digit_def)

lemma is_hex_ascii: "list_all is_hex_digit s \<Longrightarrow> is_ascii s"
  by (fastforce simp: list_all_iff is_ascii_def is_hex_digit_def is_digit_def)

section \<open>Characters\<close>

text \<open>\<open>char::is_control\<close> (category Cc) and \<open>char::is_whitespace\<close> (White\_Space).\<close>

definition is_control :: "nat \<Rightarrow> bool" where
  "is_control n \<longleftrightarrow> n < 0x20 \<or> (0x7F \<le> n \<and> n < 0xA0)"

definition is_whitespace :: "nat \<Rightarrow> bool" where
  "is_whitespace n \<longleftrightarrow>
     (9 \<le> n \<and> n \<le> 13) \<or> n \<in> {0x20, 0x85, 0xA0, 0x1680, 0x2028, 0x2029, 0x202F, 0x205F, 0x3000}
     \<or> (0x2000 \<le> n \<and> n \<le> 0x200A)"

text \<open>\<open>s.trim()\<close>, \<open>s.split_whitespace()\<close> and \<open>s.trim_end_matches(c)\<close>, \<open>s.trim_matches(c)\<close>.\<close>

definition trim :: "string \<Rightarrow> string" where
  "trim s = U (rev (dropWhile is_whitespace (rev (dropWhile is_whitespace (chars s)))))"

definition split_ws_chars :: "nat list \<Rightarrow> nat list list" where
  "split_ws_chars cs =
     filter (\<lambda>w. w \<noteq> []) (split_on 0x20 (map (\<lambda>c. if is_whitespace c then 0x20 else c) cs))"

definition split_whitespace :: "string \<Rightarrow> string list" where
  "split_whitespace s = map U (split_ws_chars (chars s))"

definition trim_end_char :: "char \<Rightarrow> string \<Rightarrow> string" where
  "trim_end_char c s = rev (dropWhile (\<lambda>x. x = c) (rev s))"

definition trim_char :: "char \<Rightarrow> string \<Rightarrow> string" where
  "trim_char c s = trim_end_char c (dropWhile (\<lambda>x. x = c) s)"

definition ascii_lower :: "string \<Rightarrow> string" where
  "ascii_lower s = map (\<lambda>c. let n = of_char c :: nat in
     if 65 \<le> n \<and> n \<le> 90 then char_of (n + 32) else c) s"

text \<open>
  \<open>{:?}\<close> on a string. Which non-ASCII scalar values Rust escapes is a Unicode table of its
  standard library: the argument \<open>esc\<close>.
\<close>

definition debug_char :: "(nat \<Rightarrow> bool) \<Rightarrow> nat \<Rightarrow> string" where
  "debug_char esc n =
     (if n = 0 then [CHR 0x5C, CHR ''0'']
      else if n = 9 then [CHR 0x5C, CHR ''t'']
      else if n = 10 then [CHR 0x5C, CHR ''n'']
      else if n = 13 then [CHR 0x5C, CHR ''r'']
      else if n = 0x22 then [CHR 0x5C, CHR 0x22]
      else if n = 0x5C then [CHR 0x5C, CHR 0x5C]
      else if n < 0x20 \<or> n = 0x7F \<or> (0x80 \<le> n \<and> esc n)
        then [CHR 0x5C, CHR ''u'', CHR ''{''] @ show_hex n @ ''}''
      else enc_char n)"

definition debug_str :: "(nat \<Rightarrow> bool) \<Rightarrow> string \<Rightarrow> string" where
  "debug_str esc s = [CHR 0x22] @ concat (map (debug_char esc) (chars s)) @ [CHR 0x22]"

text \<open>\<open>{:<n}\<close>: padded on the right with blanks to \<open>n\<close> characters.\<close>

definition pad_right :: "nat \<Rightarrow> string \<Rightarrow> string" where
  "pad_right n s = s @ replicate (n - length (chars s)) (CHR '' '')"

lemma trim_ascii_id:
  assumes "is_ascii s" "\<forall>c \<in> set s. \<not> is_whitespace (of_char c)"
  shows "trim s = s"
proof -
  have no: "dropWhile is_whitespace xs = xs" if "\<forall>x \<in> set xs. \<not> is_whitespace x" for xs
    using that by (cases xs) auto
  have "trim s = U (map of_char s)"
    using assms by (simp add: trim_def chars_ascii no)
  also have "\<dots> = s"
    using assms(1) by (induction s) (auto simp: U_def is_ascii_Cons enc_char_ascii)
  finally show ?thesis .
qed

section \<open>Concatenation of well-formed text\<close>

lemma dec_step_append:
  assumes "bs \<noteq> []" "dec_step bs = (Some n, k)"
  shows "dec_step (bs @ cs) = (Some n, k) \<and> k \<le> length bs"
proof -
  have zero: "byte_at bs i \<noteq> 0 \<Longrightarrow> i < length bs" for i by (simp add: byte_at_def split: if_splits)
  have cont: "is_cont (byte_at bs i) \<Longrightarrow> i < length bs" for i
    using zero [of i] by (auto simp: is_cont_def)
  have sec: "second_ok b (byte_at bs i) \<Longrightarrow> i < length bs" for b i
    using zero [of i] cont [of i] by (auto simp: second_ok_def split: if_splits)
  have same: "i < length bs \<Longrightarrow> byte_at (bs @ cs) i = byte_at bs i" for i
    by (simp add: byte_at_def nth_append)
  have b0: "byte_at (bs @ cs) 0 = byte_at bs 0" using assms(1) same [of 0] by simp
  define a b c d where abcd: "a = byte_at bs 0" "b = byte_at bs 1" "c = byte_at bs 2" "d = byte_at bs 3"
  define b' c' d' where bcd': "b' = byte_at (bs @ cs) 1" "c' = byte_at (bs @ cs) 2" "d' = byte_at (bs @ cs) 3"
  define m where "m = length bs"
  have m: "0 < m" using assms(1) by (simp add: m_def)
  have b: "is_cont b \<or> second_ok a b \<Longrightarrow> b' = b \<and> 1 < m"
    using cont [of 1] sec [of a 1] same [of 1] abcd(2) bcd'(1) m_def by auto
  have c: "is_cont c \<Longrightarrow> c' = c \<and> 2 < m" using cont [of 2] same [of 2] abcd(3) bcd'(2) m_def by auto
  have d: "is_cont d \<Longrightarrow> d' = d \<and> 3 < m" using cont [of 3] same [of 3] abcd(4) bcd'(3) m_def by auto
  show ?thesis
    using assms(2) m b c d unfolding dec_step_def Let_def b0 abcd [symmetric] bcd' [symmetric] m_def [symmetric]
    by (simp split: if_splits)
qed

lemma dec_all_append: "None \<notin> set (dec_all bs) \<Longrightarrow> dec_all (bs @ cs) = dec_all bs @ dec_all cs"
proof (induction bs rule: dec_all.induct)
  case (1 bs)
  show ?case
  proof (cases "bs = []")
    case True
    then show ?thesis by (simp add: dec_all.simps [of "[]"])
  next
    case False
    obtain r k where rk: "dec_step bs = (r, k)" by (cases "dec_step bs")
    have bs: "dec_all bs = r # dec_all (drop k bs)" using False rk by (simp add: dec_all.simps [of bs])
    with 1(2) obtain n where r: "r = Some n" by (cases r) auto
    from dec_step_append [OF False rk [unfolded r], of cs]
    have "dec_all (bs @ cs) = r # dec_all (drop k bs @ cs)"
      using False r by (simp add: dec_all.simps [of "bs @ cs"])
    with 1(1) [OF False rk [symmetric]] 1(2) bs show ?thesis by simp
  qed
qed

lemma valid_utf8_append [str_simps]: "valid_utf8 s \<Longrightarrow> valid_utf8 t \<Longrightarrow> valid_utf8 (s @ t)"
  by (simp add: valid_utf8_def decode_def dec_all_append)

lemma chars_append: "valid_utf8 s \<Longrightarrow> chars (s @ t) = chars s @ chars t"
  by (simp add: valid_utf8_def decode_def chars_def dec_all_append map_filter_def)

lemma valid_utf8_join:
  "valid_utf8 sep \<Longrightarrow> (\<forall>p \<in> set ps. valid_utf8 p) \<Longrightarrow> valid_utf8 (join sep ps)"
proof (induction ps)
  case (Cons p ps)
  then show ?case by (cases ps) (auto intro!: valid_utf8_append)
qed (simp add: valid_utf8_ascii)

lemma trim_ends:
  assumes "is_ascii s" "s \<noteq> []" "\<not> is_whitespace (of_char (hd s))" "\<not> is_whitespace (of_char (last s))"
  shows "trim s = s"
proof -
  have no: "dropWhile is_whitespace xs = xs" if "xs \<noteq> []" "\<not> is_whitespace (hd xs)" for xs
    using that by (cases xs) auto
  have "trim s = U (map of_char s)"
    using assms by (simp add: trim_def chars_ascii no hd_map hd_rev last_map flip: rev_map)
  also have "\<dots> = s"
    using assms(1) by (induction s) (auto simp: U_def is_ascii_Cons enc_char_ascii)
  finally show ?thesis .
qed

end
