(* ===== verification/Sha256.thy ===== *)
theory Sha256
  imports Rust_Str
begin

text \<open>
  \<open>sha256.rs\<close>: the hand-written SHA-256 behind the audit chain and the action signatures.
  The message is padded, cut into 64-byte blocks, and each block is folded into eight 32-bit
  words; additions wrap. The lemmas give the shape of the digest, the length and the
  injectivity of the padding, and the recurrence the message schedule satisfies.
\<close>

unbundle bit_operations_syntax

text \<open>The round constants, a list per line of the source's table.\<close>

definition K256 :: "u32 list" where
  "K256 = concat [
    [0x428a2f98, 0x71374491, 0xb5c0fbcf, 0xe9b5dba5, 0x3956c25b, 0x59f111f1, 0x923f82a4, 0xab1c5ed5],
    [0xd807aa98, 0x12835b01, 0x243185be, 0x550c7dc3, 0x72be5d74, 0x80deb1fe, 0x9bdc06a7, 0xc19bf174],
    [0xe49b69c1, 0xefbe4786, 0x0fc19dc6, 0x240ca1cc, 0x2de92c6f, 0x4a7484aa, 0x5cb0a9dc, 0x76f988da],
    [0x983e5152, 0xa831c66d, 0xb00327c8, 0xbf597fc7, 0xc6e00bf3, 0xd5a79147, 0x06ca6351, 0x14292967],
    [0x27b70a85, 0x2e1b2138, 0x4d2c6dfc, 0x53380d13, 0x650a7354, 0x766a0abb, 0x81c2c92e, 0x92722c85],
    [0xa2bfe8a1, 0xa81a664b, 0xc24b8b70, 0xc76c51a3, 0xd192e819, 0xd6990624, 0xf40e3585, 0x106aa070],
    [0x19a4c116, 0x1e376c08, 0x2748774c, 0x34b0bcb5, 0x391c0cb3, 0x4ed8aa4a, 0x5b9cca4f, 0x682e6ff3],
    [0x748f82ee, 0x78a5636f, 0x84c87814, 0x8cc70208, 0x90befffa, 0xa4506ceb, 0xbef9a3f7, 0xc67178f2]]"

definition H256 :: "u32 list" where
  "H256 = [0x6a09e667, 0xbb67ae85, 0x3c6ef372, 0xa54ff53a, 0x510e527f, 0x9b05688c, 0x1f83d9ab, 0x5be0cd19]"

definition rotr :: "nat \<Rightarrow> u32 \<Rightarrow> u32" where
  "rotr n x = drop_bit n x OR push_bit (32 - n) x"

text \<open>\<open>x.to_be_bytes()\<close> on a \<open>u64\<close> and \<open>u32::from_be_bytes\<close>.\<close>

definition be_bytes64 :: "u64 \<Rightarrow> byte list" where
  "be_bytes64 x = map (\<lambda>i. ucast (drop_bit (8 * (7 - i)) x)) [0..<8]"

definition from_be32 :: "byte \<Rightarrow> byte \<Rightarrow> byte \<Rightarrow> byte \<Rightarrow> u32" where
  "from_be32 a b c d =
     push_bit 24 (ucast a) OR push_bit 16 (ucast b) OR push_bit 8 (ucast c) OR ucast d"

text \<open>The padding loop \<open>while msg.len() % 64 != 56 { msg.push(0) }\<close>.\<close>

function pad_zeros :: "byte list \<Rightarrow> byte list" where
  "pad_zeros msg = (if length msg mod 64 \<noteq> 56 then pad_zeros (msg @ [0]) else msg)"
  by pat_completeness auto
termination
proof (relation "measure (\<lambda>m. (120 - length m mod 64) mod 64)", goal_cases)
  case (2 m)
  define r where "r = length m mod 64"
  have r: "r < 64" "r \<noteq> 56" and next_r: "length (m @ [0]) mod 64 = (if r = 63 then 0 else Suc r)"
    using 2 by (auto simp: r_def mod_Suc)
  consider "r < 56" | "56 < r" "r < 63" | "r = 63" using r by linarith
  then have "(120 - (if r = 63 then 0 else Suc r)) mod 64 < (120 - r) mod 64"
  proof cases
    case 1
    then have "(120 - r) mod 64 = 56 - r" "(120 - Suc r) mod 64 = 55 - r"
      using mod_add_self2 [of "56 - r" 64] mod_add_self2 [of "55 - r" 64] by simp_all
    with 1 show ?thesis by simp
  qed auto
  then show ?case using next_r by (simp add: r_def)
qed simp

declare pad_zeros.simps [simp del]

definition sha_pad :: "byte list \<Rightarrow> byte list" where
  "sha_pad data = pad_zeros (data @ [0x80]) @ be_bytes64 (of_nat (length data) * 8)"

text \<open>\<open>msg.chunks(n)\<close>.\<close>

function chunks :: "nat \<Rightarrow> 'a list \<Rightarrow> 'a list list" where
  "chunks n xs = (if n = 0 \<or> xs = [] then [] else take n xs # chunks n (drop n xs))"
  by pat_completeness auto
termination by (relation "measure (length \<circ> snd)") auto

declare chunks.simps [simp del]

text \<open>The message schedule: sixteen words of the block, then forty-eight derived ones.\<close>

definition block_words :: "byte list \<Rightarrow> u32 list" where
  "block_words c =
     map (\<lambda>i. from_be32 (c ! (i * 4)) (c ! (i * 4 + 1)) (c ! (i * 4 + 2)) (c ! (i * 4 + 3))) [0..<16]"

definition sched_word :: "u32 list \<Rightarrow> nat \<Rightarrow> u32" where
  "sched_word w i =
     (let s0 = rotr 7 (w ! (i - 15)) XOR rotr 18 (w ! (i - 15)) XOR drop_bit 3 (w ! (i - 15));
          s1 = rotr 17 (w ! (i - 2)) XOR rotr 19 (w ! (i - 2)) XOR drop_bit 10 (w ! (i - 2))
      in w ! (i - 16) + s0 + w ! (i - 7) + s1)"

fun sched_extend :: "nat \<Rightarrow> u32 list \<Rightarrow> u32 list" where
  "sched_extend 0 w = w"
| "sched_extend (Suc k) w = sched_extend k (w @ [sched_word w (length w)])"

definition schedule :: "byte list \<Rightarrow> u32 list" where
  "schedule c = sched_extend 48 (block_words c)"

text \<open>One round on the working variables \<open>a..h\<close>.\<close>

type_synonym regs = "u32 \<times> u32 \<times> u32 \<times> u32 \<times> u32 \<times> u32 \<times> u32 \<times> u32"

definition sha_round :: "u32 \<times> u32 \<Rightarrow> regs \<Rightarrow> regs" where
  "sha_round kw r = (case kw of (k, w) \<Rightarrow> case r of (a, b, c, d, e, f, g, hh) \<Rightarrow>
     (let s1 = rotr 6 e XOR rotr 11 e XOR rotr 25 e;
          ch = (e AND f) XOR (NOT e AND g);
          t1 = hh + s1 + ch + k + w;
          s0 = rotr 2 a XOR rotr 13 a XOR rotr 22 a;
          maj = (a AND b) XOR (a AND c) XOR (b AND c);
          t2 = s0 + maj
      in (t1 + t2, a, b, c, d + t1, e, f, g)))"

definition regs_of :: "u32 list \<Rightarrow> regs" where
  "regs_of h = (h ! 0, h ! 1, h ! 2, h ! 3, h ! 4, h ! 5, h ! 6, h ! 7)"

definition add_regs :: "u32 list \<Rightarrow> regs \<Rightarrow> u32 list" where
  "add_regs h r = (case r of (a, b, c, d, e, f, g, hh) \<Rightarrow>
     [h ! 0 + a, h ! 1 + b, h ! 2 + c, h ! 3 + d, h ! 4 + e, h ! 5 + f, h ! 6 + g, h ! 7 + hh])"

definition compress :: "byte list \<Rightarrow> u32 list \<Rightarrow> u32 list" where
  "compress chunk h = add_regs h (fold sha_round (zip K256 (schedule chunk)) (regs_of h))"

definition sha256_words :: "byte list \<Rightarrow> u32 list" where
  "sha256_words data = fold compress (chunks 64 (sha_pad data)) H256"

definition sha256_hex :: "byte list \<Rightarrow> string" where
  "sha256_hex data = concat (map (\<lambda>x. hex_fixed 8 (unat x)) (sha256_words data))"

section \<open>Shape of the padding and of the digest\<close>

lemma pad_zeros_shape: "\<exists>n. pad_zeros msg = msg @ replicate n 0 \<and> (length msg + n) mod 64 = 56"
proof (induction msg rule: pad_zeros.induct)
  case (1 msg)
  show ?case
  proof (cases "length msg mod 64 = 56")
    case True
    then show ?thesis by (intro exI [of _ 0]) (simp add: pad_zeros.simps [of msg])
  next
    case False
    then obtain n where "pad_zeros (msg @ [0]) = (msg @ [0]) @ replicate n 0"
      "(length (msg @ [0]) + n) mod 64 = 56" using 1 by blast
    with False show ?thesis
      by (intro exI [of _ "Suc n"]) (simp add: pad_zeros.simps [of msg])
  qed
qed

lemma length_be_bytes64 [simp]: "length (be_bytes64 x) = 8"
  by (simp add: be_bytes64_def)

lemma be_bytes64_inject: "be_bytes64 x = be_bytes64 y \<longleftrightarrow> x = y"
proof
  assume eq: "be_bytes64 x = be_bytes64 y"
  show "x = y"
  proof (rule bit_word_eqI)
    fix n assume n: "n < LENGTH(64)"
    then have j: "7 - n div 8 < 8" "7 - (7 - n div 8) = n div 8" by auto
    have "be_bytes64 x ! (7 - n div 8) = be_bytes64 y ! (7 - n div 8)" using eq by simp
    then have "(ucast (drop_bit (8 * (n div 8)) x) :: byte) = ucast (drop_bit (8 * (n div 8)) y)"
      using j by (simp add: be_bytes64_def)
    then have "bit (ucast (drop_bit (8 * (n div 8)) x) :: byte) (n mod 8)
        = bit (ucast (drop_bit (8 * (n div 8)) y) :: byte) (n mod 8)" by simp
    then show "bit x n \<longleftrightarrow> bit y n"
      by (simp add: bit_ucast_iff bit_drop_bit_eq)
  qed
qed simp

lemma length_sha_pad: "length (sha_pad data) mod 64 = 0"
proof -
  obtain n where n: "pad_zeros (data @ [0x80]) = (data @ [0x80]) @ replicate n 0"
    "(length (data @ [0x80 :: byte]) + n) mod 64 = 56" using pad_zeros_shape by blast
  have "(k + 8) mod 64 = 0" if "k mod 64 = 56" for k :: nat using that by presburger
  from this [OF n(2)] have "(length data + (1 + (n + 8))) mod 64 = 0" by (simp add: ac_simps)
  with n(1) show ?thesis by (simp add: sha_pad_def ac_simps)
qed

lemma sha_pad_inject:
  assumes "length x < 2 ^ 61" "length y < 2 ^ 61" "sha_pad x = sha_pad y"
  shows "x = y"
proof -
  obtain m n where m: "pad_zeros (x @ [0x80]) = (x @ [0x80]) @ replicate m 0"
    and n: "pad_zeros (y @ [0x80]) = (y @ [0x80]) @ replicate n 0"
    using pad_zeros_shape by meson
  have ends: "pad_zeros (x @ [0x80]) = pad_zeros (y @ [0x80])"
    "be_bytes64 (of_nat (length x) * 8) = be_bytes64 (of_nat (length y) * 8)"
    using assms(3) by (simp_all add: sha_pad_def append_eq_append_conv)
  have "(of_nat (length x) * 8 :: u64) = of_nat (length y) * 8"
    using ends(2) by (simp add: be_bytes64_inject)
  then have "(of_nat (length x * 8) :: u64) = of_nat (length y * 8)" by simp
  then have "length x * 8 = length y * 8"
    unfolding word_of_nat_eq_iff using assms(1,2) by (simp add: take_bit_nat_eq_self)
  then have "length x = length y" by simp
  then show ?thesis using ends(1) m n by simp
qed

lemma length_add_regs [simp]: "length (add_regs h r) = 8"
  by (simp add: add_regs_def split: prod.split)

lemma length_sha256_words [simp]: "length (sha256_words data) = 8"
proof -
  have "length (fold compress cs h) = 8" if "length h = 8" for cs h
    using that by (induction cs arbitrary: h) (auto simp: compress_def)
  then show ?thesis by (simp add: sha256_words_def H256_def)
qed

lemma sha256_hex_hex: "list_all is_hex_digit (sha256_hex data)"
  using hex_fixed_hex by (auto simp: sha256_hex_def list_all_iff)

lemma length_sha256_hex [simp]: "length (sha256_hex data) = 64"
proof -
  have "length (concat (map (\<lambda>x. hex_fixed 8 (f x)) ws)) = 8 * length ws" for f :: "u32 \<Rightarrow> nat" and ws
    by (induction ws) auto
  then show ?thesis by (simp add: sha256_hex_def)
qed

lemma sha256_hex_no:
  assumes "c \<in> {tab, nl, cr, CHR '' '', CHR ''|'', CHR '':''}"
  shows "c \<notin> set (sha256_hex data)"
  using sha256_hex_hex [of data] is_hex_no assms by (auto simp: list_all_iff)

lemma is_ascii_sha256_hex [simp]: "is_ascii (sha256_hex data)"
  by (rule is_hex_ascii [OF sha256_hex_hex])

section \<open>The message schedule\<close>

lemma sched_extend_shape: "\<exists>e. sched_extend k w = w @ e \<and> length e = k"
proof (induction k arbitrary: w)
  case (Suc k)
  from Suc [of "w @ [sched_word w (length w)]"] show ?case by auto
qed simp

lemma sched_word_prefix: "16 \<le> i \<Longrightarrow> i \<le> length w \<Longrightarrow> sched_word (w @ e) i = sched_word w i"
  by (subgoal_tac "i - 15 < length w \<and> i - 2 < length w \<and> i - 16 < length w \<and> i - 7 < length w")
    (simp add: sched_word_def nth_append, linarith)

lemma sched_extend_nth:
  "length w \<le> i \<Longrightarrow> i < length w + k \<Longrightarrow> 16 \<le> length w \<Longrightarrow>
     sched_extend k w ! i = sched_word (sched_extend k w) i"
proof (induction k arbitrary: w)
  case (Suc k)
  let ?w = "w @ [sched_word w (length w)]"
  obtain e where e: "sched_extend k ?w = ?w @ e" using sched_extend_shape by blast
  show ?case
  proof (cases "i = length w")
    case True
    then show ?thesis using Suc.prems e sched_word_prefix [of i w "sched_word w (length w) # e"]
      by simp
  next
    case False
    then show ?thesis using Suc.IH [of ?w] Suc.prems by simp
  qed
qed simp

lemma schedule_recurrence:
  assumes "16 \<le> i" "i < 64"
  shows "length (schedule c) = 64" and "schedule c ! i = sched_word (schedule c) i"
proof -
  show "length (schedule c) = 64"
    using sched_extend_shape [of 48 "block_words c"] by (auto simp: schedule_def block_words_def)
  show "schedule c ! i = sched_word (schedule c) i"
    using sched_extend_nth [of "block_words c" i 48] assms by (simp add: schedule_def block_words_def)
qed

end
