(* ===== verification/Sha_Spec.thy ===== *)
theory Sha_Spec
  imports Sha256
begin

text \<open>
  SHA-256 as FIPS 180-4 states it, and the equality of \<open>sha256.rs\<close> with it. The standard pads to a
  multiple of 512 bits, indexes the words \<open>W\<^sub>t\<close> and the hash values \<open>H\<^sup>(\<^sup>i\<^sup>)\<close> by number, and defines the
  constants as fractional parts of roots of primes; the code keeps buffers and loops.
\<close>

unbundle bit_operations_syntax

section \<open>The standard\<close>

definition Ch :: "u32 \<Rightarrow> u32 \<Rightarrow> u32 \<Rightarrow> u32" where "Ch x y z = (x AND y) XOR (NOT x AND z)"
definition Maj :: "u32 \<Rightarrow> u32 \<Rightarrow> u32 \<Rightarrow> u32" where "Maj x y z = (x AND y) XOR (x AND z) XOR (y AND z)"
definition Sigma0 :: "u32 \<Rightarrow> u32" where "Sigma0 x = word_rotr 2 x XOR word_rotr 13 x XOR word_rotr 22 x"
definition Sigma1 :: "u32 \<Rightarrow> u32" where "Sigma1 x = word_rotr 6 x XOR word_rotr 11 x XOR word_rotr 25 x"
definition sigma0 :: "u32 \<Rightarrow> u32" where "sigma0 x = word_rotr 7 x XOR word_rotr 18 x XOR drop_bit 3 x"
definition sigma1 :: "u32 \<Rightarrow> u32" where "sigma1 x = word_rotr 17 x XOR word_rotr 19 x XOR drop_bit 10 x"

text \<open>The constants: the first 32 bits of the fractional parts of roots of the first primes.\<close>

definition first_primes :: "nat list" where
  "first_primes = [2, 3, 5, 7, 11, 13, 17, 19, 23, 29, 31, 37, 41, 43, 47, 53, 59, 61, 67, 71, 73,
    79, 83, 89, 97, 101, 103, 107, 109, 113, 127, 131, 137, 139, 149, 151, 157, 163, 167, 173,
    179,
    181, 191, 193, 197, 199, 211, 223, 227, 229, 233, 239, 241, 251, 257, 263,
    269, 271, 277, 281, 283, 293, 307, 311]"

definition int_root :: "nat \<Rightarrow> nat \<Rightarrow> nat" where
  "int_root r p = length (filter (\<lambda>i. i ^ r \<le> p) [1, 2, 3, 4, 5, 6])"

definition root_bits :: "nat \<Rightarrow> nat \<Rightarrow> u32 \<Rightarrow> bool" where
  "root_bits r p k \<longleftrightarrow> p < 7 ^ r \<and> (let n = int_root r p * 2 ^ 32 + unat k
     in n ^ r \<le> p * (2 ^ 32) ^ r \<and> p * (2 ^ 32) ^ r < (n + 1) ^ r)"

text \<open>Padding, blocks and schedule.\<close>

definition fips_pad :: "byte list \<Rightarrow> byte list" where
  "fips_pad data = data @ [0x80] @ replicate ((119 - length data mod 64) mod 64) 0
     @ map (\<lambda>i. word_of_nat (8 * length data div 256 ^ (7 - i))) [0..<8]"

definition fips_M :: "byte list \<Rightarrow> nat \<Rightarrow> nat \<Rightarrow> u32" where
  "fips_M m i t = from_be32 (m ! (64 * i + 4 * t)) (m ! (64 * i + 4 * t + 1))
     (m ! (64 * i + 4 * t + 2)) (m ! (64 * i + 4 * t + 3))"

fun fips_W :: "(nat \<Rightarrow> u32) \<Rightarrow> nat \<Rightarrow> u32" where
  "fips_W M t = (if t < 16 then M t
     else sigma1 (fips_W M (t - 2)) + fips_W M (t - 7) + sigma0 (fips_W M (t - 15)) + fips_W M (t - 16))"

declare fips_W.simps [simp del]

fun fips_regs :: "(nat \<Rightarrow> u32) \<Rightarrow> regs \<Rightarrow> nat \<Rightarrow> regs" where
  "fips_regs M r 0 = r"
| "fips_regs M r (Suc t) = (case fips_regs M r t of (a, b, c, d, e, f, g, h) \<Rightarrow>
     (let T1 = h + Sigma1 e + Ch e f g + K256 ! t + fips_W M t; T2 = Sigma0 a + Maj a b c
      in (T1 + T2, a, b, c, d + T1, e, f, g)))"

fun fips_H :: "byte list \<Rightarrow> nat \<Rightarrow> u32 list" where
  "fips_H m 0 = H256"
| "fips_H m (Suc i) = add_regs (fips_H m i) (fips_regs (fips_M m i) (regs_of (fips_H m i)) 64)"

definition fips_sha256 :: "byte list \<Rightarrow> u32 list" where
  "fips_sha256 data = fips_H (fips_pad data) (length (fips_pad data) div 64)"

section \<open>The constants\<close>

lemma K256_roots: "list_all2 (root_bits 3) first_primes K256"
  unfolding first_primes_def K256_def concat.simps append.simps
  by (simp add: root_bits_def int_root_def Let_def)

lemma H256_roots: "list_all2 (root_bits 2) (take 8 first_primes) H256"
  unfolding first_primes_def H256_def
  by (simp add: root_bits_def int_root_def Let_def)

section \<open>Padding\<close>

lemma pad_zeros_count: "pad_zeros msg = msg @ replicate ((120 - length msg mod 64) mod 64) 0"
proof (induction msg rule: pad_zeros.induct)
  case (1 msg)
  define r where "r = length msg mod 64"
  have r: "r < 64" by (simp add: r_def)
  show ?case
  proof (cases "r = 56")
    case False
    then have IH: "pad_zeros (msg @ [0]) = (msg @ [0]) @ replicate ((120 - length (msg @ [0]) mod 64) mod 64) 0"
      using 1 by (simp add: r_def)
    have next_r: "length (msg @ [0]) mod 64 = (if r = 63 then 0 else Suc r)" by (simp add: r_def mod_Suc)
    have "(120 - r) mod 64 = Suc ((120 - (if r = 63 then 0 else Suc r)) mod 64)"
    proof (cases "r < 56")
      case True
      then have "(120 - r) mod 64 = 56 - r" "(120 - Suc r) mod 64 = 55 - r"
        using mod_add_self2 [of "56 - r" 64] mod_add_self2 [of "55 - r" 64] by simp_all
      with True show ?thesis by simp
    next
      case False
      then have "120 - r < 64" "r \<noteq> 63 \<Longrightarrow> 120 - Suc r < 64" using \<open>r \<noteq> 56\<close> r by auto
      then show ?thesis using False \<open>r \<noteq> 56\<close> r by auto
    qed
    then show ?thesis
      using False IH unfolding next_r r_def [symmetric]
      by (subst pad_zeros.simps) (simp add: r_def [symmetric] replicate_append_same)
  qed (subst pad_zeros.simps, simp add: r_def)
qed

lemma len_byte: "(ucast (drop_bit (8 * k) (of_nat n * 8 :: u64)) :: byte) = word_of_nat (8 * n div 256 ^ k)"
  if "k < 8" for k n :: nat
proof (rule bit_word_eqI)
  fix j assume "j < LENGTH(8)"
  then have j: "j < 8" by simp
  have w: "(of_nat n * 8 :: u64) = word_of_nat (8 * n)" by simp
  have "bit (ucast (drop_bit (8 * k) (of_nat n * 8 :: u64)) :: byte) j \<longleftrightarrow> bit (8 * n) (8 * k + j)"
    using j that by (simp add: w bit_simps del: of_nat_mult)
  also have "\<dots> \<longleftrightarrow> bit (word_of_nat (8 * n div 256 ^ k) :: byte) j"
  proof -
    have "(256 :: nat) ^ k = 2 ^ (8 * k)" by (simp add: power_mult)
    then have "8 * n div 256 ^ k = drop_bit (8 * k) (8 * n)" by (simp add: drop_bit_eq_div)
    then show ?thesis using j by (simp add: bit_simps)
  qed
  finally show "bit (ucast (drop_bit (8 * k) (of_nat n * 8 :: u64)) :: byte) j
    \<longleftrightarrow> bit (word_of_nat (8 * n div 256 ^ k) :: byte) j" .
qed

lemma sha_pad_fips: "sha_pad data = fips_pad data"
proof -
  have "(120 - Suc (length data) mod 64) mod 64 = (119 - length data mod 64) mod 64"
  proof (cases "length data mod 64 = 63")
    case True
    then have "Suc (length data) mod 64 = 0" by (simp add: mod_Suc)
    then show ?thesis using True by simp
  next
    case False
    then have "Suc (length data) mod 64 = Suc (length data mod 64)" by (simp add: mod_Suc)
    then show ?thesis by simp
  qed
  then show ?thesis by (simp add: sha_pad_def pad_zeros_count fips_pad_def be_bytes64_def len_byte)
qed

section \<open>Schedule, rounds and blocks\<close>

lemma rotr_word_rotr:
  assumes "0 < k" "k < 32"
  shows "rotr k x = word_rotr k x"
proof (rule bit_word_eqI)
  fix j assume "j < LENGTH(32)"
  then have j: "j < 32" by simp
  show "bit (rotr k x) j \<longleftrightarrow> bit (word_rotr k x) j"
  proof (cases "j + k < 32")
    case True
    then show ?thesis using j assms by (auto simp: rotr_def bit_simps ac_simps)
  next
    case False
    then have "(j + k) mod 32 = j - (32 - k)" using j assms by (simp add: mod_if)
    moreover have "\<not> bit x (k + j)" using False by (auto dest: bit_imp_le_length)
    ultimately show ?thesis using j assms False by (auto simp: rotr_def bit_simps ac_simps)
  qed
qed

lemma sched_word_fips:
  "sched_word w i = sigma1 (w ! (i - 2)) + w ! (i - 7) + sigma0 (w ! (i - 15)) + w ! (i - 16)"
  by (simp add: sched_word_def sigma0_def sigma1_def rotr_word_rotr Let_def algebra_simps)

lemma schedule_head: "i < 16 \<Longrightarrow> schedule c ! i = block_words c ! i"
  using sched_extend_shape [of 48 "block_words c"] by (auto simp: schedule_def block_words_def nth_append)

lemma schedule_fips:
  assumes "\<forall>i < 16. block_words c ! i = M i" "t < 64"
  shows "schedule c ! t = fips_W M t"
  using assms(2)
proof (induction t rule: less_induct)
  case (less t)
  show ?case
  proof (cases "t < 16")
    case True
    then show ?thesis using assms(1) by (subst fips_W.simps) (simp add: schedule_head)
  next
    case False
    then have "schedule c ! (t - k) = fips_W M (t - k)" if "k \<in> {2, 7, 15, 16}" for k
      using less that by auto
    then show ?thesis
      using False less.prems schedule_recurrence(2) [of t c]
      by (subst fips_W.simps) (simp add: sched_word_fips)
  qed
qed

lemma length_K256: "length K256 = 64"
  by (simp add: K256_def)

lemma rounds_fips:
  assumes "\<forall>i < 16. block_words c ! i = M i"
  shows "t \<le> 64 \<Longrightarrow> fold sha_round (take t (zip K256 (schedule c))) r = fips_regs M r t"
proof (induction t)
  case (Suc t)
  have len: "length (schedule c) = 64" using schedule_recurrence(1) [of 16 c] by simp
  then have "take (Suc t) (zip K256 (schedule c)) = take t (zip K256 (schedule c)) @ [(K256 ! t, fips_W M t)]"
    using Suc.prems schedule_fips [OF assms, of t] by (simp add: take_Suc_conv_app_nth length_K256)
  then show ?case using Suc
    by (simp add: sha_round_def rotr_word_rotr Sigma0_def Sigma1_def Ch_def Maj_def Let_def split: prod.split)
qed simp

lemma compress_fips:
  assumes "\<forall>i < 16. block_words c ! i = M i"
  shows "compress c h = add_regs h (fips_regs M (regs_of h) 64)"
  using rounds_fips [OF assms, of 64 "regs_of h"] schedule_recurrence(1) [of 16 c]
  by (simp add: compress_def length_K256)

lemma chunks_nth: "length m = k * n \<Longrightarrow> 0 < n \<Longrightarrow> chunks n m = map (\<lambda>i. take n (drop (n * i) m)) [0..<k]"
proof (induction k arbitrary: m)
  case 0
  then show ?case by (simp add: chunks.simps)
next
  case (Suc k)
  then have "m \<noteq> []" by auto
  have "[0..<Suc k] = 0 # map Suc [0..<k]" by (simp add: map_Suc_upt upt_conv_Cons)
  with Suc.IH [of "drop n m"] Suc.prems \<open>m \<noteq> []\<close> show ?case
    by (subst chunks.simps) (simp add: ac_simps)
qed

lemma block_words_fips:
  assumes "64 * i + 64 \<le> length m" "t < 16"
  shows "block_words (take 64 (drop (64 * i) m)) ! t = fips_M m i t"
  using assms by (simp add: block_words_def fips_M_def ac_simps)

lemma fips_H_fold:
  "64 * n \<le> length m \<Longrightarrow> fips_H m n = fold compress (map (\<lambda>i. take 64 (drop (64 * i) m)) [0..<n]) H256"
proof (induction n)
  case (Suc n)
  then have "compress (take 64 (drop (64 * n) m)) h = add_regs h (fips_regs (fips_M m n) (regs_of h) 64)" for h
    by (intro compress_fips) (simp add: block_words_fips)
  then show ?case using Suc by simp
qed simp

text \<open>
  C35: \<open>sha256.rs\<close> is SHA-256. On every input its eight words are those of the standard, block by
  block and round by round, with the padding and the length field of the standard; and its two
  tables are the roots of the first primes the standard defines them by, to the last bit.
\<close>

theorem sha256_is_fips:
  "sha256_words data = fips_sha256 data
   \<and> list_all2 (root_bits 3) first_primes K256 \<and> list_all2 (root_bits 2) (take 8 first_primes) H256"
proof -
  let ?m = "fips_pad data" let ?n = "length ?m div 64"
  have len: "length ?m = ?n * 64" using div_mult_mod_eq [of "length ?m" 64] length_sha_pad [of data]
    by (simp only: sha_pad_fips add_0_right)
  then have "chunks 64 ?m = map (\<lambda>i. take 64 (drop (64 * i) ?m)) [0..<?n]"
    by (rule chunks_nth) simp
  moreover have "64 * ?n \<le> length ?m" using len by simp
  ultimately have "sha256_words data = fips_sha256 data"
    by (simp add: sha256_words_def fips_sha256_def sha_pad_fips fips_H_fold)
  then show ?thesis using K256_roots H256_roots by blast
qed

end
