(* ===== verification/World.thy ===== *)
theory World
  imports Sha256
begin

text \<open>
  What the broker relies on and does not contain: the kernel, the disk, the network, the
  entropy source, and the Unicode tables of Rust's standard library. They are the fields of
  a record of functions, an argument of every definition that uses them. Calls whose answer
  may change over time take and return a world of an arbitrary type \<open>'w\<close>. Nothing is assumed
  of these functions here; a theorem that needs documented behaviour names it as a hypothesis.
\<close>

text \<open>\<open>os.rs\<close>: identity and resource policy of an exec child.\<close>

record sandbox_policy =
  drop_uid :: "u32 option"
  drop_gid :: "u32 option"
  rlimit_nproc :: "u64 option"
  rlimit_fsize_bytes :: "u64 option"
  rlimit_cpu_secs :: "u64 option"

definition default_limits :: sandbox_policy where
  "default_limits = \<lparr>drop_uid = None, drop_gid = None, rlimit_nproc = Some 256,
     rlimit_fsize_bytes = Some (256 * 1024 * 1024), rlimit_cpu_secs = Some 60\<rparr>"

text \<open>\<open>std::net::IpAddr\<close>: four octets, or eight 16-bit segments.\<close>

datatype ip_addr =
    V4 byte byte byte byte
  | V6 u16 u16 u16 u16 u16 u16 u16 u16

record sock_addr =
  sa_ip :: ip_addr
  sa_port :: u16

text \<open>
  Where a durable audit write can fail: while the log line is appended (after some bytes), at
  its flush or sync, while the temporary anchor is created, written or synced, at the rename,
  or at the sync of the directory after the rename.
\<close>

datatype io_fault =
    NoFault | LogWrite nat | LogSync | TmpFile | Rename | DirSync

text \<open>The two files of the durable audit.\<close>

datatype audit_file = LogFile | AnchorFile

text \<open>
  The environment. \<open>os_random i n\<close> is the \<open>i\<close>-th draw of \<open>n\<close> bytes from \<open>/dev/urandom\<close>
  (\<^const>\<open>None\<close>: the device cannot be read, and \<open>rand_hex\<close> panics). An \<open>Inl\<close> carries
  the \<open>Display\<close> text of the \<open>io::Error\<close>. Descriptors are numbers. The audit files are part of the
  modelled state; \<open>os_audit_read\<close> and \<open>os_audit_open\<close> say whether reading an existing one, or
  opening the log for appending, fails.
\<close>

record 'w env =
  os_random :: "nat \<Rightarrow> nat \<Rightarrow> byte list option"
  os_open :: "string \<Rightarrow> 'w \<Rightarrow> (string + nat) \<times> 'w"
  os_openat2 :: "nat \<Rightarrow> string \<Rightarrow> u64 \<Rightarrow> u64 \<Rightarrow> 'w \<Rightarrow> int \<times> 'w"
  os_read_to_end :: "nat \<Rightarrow> 'w \<Rightarrow> (string + byte list) \<times> 'w"
  os_getdents :: "nat \<Rightarrow> nat \<Rightarrow> 'w \<Rightarrow> (int \<times> byte list) \<times> 'w"
  os_command :: "string list \<Rightarrow> (string \<times> string) list \<Rightarrow> nat \<Rightarrow> sandbox_policy \<Rightarrow> 'w
                   \<Rightarrow> (string + byte list) \<times> 'w"
  os_canonicalize :: "string \<Rightarrow> 'w \<Rightarrow> (string + string) \<times> 'w"
  os_audit_read :: "audit_file \<Rightarrow> 'w \<Rightarrow> string option \<times> 'w"
  os_audit_open :: "'w \<Rightarrow> string option \<times> 'w"
  os_audit_fault :: "'w \<Rightarrow> io_fault \<times> 'w"
  net_resolve :: "string \<Rightarrow> u16 \<Rightarrow> 'w \<Rightarrow> (string + sock_addr list) \<times> 'w"
  net_connect :: "sock_addr \<Rightarrow> 'w \<Rightarrow> (string + nat) \<times> 'w"
  net_write :: "nat \<Rightarrow> byte list \<Rightarrow> 'w \<Rightarrow> (string + unit) \<times> 'w"
  net_read :: "nat \<Rightarrow> nat \<Rightarrow> 'w \<Rightarrow> (string + byte list) \<times> 'w"
  uni_escaped :: "nat \<Rightarrow> bool"
  uni_upper :: "nat \<Rightarrow> nat list"

text \<open>
  One concrete environment, for evaluating the model: distinct draws, an empty file system, no
  network, no failing write.
\<close>

definition quiet_env :: "unit env" where
  "quiet_env = \<lparr>
     os_random = (\<lambda>i n. Some (replicate (n - 1) 0 @ [word_of_nat i])),
     os_open = (\<lambda>p w. (Inr 3, w)),
     os_openat2 = (\<lambda>fd p f r w. (4, w)),
     os_read_to_end = (\<lambda>fd w. (Inr [], w)),
     os_getdents = (\<lambda>fd n w. ((0, []), w)),
     os_command = (\<lambda>argv vars fd p w. (Inr [], w)),
     os_canonicalize = (\<lambda>p w. (Inr p, w)),
     os_audit_read = (\<lambda>f w. (None, w)),
     os_audit_open = (\<lambda>w. (None, w)),
     os_audit_fault = (\<lambda>w. (NoFault, w)),
     net_resolve = (\<lambda>h p w. (Inr [], w)),
     net_connect = (\<lambda>a w. (Inl ''refused'', w)),
     net_write = (\<lambda>fd b w. (Inr (), w)),
     net_read = (\<lambda>fd n w. (Inr [], w)),
     uni_escaped = (\<lambda>c. False),
     uni_upper = (\<lambda>c. [c])\<rparr>"

end
