(* ===== verification/Os.thy ===== *)
theory Os
  imports World "HOL-Library.Char_ord" "HOL-Library.List_Lexorder"
begin

text \<open>
  \<open>os.rs\<close>, file access: every path is resolved by \<open>openat2\<close> below a directory descriptor the
  broker holds, with \<open>RESOLVE_BENEATH\<close>; a kernel without the call is refused. Directory
  entries are parsed out of the \<open>getdents64\<close> buffer with every record bounds-checked.
\<close>

unbundle bit_operations_syntax

definition O_RDONLY :: u64 where "O_RDONLY = 0"
definition O_DIRECTORY :: u64 where "O_DIRECTORY = 0x10000"
definition O_PATH :: u64 where "O_PATH = 0x200000"
definition O_CLOEXEC :: u64 where "O_CLOEXEC = 0x80000"
definition RESOLVE_BENEATH :: u64 where "RESOLVE_BENEATH = 0x08"
definition RESOLVE_NO_MAGICLINKS :: u64 where "RESOLVE_NO_MAGICLINKS = 0x02"
definition ENOSYS :: int where "ENOSYS = 38"

datatype os_error =
    OpenDirFailed string string
  | Openat2Denied string int
  | Openat2Unavailable string
  | ReadFailed string
  | GetdentsErrno int
  | GetdentsTruncated
  | GetdentsMalformed

definition os_error_text :: "os_error \<Rightarrow> string" where
  "os_error_text e = (case e of
     OpenDirFailed path m \<Rightarrow> (U [0x6253, 0x5F00, 0x76EE, 0x5F55] @ '' '') @ path
       @ ('' '' @ U [0x5931, 0x8D25] @ '': '') @ m
   | Openat2Denied rel n \<Rightarrow> (''openat2 '' @ U [0x62D2, 0x7EDD] @ '' '') @ rel
     @ ''(errno='' @ show_int n @ ('','' @ U [0x8D8A, 0x754C] @ ''/'' @ U [0x4E0D, 0x5B58,
       0x5728] @ '')'')
   | Openat2Unavailable rel \<Rightarrow>
       (''openat2 '' @ U [0x4E0D, 0x53EF, 0x7528] @ '',fail-closed '' @ U [0x62D2, 0x7EDD]
         @ '' '') @ rel @ (''('' @ U [0x975E] @ '' x86_64-linux '' @ U [0x6216, 0x5185, 0x6838,
           0x8FC7, 0x65E7] @ '')'')
   | ReadFailed m \<Rightarrow> ''read failed: '' @ m
   | GetdentsErrno n \<Rightarrow> ''getdents64 errno='' @ show_int n
   | GetdentsTruncated \<Rightarrow> (''getdents64 '' @ U [0x8BB0, 0x5F55, 0x622A, 0x65AD]
     @ ''('' @ U [0x5934, 0x90E8, 0x8D8A, 0x754C] @ '')'')
   | GetdentsMalformed \<Rightarrow> (''getdents64 '' @ U [0x8BB0, 0x5F55, 0x7578, 0x5F62]
     @ ''(reclen '' @ U [0x975E, 0x6CD5] @ '')''))"

section \<open>openat2\<close>

datatype resolve_err = Unavailable | Denied os_error

definition openat2_at :: "'w env \<Rightarrow> nat \<Rightarrow> string \<Rightarrow> u64 \<Rightarrow> 'w \<Rightarrow> (resolve_err + nat) \<times> 'w" where
  "openat2_at E dir_fd rel0 extra_flags w =
     (let rel = (if rel0 = [] then ''.'' else rel0);
          cpath = rel @ [CHR 0x00];
          (ret, w') = os_openat2 E dir_fd cpath (extra_flags OR O_CLOEXEC)
                        (RESOLVE_BENEATH OR RESOLVE_NO_MAGICLINKS) w
      in if 0 \<le> ret then (Inr (nat ret), w')
         else if - ret = ENOSYS then (Inl Unavailable, w')
         else (Inl (Denied (Openat2Denied rel (- ret))), w'))"

definition open_dir_fd :: "'w env \<Rightarrow> string \<Rightarrow> 'w \<Rightarrow> (os_error + nat) \<times> 'w" where
  "open_dir_fd E path w =
     (case os_open E path w of
        (Inl m, w') \<Rightarrow> (Inl (OpenDirFailed path m), w')
      | (Inr fd, w') \<Rightarrow> (Inr fd, w'))"

definition read_at :: "'w env \<Rightarrow> nat \<Rightarrow> string \<Rightarrow> 'w \<Rightarrow> (os_error + byte list) \<times> 'w" where
  "read_at E dir_fd rel w =
     (case openat2_at E dir_fd rel O_RDONLY w of
        (Inr fd, w1) \<Rightarrow>
          (case os_read_to_end E fd w1 of
             (Inl m, w2) \<Rightarrow> (Inl (ReadFailed m), w2)
           | (Inr buf, w2) \<Rightarrow> (Inr buf, w2))
      | (Inl (Denied m), w1) \<Rightarrow> (Inl m, w1)
      | (Inl Unavailable, w1) \<Rightarrow> (Inl (Openat2Unavailable rel), w1))"

definition derive_dir_at :: "'w env \<Rightarrow> nat \<Rightarrow> string \<Rightarrow> 'w \<Rightarrow> (os_error + nat) \<times> 'w" where
  "derive_dir_at E parent_fd seg w =
     (case openat2_at E parent_fd seg (O_PATH OR O_DIRECTORY) w of
        (Inr fd, w1) \<Rightarrow> (Inr fd, w1)
      | (Inl (Denied m), w1) \<Rightarrow> (Inl m, w1)
      | (Inl Unavailable, w1) \<Rightarrow> (Inl (Openat2Unavailable seg), w1))"

section \<open>Directory entries\<close>

text \<open>
  One pass over the first \<open>end\<close> bytes of the buffer: \<open>while off < end\<close>. A record has a
  19-byte header whose bytes 16 and 17 are its length, little-endian; the name runs to the
  first zero byte. An index outside the buffer panics.
\<close>

function parse_dirents :: "byte list \<Rightarrow> nat \<Rightarrow> nat \<Rightarrow> string list \<Rightarrow> (os_error + string list) option" where
  "parse_dirents buf end off names =
     (if off < end then
        if off + 19 > end then Some (Inl GetdentsTruncated)
        else if length buf \<le> off + 17 then None
        else
          let reclen = unat (buf ! (off + 16)) + 256 * unat (buf ! (off + 17)) in
          if reclen < 19 \<or> off + reclen > end then Some (Inl GetdentsMalformed)
          else if length buf < off + reclen then None
          else
            let name = takeWhile (\<lambda>c. c \<noteq> 0) (take (reclen - 19) (drop (off + 19) buf));
                s = from_utf8_lossy name;
                names' = (if s \<noteq> ''.'' \<and> s \<noteq> ''..'' then names @ [s] else names)
            in parse_dirents buf end (off + reclen) names'
      else Some (Inr names))"
  by pat_completeness auto
termination
  by (relation "measure (\<lambda>(buf, end, off, names). end - off)") auto

declare parse_dirents.simps [simp del]

text \<open>
  The outer loop asks for more until the kernel says 0; a kernel that never does keeps the
  call from returning, which is \<^const>\<open>None\<close>.
\<close>

partial_function (option) getdents_loop ::
    "'w env \<Rightarrow> nat \<Rightarrow> string list \<Rightarrow> 'w \<Rightarrow> ((os_error + string list) \<times> 'w) option" where
  "getdents_loop E fd names w =
     (let r = os_getdents E fd 8192 w; n = fst (fst r); buf = snd (fst r); w' = snd r in
      if n < 0 then Some (Inl (GetdentsErrno (- n)), w')
      else if n = 0 then Some (Inr (sort names), w')
      else (case parse_dirents buf (nat n) 0 names of
              None \<Rightarrow> None
            | Some (Inl e) \<Rightarrow> Some (Inl e, w')
            | Some (Inr names') \<Rightarrow> getdents_loop E fd names' w'))"

definition getdents_names ::
    "'w env \<Rightarrow> nat \<Rightarrow> 'w \<Rightarrow> ((os_error + string list) \<times> 'w) option" where
  "getdents_names E fd w = getdents_loop E fd [] w"

definition list_at ::
    "'w env \<Rightarrow> nat \<Rightarrow> string \<Rightarrow> 'w \<Rightarrow> ((os_error + string list) \<times> 'w) option" where
  "list_at E dir_fd rel w =
     (case openat2_at E dir_fd rel (O_RDONLY OR O_DIRECTORY) w of
        (Inr fd, w1) \<Rightarrow> getdents_names E fd w1
      | (Inl (Denied m), w1) \<Rightarrow> Some (Inl m, w1)
      | (Inl Unavailable, w1) \<Rightarrow> Some (Inl (Openat2Unavailable rel), w1))"

section \<open>Confinement of the file operations\<close>

text \<open>
  Two environments that agree on opening below descriptor \<open>d\<close> with the two resolve flags, and on
  reading and listing the descriptors such an opening gives. They may differ in everything else: in
  plain opens, in openings below another descriptor or with other flags, in reading any other
  descriptor. An operation with the same result in both uses nothing else.
\<close>

definition agree_beneath :: "nat \<Rightarrow> 'w env \<Rightarrow> 'w env \<Rightarrow> bool" where
  "agree_beneath d E E' \<longleftrightarrow>
     (\<forall>p fl w. os_openat2 E' d p fl 0x0A w = os_openat2 E d p fl 0x0A w)
     \<and> (\<forall>p fl w n w1. os_openat2 E d p fl 0x0A w = (n,
       w1) \<longrightarrow> 0 \<le> n \<longrightarrow>
          (\<forall>v. os_read_to_end E' (nat n) v = os_read_to_end E (nat n) v)
          \<and> (\<forall>k v. os_getdents E' (nat n) k v = os_getdents E (nat n) k v))"

lemma resolve_flags: "RESOLVE_BENEATH OR RESOLVE_NO_MAGICLINKS = 0x0A"
  by (simp add: RESOLVE_BENEATH_def RESOLVE_NO_MAGICLINKS_def)

lemma openat2_at_confined: "agree_beneath d E E' \<Longrightarrow> openat2_at E' d rel fl w = openat2_at E d rel fl w"
  by (simp add: openat2_at_def resolve_flags agree_beneath_def)

lemma opened_beneath:
  assumes "agree_beneath d E E'" "openat2_at E d rel fl w = (Inr fd, w1)"
  shows "os_read_to_end E' fd v = os_read_to_end E fd v" "os_getdents E' fd k v = os_getdents E fd k v"
proof -
  obtain p n where "os_openat2 E d p (fl OR O_CLOEXEC) 0x0A w = (n, w1)" "0 \<le> n" "fd = nat n"
    using assms(2) by (auto simp: openat2_at_def resolve_flags Let_def split: prod.splits if_splits)
  then show "os_read_to_end E' fd v = os_read_to_end E fd v" "os_getdents E' fd k v = os_getdents E fd k v"
    using assms(1) unfolding agree_beneath_def by blast+
qed

lemma read_at_confined: "agree_beneath d E E' \<Longrightarrow> read_at E' d rel w = read_at E d rel w"
  using opened_beneath(1) [of d E E' rel O_RDONLY w]
  by (auto simp: read_at_def openat2_at_confined split: prod.splits sum.splits resolve_err.splits)

lemma derive_dir_at_confined: "agree_beneath d E E' \<Longrightarrow> derive_dir_at E' d rel w = derive_dir_at E d rel w"
  by (simp add: derive_dir_at_def openat2_at_confined)

lemma getdents_loop_env:
  assumes env: "\<forall>k v. os_getdents E' fd k v = os_getdents E fd k v"
    and ret: "getdents_loop E fd names w = Some r"
  shows "getdents_loop E' fd names w = Some r"
proof -
  let ?P = "\<lambda>E fd names w r. (\<forall>k v. os_getdents E' fd k v = os_getdents E fd k v) \<longrightarrow>
    getdents_loop E' fd names w = Some r"
  have "?P E fd names w r"
  proof (rule getdents_loop.raw_induct [where P = ?P, OF _ ret])
    fix f and E :: "'a env" and fd names w r
    assume IH: "\<And>E fd names w r. f E fd names w = Some r \<Longrightarrow> ?P E fd names w r"
      and eq: "(let r = os_getdents E fd 8192 w; n = fst (fst r); buf = snd (fst r); w' = snd r in
        if n < 0 then Some (Inl (GetdentsErrno (- n)), w')
        else if n = 0 then Some (Inr (sort names), w')
        else (case parse_dirents buf (nat n) 0 names of
                None \<Rightarrow> None
              | Some (Inl e) \<Rightarrow> Some (Inl e, w')
              | Some (Inr names') \<Rightarrow> f E fd names' w')) = Some r"
    show "?P E fd names w r"
      using eq IH
      by (subst getdents_loop.simps) (auto simp: Let_def split: if_splits option.splits sum.splits)
  qed
  with env show ?thesis by blast
qed

lemma getdents_names_env:
  assumes "\<forall>k v. os_getdents E' fd k v = os_getdents E fd k v"
  shows "getdents_names E' fd w = getdents_names E fd w"
proof (cases "getdents_names E fd w")
  case None
  have "\<forall>k v. os_getdents E fd k v = os_getdents E' fd k v" using assms by simp
  then have "getdents_names E' fd w \<noteq> Some r" for r
    using getdents_loop_env [of E fd E' "[]" w r] None by (auto simp: getdents_names_def)
  with None show ?thesis by (cases "getdents_names E' fd w") auto
next
  case (Some r)
  then show ?thesis using getdents_loop_env [OF assms] by (simp add: getdents_names_def)
qed

lemma list_at_confined:
  assumes "agree_beneath d E E'" shows "list_at E' d rel w = list_at E d rel w"
proof (cases "openat2_at E d rel (O_RDONLY OR O_DIRECTORY) w")
  case (Pair x w1)
  then show ?thesis
  proof (cases x)
    case (Inr fd)
    have "getdents_names E' fd w1 = getdents_names E fd w1"
      using getdents_names_env opened_beneath(2) [OF assms] Pair Inr by metis
    then show ?thesis using Pair Inr by (simp add: list_at_def openat2_at_confined [OF assms])
  qed (simp add: list_at_def openat2_at_confined [OF assms] split: resolve_err.split)
qed

section \<open>Correctness of the entry parser\<close>

lemma parse_dirents_total:
  "end \<le> length buf \<Longrightarrow> parse_dirents buf end off names \<noteq> None"
proof (induction buf "end" off names rule: parse_dirents.induct)
  case (1 buf "end" off names)
  then show ?case
    by (subst parse_dirents.simps) (auto simp: Let_def)
qed

text \<open>One record as the kernel lays it out: inode and offset, length, type, name, zero, padding.\<close>

record dirent =
  d_head :: "byte list"
  d_type :: byte
  d_name :: "byte list"
  d_pad :: "byte list"

definition dirent_len :: "dirent \<Rightarrow> nat" where
  "dirent_len d = 20 + length (d_name d) + length (d_pad d)"

definition dirent_wf :: "dirent \<Rightarrow> bool" where
  "dirent_wf d \<longleftrightarrow> length (d_head d) = 16 \<and> 0 \<notin> set (d_name d) \<and> dirent_len d < 65536"

definition enc_dirent :: "dirent \<Rightarrow> byte list" where
  "enc_dirent d = d_head d @ [word_of_nat (dirent_len d), word_of_nat (dirent_len d div 256)]
     @ d_type d # d_name d @ 0 # d_pad d"

definition visible_names :: "dirent list \<Rightarrow> string list" where
  "visible_names ds =
     filter (\<lambda>s. s \<noteq> ''.'' \<and> s \<noteq> ''..'') (map (\<lambda>d. from_utf8_lossy (d_name d)) ds)"

lemma length_enc_dirent: "dirent_wf d \<Longrightarrow> length (enc_dirent d) = dirent_len d"
  by (simp add: enc_dirent_def dirent_wf_def dirent_len_def)

lemma reclen_bytes:
  assumes "n < 65536"
  shows "unat (word_of_nat n :: byte) + 256 * unat (word_of_nat (n div 256) :: byte) = n"
proof -
  have "unat (word_of_nat n :: byte) = n mod 256"
    and "unat (word_of_nat (n div 256) :: byte) = n div 256"
    using assms by (simp_all add: unat_of_nat)
  then show ?thesis by (simp only: mod_mult_div_eq)
qed

lemma takeWhile_name: "0 \<notin> set (n :: byte list) \<Longrightarrow> takeWhile (\<lambda>c. c \<noteq> 0) (n @ 0 # p) = n"
  by (induction n) auto

lemma parse_dirents_record:
  assumes "unat (buf ! (off + 16)) + 256 * unat (buf ! (off + 17)) = n"
    and "20 \<le> n" "off + n \<le> end" "off + n \<le> length buf"
    and "takeWhile (\<lambda>c. c \<noteq> 0) (take (n - 19) (drop (off + 19) buf)) = nm"
  shows "parse_dirents buf end off names = parse_dirents buf end (off + n)
    (if from_utf8_lossy nm \<noteq> ''.'' \<and> from_utf8_lossy nm \<noteq> ''..''
     then names @ [from_utf8_lossy nm] else names)"
proof -
  have "off < end" "\<not> end < off + 19" "\<not> length buf \<le> off + 17" "\<not> (n < 19 \<or> end < off + n)"
    "\<not> length buf < off + n"
    using assms(2-4) by auto
  then show ?thesis
    by (subst parse_dirents.simps) (simp only: assms(1,5) Let_def if_True if_False)
qed

lemma parse_dirents_step:
  assumes wf: "dirent_wf d"
  shows "parse_dirents (pre @ enc_dirent d @ rest) (length pre + length (enc_dirent d) + k) (length pre) names
       = parse_dirents (pre @ enc_dirent d @ rest) (length pre + length (enc_dirent d) + k)
           (length pre + length (enc_dirent d)) (names @ visible_names [d])"
proof -
  let ?buf = "pre @ enc_dirent d @ rest"
  have lh: "length (d_head d) = 16" and nm: "0 \<notin> set (d_name d)" and lt: "dirent_len d < 65536"
    using wf by (auto simp: dirent_wf_def)
  have len: "length (enc_dirent d) = dirent_len d" using wf by (rule length_enc_dirent)
  have "?buf ! (length pre + 16) = word_of_nat (dirent_len d)"
    and "?buf ! (length pre + 17) = word_of_nat (dirent_len d div 256)"
    using lh by (simp_all add: nth_append enc_dirent_def)
  then have rl: "unat (?buf ! (length pre + 16)) + 256 * unat (?buf ! (length pre + 17)) = dirent_len d"
    using reclen_bytes [OF lt] by simp
  have "drop (length pre + 19) ?buf = d_name d @ 0 # d_pad d @ rest"
    using lh by (simp add: enc_dirent_def)
  then have "take (dirent_len d - 19) (drop (length pre + 19) ?buf) = d_name d @ 0 # d_pad d"
    by (simp add: dirent_len_def)
  then have tw: "takeWhile (\<lambda>c. c \<noteq> 0) (take (dirent_len d - 19) (drop (length pre + 19) ?buf)) = d_name d"
    by (simp only: takeWhile_name [OF nm])
  have "20 \<le> dirent_len d" by (simp add: dirent_len_def)
  then show ?thesis
    using parse_dirents_record [OF rl _ _ _ tw, of "length pre + length (enc_dirent d) + k" names]
    by (simp add: len visible_names_def)
qed

lemma parse_dirents_enc:
  assumes "list_all dirent_wf ds"
  shows "parse_dirents (pre @ concat (map enc_dirent ds) @ rest)
           (length pre + length (concat (map enc_dirent ds))) (length pre) names
         = Some (Inr (names @ visible_names ds))"
  using assms
proof (induction ds arbitrary: pre names)
  case Nil
  show ?case by (subst parse_dirents.simps) (simp add: visible_names_def)
next
  case (Cons d ds)
  have "parse_dirents (pre @ enc_dirent d @ concat (map enc_dirent ds) @ rest)
          (length pre + length (enc_dirent d) + length (concat (map enc_dirent ds))) (length pre) names
      = Some (Inr (names @ visible_names [d] @ visible_names ds))"
    using Cons.IH [of "pre @ enc_dirent d" "names @ visible_names [d]"] Cons.prems
    by (subst parse_dirents_step) (auto simp: add.assoc)
  then show ?case by (simp add: visible_names_def add.assoc)
qed

lemma getdents_loop_sorted:
  "getdents_loop E fd names w = Some r \<Longrightarrow> (\<forall>ns. fst r = Inr ns \<longrightarrow> sorted ns)"
  by (rule getdents_loop.raw_induct [where P = "\<lambda>E fd names w r. \<forall>ns. fst r = Inr ns \<longrightarrow> sorted ns"])
    (auto simp: Let_def split: if_splits option.splits sum.splits)

end
