(* ===== verification/Sandbox.thy ===== *)
theory Sandbox
  imports World
begin

text \<open>
  \<open>os.rs\<close>, module \<open>sandbox\<close>: what a child does between \<open>fork\<close> and \<open>execve\<close>. The seccomp
  filter is the program the source installs, run by the classic-BPF rules the kernel documents
  for the three instructions it uses; \<open>sandbox_apply\<close> is the sequence of system calls, each
  failure ending it with an error. The kernel is a parameter. The lemmas give the verdict of the
  filter on every architecture and system call number, and show that the sequence returns
  success only when every restriction has been put in place.
\<close>

unbundle bit_operations_syntax

section \<open>The seccomp filter\<close>

record sock_filter =
  sf_code :: u16
  sf_jt :: byte
  sf_jf :: byte
  sf_k :: u32

definition sf :: "u16 \<Rightarrow> byte \<Rightarrow> byte \<Rightarrow> u32 \<Rightarrow> sock_filter" where
  "sf c t f k = \<lparr>sf_code = c, sf_jt = t, sf_jf = f, sf_k = k\<rparr>"

definition AUDIT_ARCH_X86_64 :: u32 where "AUDIT_ARCH_X86_64 = 0xC000003E"
definition BPF_LD_W_ABS :: u16 where "BPF_LD_W_ABS = 0x20"
definition BPF_JEQ_K :: u16 where "BPF_JEQ_K = 0x15"
definition BPF_RET_K :: u16 where "BPF_RET_K = 0x06"
definition SECCOMP_RET_ALLOW :: u32 where "SECCOMP_RET_ALLOW = 0x7fff0000"
definition SECCOMP_RET_ERRNO :: u32 where "SECCOMP_RET_ERRNO = 0x00050000"
definition SECCOMP_RET_KILL :: u32 where "SECCOMP_RET_KILL = 0x80000000"
definition EACCES :: u32 where "EACCES = 13"

text \<open>The program of \<open>install_seccomp_deny\<close>, line by line.\<close>

definition seccomp_prog :: "sock_filter list" where
  "seccomp_prog = (let errno = SECCOMP_RET_ERRNO OR EACCES in [
     sf BPF_LD_W_ABS 0 0 4,
     sf BPF_JEQ_K 1 0 AUDIT_ARCH_X86_64,
     sf BPF_RET_K 0 0 SECCOMP_RET_KILL,
     sf BPF_LD_W_ABS 0 0 0,
     sf BPF_JEQ_K 0 1 41, sf BPF_RET_K 0 0 errno,
     sf BPF_JEQ_K 0 1 42, sf BPF_RET_K 0 0 errno,
     sf BPF_JEQ_K 0 1 43, sf BPF_RET_K 0 0 errno,
     sf BPF_JEQ_K 0 1 44, sf BPF_RET_K 0 0 errno,
     sf BPF_JEQ_K 0 1 45, sf BPF_RET_K 0 0 errno,
     sf BPF_JEQ_K 0 1 46, sf BPF_RET_K 0 0 errno,
     sf BPF_JEQ_K 0 1 47, sf BPF_RET_K 0 0 errno,
     sf BPF_JEQ_K 0 1 49, sf BPF_RET_K 0 0 errno,
     sf BPF_JEQ_K 0 1 50, sf BPF_RET_K 0 0 errno,
     sf BPF_JEQ_K 0 1 53, sf BPF_RET_K 0 0 errno,
     sf BPF_JEQ_K 0 1 288, sf BPF_RET_K 0 0 errno,
     sf BPF_JEQ_K 0 1 425, sf BPF_RET_K 0 0 errno,
     sf BPF_JEQ_K 0 1 426, sf BPF_RET_K 0 0 errno,
     sf BPF_JEQ_K 0 1 427, sf BPF_RET_K 0 0 errno,
     sf BPF_JEQ_K 0 1 101, sf BPF_RET_K 0 0 errno,
     sf BPF_JEQ_K 0 1 310, sf BPF_RET_K 0 0 errno,
     sf BPF_JEQ_K 0 1 311, sf BPF_RET_K 0 0 errno,
     sf BPF_JEQ_K 0 1 312, sf BPF_RET_K 0 0 errno,
     sf BPF_JEQ_K 0 1 424, sf BPF_RET_K 0 0 errno,
     sf BPF_JEQ_K 0 1 434, sf BPF_RET_K 0 0 errno,
     sf BPF_JEQ_K 0 1 438, sf BPF_RET_K 0 0 errno,
     sf BPF_RET_K 0 0 SECCOMP_RET_ALLOW])"

text \<open>
  Classic BPF on the \<open>seccomp_data\<close> of a call: offset 0 holds the call number and offset 4 the
  architecture. Jumps go forward only, so the rest of the program is the argument.
\<close>

function bpf_run :: "u32 \<Rightarrow> u32 \<Rightarrow> sock_filter list \<Rightarrow> u32 \<Rightarrow> u32 option" where
  "bpf_run arch nr [] a = None"
| "bpf_run arch nr (i # rest) a =
     (if sf_code i = BPF_LD_W_ABS then
        (if sf_k i = 0 then bpf_run arch nr rest nr
         else if sf_k i = 4 then bpf_run arch nr rest arch else None)
      else if sf_code i = BPF_JEQ_K then
        bpf_run arch nr (drop (unat (if a = sf_k i then sf_jt i else sf_jf i)) rest) a
      else if sf_code i = BPF_RET_K then Some (sf_k i)
      else None)"
  by pat_completeness auto
termination by (relation "measure (\<lambda>(arch, nr, p, a). length p)") auto

definition seccomp_verdict :: "u32 \<Rightarrow> u32 \<Rightarrow> u32 option" where
  "seccomp_verdict arch nr = bpf_run arch nr seccomp_prog 0"

text \<open>
  The calls the comment of the source lists: the socket family, \<open>io_uring\<close>, and the calls that
  inspect or steer another process.
\<close>

definition denied_syscalls :: "u32 list" where
  "denied_syscalls = [41, 42, 43, 44, 45, 46, 47, 49, 50, 53, 288, 425, 426, 427,
     101, 310, 311, 312, 424, 434, 438]"

definition deny_pair :: "u32 \<Rightarrow> sock_filter list" where
  "deny_pair n = [sf BPF_JEQ_K 0 1 n, sf BPF_RET_K 0 0 (SECCOMP_RET_ERRNO OR EACCES)]"

lemmas bpf_codes = sf_def BPF_LD_W_ABS_def BPF_JEQ_K_def BPF_RET_K_def

lemma seccomp_prog_shape:
  "seccomp_prog = [sf BPF_LD_W_ABS 0 0 4, sf BPF_JEQ_K 1 0 AUDIT_ARCH_X86_64,
      sf BPF_RET_K 0 0 SECCOMP_RET_KILL, sf BPF_LD_W_ABS 0 0 0]
     @ concat (map deny_pair denied_syscalls) @ [sf BPF_RET_K 0 0 SECCOMP_RET_ALLOW]"
  by (simp add: seccomp_prog_def denied_syscalls_def deny_pair_def Let_def)

lemma bpf_run_deny_pairs:
  "bpf_run arch nr (concat (map deny_pair ns) @ rest) nr
   = (if nr \<in> set ns then Some (SECCOMP_RET_ERRNO OR EACCES) else bpf_run arch nr rest nr)"
  by (induction ns) (auto simp: deny_pair_def bpf_codes)

lemma seccomp_verdict_eq:
  "seccomp_verdict arch nr =
     Some (if arch \<noteq> AUDIT_ARCH_X86_64 then SECCOMP_RET_KILL
           else if nr \<in> set denied_syscalls then SECCOMP_RET_ERRNO OR EACCES
           else SECCOMP_RET_ALLOW)"
  unfolding seccomp_verdict_def seccomp_prog_shape
  by (simp add: bpf_codes bpf_run_deny_pairs)

section \<open>The sequence of system calls\<close>

definition FS_RO :: u64 where "FS_RO = 4 OR 8 OR 1"
definition FS_V1_ALL :: u64 where "FS_V1_ALL = 0x1FFF"

definition RLIMIT_CPU :: nat where "RLIMIT_CPU = 0"
definition RLIMIT_FSIZE :: nat where "RLIMIT_FSIZE = 1"
definition RLIMIT_NPROC :: nat where "RLIMIT_NPROC = 6"

datatype syscall =
    PrctlNoNewPrivs
  | Setrlimit nat u64
  | LandlockCreateRuleset u64
  | LandlockAddPathBeneath int int u64
  | OpenPathDir string
  | Close int
  | LandlockRestrictSelf int
  | Fchdir nat
  | CloseRangeCloexec nat nat
  | PrctlSeccompFilter "sock_filter list"
  | SetgroupsNone
  | Setgid u32
  | Setuid u32

datatype sandbox_err = RawOsError int | PermissionDenied

type_synonym 'k kernel = "syscall \<Rightarrow> 'k \<Rightarrow> int \<times> 'k"

definition oserr :: "int \<Rightarrow> sandbox_err" where
  "oserr e = RawOsError (if e < 0 then - e else 1)"

definition perm :: "int \<Rightarrow> sandbox_err" where
  "perm e = PermissionDenied"

definition seq_ok ::
    "('k \<Rightarrow> ('e + 'a) \<times> 'k) \<Rightarrow> ('a \<Rightarrow> 'k \<Rightarrow> ('e + 'b) \<times> 'k) \<Rightarrow> 'k \<Rightarrow> ('e + 'b) \<times> 'k" where
  "seq_ok m f w = (case m w of (Inl e, w') \<Rightarrow> (Inl e, w') | (Inr v, w') \<Rightarrow> f v w')"

text \<open>A call that has to return 0, and one that has to return a descriptor.\<close>

definition must :: "'k kernel \<Rightarrow> syscall \<Rightarrow> (int \<Rightarrow> sandbox_err) \<Rightarrow> 'k \<Rightarrow> (sandbox_err + unit) \<times> 'k" where
  "must k c ef w = (case k c w of (r, w') \<Rightarrow> (if r = 0 then Inr () else Inl (ef r), w'))"

definition must_fd :: "'k kernel \<Rightarrow> syscall \<Rightarrow> (int \<Rightarrow> sandbox_err) \<Rightarrow> 'k \<Rightarrow> (sandbox_err + int) \<times> 'k" where
  "must_fd k c ef w = (case k c w of (r, w') \<Rightarrow> (if r < 0 then Inl (ef r) else Inr r, w'))"

definition limit_if :: "'k kernel \<Rightarrow> nat \<Rightarrow> u64 option \<Rightarrow> 'k \<Rightarrow> (sandbox_err + unit) \<times> 'k" where
  "limit_if k res lim w =
     (case lim of None \<Rightarrow> (Inr (), w) | Some n \<Rightarrow> must k (Setrlimit res n) perm w)"

text \<open>The read-only system directories: a missing one is skipped, a rule that fails ends it.\<close>

fun add_sys_dirs :: "'k kernel \<Rightarrow> int \<Rightarrow> string list \<Rightarrow> 'k \<Rightarrow> (sandbox_err + unit) \<times> 'k" where
  "add_sys_dirs k rs [] w = (Inr (), w)"
| "add_sys_dirs k rs (p # ps) w =
     (case k (OpenPathDir p) w of (fd, w1) \<Rightarrow>
        if 0 \<le> fd then
          (case k (LandlockAddPathBeneath rs fd FS_RO) w1 of (r, w2) \<Rightarrow>
             (case k (Close fd) w2 of (_, w3) \<Rightarrow>
                if r = 0 then add_sys_dirs k rs ps w3 else (Inl PermissionDenied, w3)))
        else add_sys_dirs k rs ps w1)"

definition sys_dirs :: "string list" where
  "sys_dirs = [''/usr'', ''/bin'', ''/lib'', ''/lib64'']"

definition drop_privs :: "'k kernel \<Rightarrow> sandbox_policy \<Rightarrow> 'k \<Rightarrow> (sandbox_err + unit) \<times> 'k" where
  "drop_privs k pol =
     seq_ok (\<lambda>w. if drop_gid pol \<noteq> None \<or> drop_uid pol \<noteq> None
                 then must k SetgroupsNone perm w else (Inr (), w)) (\<lambda>_.
     seq_ok (\<lambda>w. case drop_gid pol of None \<Rightarrow> (Inr (), w) | Some g \<Rightarrow> must k (Setgid g) perm w) (\<lambda>_.
     (\<lambda>w. case drop_uid pol of None \<Rightarrow> (Inr (), w) | Some u \<Rightarrow> must k (Setuid u) perm w)))"

definition sandbox_apply :: "'k kernel \<Rightarrow> nat \<Rightarrow> sandbox_policy \<Rightarrow> 'k \<Rightarrow> (sandbox_err + unit) \<times> 'k" where
  "sandbox_apply k cwd_fd pol =
     seq_ok (must k PrctlNoNewPrivs oserr) (\<lambda>_.
     seq_ok (limit_if k RLIMIT_NPROC (rlimit_nproc pol)) (\<lambda>_.
     seq_ok (limit_if k RLIMIT_FSIZE (rlimit_fsize_bytes pol)) (\<lambda>_.
     seq_ok (limit_if k RLIMIT_CPU (rlimit_cpu_secs pol)) (\<lambda>_.
     seq_ok (must_fd k (LandlockCreateRuleset FS_V1_ALL) oserr) (\<lambda>rs.
     seq_ok (must k (LandlockAddPathBeneath rs (int cwd_fd) FS_RO) perm) (\<lambda>_.
     seq_ok (add_sys_dirs k rs sys_dirs) (\<lambda>_.
     seq_ok (must k (LandlockRestrictSelf rs) perm) (\<lambda>_.
     seq_ok (\<lambda>w. case k (Close rs) w of (_, w') \<Rightarrow> (Inr (), w')) (\<lambda>_.
     seq_ok (must k (Fchdir cwd_fd) oserr) (\<lambda>_.
     seq_ok (must k (CloseRangeCloexec 3 0xffffffff) oserr) (\<lambda>_.
     seq_ok (must k (PrctlSeccompFilter seccomp_prog) perm) (\<lambda>_.
     drop_privs k pol))))))))))))"

section \<open>What success means\<close>

text \<open>
  A kernel that answers from the history of the calls made so far and records each call with
  its answer: every behaviour of a kernel, with its trace.
\<close>

type_synonym trace = "(syscall \<times> int) list"

definition tracing :: "(trace \<Rightarrow> syscall \<Rightarrow> int) \<Rightarrow> trace kernel" where
  "tracing f c h = (f h c, h @ [(c, f h c)])"

text \<open>A run that starts with trace \<open>h\<close> and ends well with \<open>h'\<close> has added calls of kind \<open>P\<close>.\<close>

definition adds :: "(trace \<Rightarrow> bool) \<Rightarrow> (trace \<Rightarrow> ('e + 'a) \<times> trace) \<Rightarrow> bool" where
  "adds P m \<longleftrightarrow> (\<forall>h v h'. m h = (Inr v, h') \<longrightarrow> (\<exists>t. h' = h @ t \<and> P t))"

lemma addsD: "adds P m \<Longrightarrow> m h = (Inr v, h') \<Longrightarrow> \<exists>t. h' = h @ t \<and> P t"
  by (auto simp: adds_def)

lemma seq_ok_Inr:
  "seq_ok m f w = (Inr v, w') \<longleftrightarrow> (\<exists>x w1. m w = (Inr x, w1) \<and> f x w1 = (Inr v, w'))"
  by (auto simp: seq_ok_def split: prod.splits sum.splits)

lemma must_tracing_Inr:
  "must (tracing f) c ef h = (Inr v, h') \<longleftrightarrow> f h c = 0 \<and> h' = h @ [(c, 0)]"
  by (auto simp: must_def tracing_def)

lemma must_fd_tracing_Inr:
  "must_fd (tracing f) c ef h = (Inr v, h') \<longleftrightarrow> f h c = v \<and> 0 \<le> v \<and> h' = h @ [(c, v)]"
  by (auto simp: must_fd_def tracing_def)

lemma limit_if_Inr:
  "limit_if (tracing f) res lim h = (Inr v, h') \<Longrightarrow>
     h' = h @ (case lim of None \<Rightarrow> [] | Some n \<Rightarrow> [(Setrlimit res n, 0)])"
  by (auto simp: limit_if_def must_tracing_Inr split: option.splits)

text \<open>
  What the sequence does for a list of directories: each is opened in turn; one that cannot be opened
  is skipped; for one that can, the rule is added for that very descriptor and answered 0, and the
  descriptor is closed.
\<close>

fun sys_dir_trace :: "int \<Rightarrow> string list \<Rightarrow> trace \<Rightarrow> bool" where
  "sys_dir_trace rs [] t \<longleftrightarrow> t = []"
| "sys_dir_trace rs (p # ps) t \<longleftrightarrow> (\<exists>fd u. t = (OpenPathDir p, fd) # u
     \<and> (if fd < 0 then sys_dir_trace rs ps u
        else \<exists>c v. u = (LandlockAddPathBeneath rs fd FS_RO, 0) # (Close fd, c) # v \<and> sys_dir_trace rs ps v))"

lemma tracing_eq: "tracing f = (\<lambda>c h. (f h c, h @ [(c, f h c)]))"
  by (intro ext) (simp add: tracing_def)

lemma add_sys_dirs_trace:
  "add_sys_dirs (tracing f) rs ps h = (Inr v, h') \<Longrightarrow> \<exists>t. h' = h @ t \<and> sys_dir_trace rs ps t"
proof (induction ps arbitrary: h)
  case (Cons p ps)
  let ?fd = "f h (OpenPathDir p)"
  let ?h1 = "h @ [(OpenPathDir p, ?fd)]"
  let ?r = "f ?h1 (LandlockAddPathBeneath rs ?fd FS_RO)"
  let ?h2 = "?h1 @ [(LandlockAddPathBeneath rs ?fd FS_RO, ?r)]"
  let ?c = "f ?h2 (Close ?fd)"
  let ?h3 = "?h2 @ [(Close ?fd, ?c)]"
  show ?case
  proof (cases "0 \<le> ?fd")
    case True
    with Cons.prems have r: "?r = 0" and "add_sys_dirs (tracing f) rs ps ?h3 = (Inr v, h')"
      by (auto simp: tracing_eq split: if_splits)
    with Cons.IH [of ?h3] obtain t where "h' = ?h3 @ t" "sys_dir_trace rs ps t" by blast
    then show ?thesis using True r
      by (intro exI [of _ "(OpenPathDir p, ?fd) # (LandlockAddPathBeneath rs ?fd FS_RO, 0) # (Close ?fd, ?c) # t"]) simp
  next
    case False
    with Cons.prems have "add_sys_dirs (tracing f) rs ps ?h1 = (Inr v, h')"
      by (auto simp: tracing_eq)
    with Cons.IH [of ?h1] obtain t where "h' = ?h1 @ t" "sys_dir_trace rs ps t" by blast
    then show ?thesis using False by (intro exI [of _ "(OpenPathDir p, ?fd) # t"]) simp
  qed
qed simp

lemma drop_privs_trace:
  "drop_privs (tracing f) pol h = (Inr v, h') \<Longrightarrow>
     h' = h @ (if drop_gid pol \<noteq> None \<or> drop_uid pol \<noteq> None then [(SetgroupsNone, 0)] else [])
            @ (case drop_gid pol of None \<Rightarrow> [] | Some g \<Rightarrow> [(Setgid g, 0)])
            @ (case drop_uid pol of None \<Rightarrow> [] | Some u \<Rightarrow> [(Setuid u, 0)])"
  unfolding drop_privs_def
  by (auto simp: seq_ok_Inr must_tracing_Inr split: option.splits if_splits)

definition limit_calls :: "sandbox_policy \<Rightarrow> trace" where
  "limit_calls pol =
     (case rlimit_nproc pol of None \<Rightarrow> [] | Some n \<Rightarrow> [(Setrlimit RLIMIT_NPROC n, 0)])
     @ (case rlimit_fsize_bytes pol of None \<Rightarrow> [] | Some n \<Rightarrow> [(Setrlimit RLIMIT_FSIZE n, 0)])
     @ (case rlimit_cpu_secs pol of None \<Rightarrow> [] | Some n \<Rightarrow> [(Setrlimit RLIMIT_CPU n, 0)])"

definition privs_calls :: "sandbox_policy \<Rightarrow> trace" where
  "privs_calls pol =
     (if drop_gid pol \<noteq> None \<or> drop_uid pol \<noteq> None then [(SetgroupsNone, 0)] else [])
     @ (case drop_gid pol of None \<Rightarrow> [] | Some g \<Rightarrow> [(Setgid g, 0)])
     @ (case drop_uid pol of None \<Rightarrow> [] | Some u \<Rightarrow> [(Setuid u, 0)])"

text \<open>
  The trace of a sandbox that was applied: every restriction, in order. All answers are 0 but those
  of the calls that give a descriptor, and those of closing one, which the code does not look at.
\<close>

definition sandbox_trace :: "nat \<Rightarrow> sandbox_policy \<Rightarrow> trace \<Rightarrow> bool" where
  "sandbox_trace cwd_fd pol h \<longleftrightarrow> (\<exists>rs c dirs.
     0 \<le> rs \<and> sys_dir_trace rs sys_dirs dirs \<and>
     h = (PrctlNoNewPrivs, 0) # limit_calls pol
       @ [(LandlockCreateRuleset FS_V1_ALL, rs), (LandlockAddPathBeneath rs (int cwd_fd) FS_RO, 0)]
       @ dirs @ [(LandlockRestrictSelf rs, 0), (Close rs, c), (Fchdir cwd_fd, 0),
         (CloseRangeCloexec 3 0xffffffff, 0), (PrctlSeccompFilter seccomp_prog, 0)]
       @ privs_calls pol)"

lemma sandbox_apply_sequence:
  assumes "sandbox_apply (tracing f) cwd_fd pol [] = (Inr v, h)"
  shows "sandbox_trace cwd_fd pol h"
proof -
  from assms obtain h1 h2 h3 rs dirs h4
    where l1: "limit_if (tracing f) RLIMIT_NPROC (rlimit_nproc pol) [(PrctlNoNewPrivs, 0)] = (Inr (), h1)"
      and l2: "limit_if (tracing f) RLIMIT_FSIZE (rlimit_fsize_bytes pol) h1 = (Inr (), h2)"
      and l3: "limit_if (tracing f) RLIMIT_CPU (rlimit_cpu_secs pol) h2 = (Inr (), h3)"
      and rs: "0 \<le> rs"
      and ds: "add_sys_dirs (tracing f) rs sys_dirs
          (h3 @ [(LandlockCreateRuleset FS_V1_ALL, rs), (LandlockAddPathBeneath rs (int cwd_fd) FS_RO, 0)])
          = (Inr (), dirs)"
      and dp: "drop_privs (tracing f) pol
          (dirs @ [(LandlockRestrictSelf rs, 0), (Close rs, f (dirs @ [(LandlockRestrictSelf rs, 0)]) (Close rs)),
             (Fchdir cwd_fd, 0), (CloseRangeCloexec 3 0xffffffff, 0),
               (PrctlSeccompFilter seccomp_prog, 0)])
          = (Inr v, h)"
    unfolding sandbox_apply_def
    by (auto simp: seq_ok_Inr must_tracing_Inr must_fd_tracing_Inr tracing_def [of f "Close _"])
  have h3: "h3 = (PrctlNoNewPrivs, 0) # limit_calls pol"
    using limit_if_Inr [OF l1] limit_if_Inr [OF l2] limit_if_Inr [OF l3] by (simp add: limit_calls_def)
  obtain t where "dirs = h3 @ [(LandlockCreateRuleset FS_V1_ALL, rs),
      (LandlockAddPathBeneath rs (int cwd_fd) FS_RO, 0)] @ t" and "sys_dir_trace rs sys_dirs t"
    using add_sys_dirs_trace [OF ds] by auto
  with h3 rs drop_privs_trace [OF dp] show ?thesis
    unfolding sandbox_trace_def privs_calls_def by auto
qed

end
