(* ===== verification/Os_Contract.thy ===== *)
theory Os_Contract
  imports Os Sandbox
begin

text \<open>
  What \<open>os.rs\<close> promises its callers: file operations that stay below the descriptor they are
  given, directory listings that are complete, and a sandbox that is either wholly in place or not
  entered. The system calls of the sandbox are also given as the registers and memory the source
  passes, so that the filter it installs can be run on their numbers.
\<close>

section \<open>Directory listings\<close>

text \<open>A descriptor whose remaining entries the kernel hands out in the given batches.\<close>

inductive delivers :: "'w env \<Rightarrow> nat \<Rightarrow> 'w \<Rightarrow> dirent list list \<Rightarrow> 'w \<Rightarrow> bool" for E fd where
  Delivered: "os_getdents E fd 8192 w = ((0, buf), w') \<Longrightarrow> delivers E fd w [] w'"
| Batch: "os_getdents E fd 8192 w = ((int (length (concat (map enc_dirent ds))), concat (map enc_dirent ds) @ rest), w1)
    \<Longrightarrow> ds \<noteq> [] \<Longrightarrow> list_all dirent_wf ds \<Longrightarrow> delivers E fd w1 dss w' \<Longrightarrow> delivers E fd w (ds # dss) w'"

lemma visible_names_append: "visible_names (ds @ es) = visible_names ds @ visible_names es"
  by (simp add: visible_names_def)

lemma enc_dirent_ne: "concat (map enc_dirent (d # ds)) \<noteq> []"
  by (simp add: enc_dirent_def)

lemma getdents_delivers:
  "delivers E fd w dss w' \<Longrightarrow>
     getdents_loop E fd names w = Some (Inr (sort (names @ visible_names (concat dss))), w')"
proof (induction w dss w' arbitrary: names rule: delivers.induct)
  case (Delivered w buf w')
  then show ?case by (subst getdents_loop.simps) (simp add: visible_names_def Let_def)
next
  case (Batch w ds rest w1 dss w')
  define bs where "bs = concat (map enc_dirent ds)"
  have "bs \<noteq> []" using Batch.hyps(2) enc_dirent_ne unfolding bs_def by (cases ds) auto
  moreover have "parse_dirents (bs @ rest) (length bs) 0 names = Some (Inr (names @ visible_names ds))"
    using parse_dirents_enc [OF Batch.hyps(3), of "[]" rest names] unfolding bs_def by simp
  ultimately show ?case
    using Batch.hyps(1) [folded bs_def] Batch.IH [of "names @ visible_names ds"]
    by (subst getdents_loop.simps) (simp add: Let_def visible_names_append)
qed

text \<open>
  C31: A directory is listed completely. When the kernel hands out the entries of a directory in
  well-formed batches and then says there are no more, the listing returns: exactly the entries'
  names but \<open>.\<close> and \<open>..\<close>, sorted. And whatever bytes a kernel may write, the parser never indexes
  outside the buffer.
\<close>

theorem listing_complete:
  "(delivers E fd w dss w' \<longrightarrow> getdents_names E fd w = Some (Inr (sort (visible_names (concat dss))), w'))
   \<and> (end \<le> length buf \<longrightarrow> parse_dirents buf end off names \<noteq> None)"
  using getdents_delivers [of E fd w dss w' "[]"] parse_dirents_total [of "end" buf off names]
  by (auto simp: getdents_names_def)

definition demo_entry :: "byte list \<Rightarrow> dirent" where
  "demo_entry n = \<lparr>d_head = replicate 16 0, d_type = 8, d_name = n, d_pad = [0, 0]\<rparr>"

text \<open>A kernel that hands out one batch, then says there is no more.\<close>

definition demo_batch :: "dirent list" where
  "demo_batch = [demo_entry [46], demo_entry [98], demo_entry [46, 46], demo_entry [97, 46, 99]]"

definition demo_kernel :: "bool env" where
  "demo_kernel = \<lparr>
     os_random = \<lambda>i n. None, os_open = \<lambda>p w. (Inr 3, w), os_openat2 = \<lambda>fd p f r w. (4, w),
     os_read_to_end = \<lambda>fd w. (Inr [], w),
     os_getdents = \<lambda>fd n w. (if w then ((0, []), w)
       else ((int (length (concat (map enc_dirent demo_batch))), concat (map enc_dirent demo_batch) @ [0]), True)),
     os_command = \<lambda>argv vars fd p w. (Inr [], w), os_canonicalize = \<lambda>p w. (Inr p, w),
     os_audit_read = \<lambda>f w. (None, w), os_audit_open = \<lambda>w. (None, w), os_audit_fault = \<lambda>w. (NoFault, w),
     net_resolve = \<lambda>h p w. (Inr [], w), net_connect = \<lambda>a w. (Inl ''refused'', w),
     net_write = \<lambda>fd b w. (Inr (), w), net_read = \<lambda>fd n w. (Inr [], w),
     uni_escaped = \<lambda>c. False, uni_upper = \<lambda>c. [c]\<rparr>"

lemma listing_complete_witness:
  "getdents_names demo_kernel 4 False = Some (Inr [''a.c'', ''b''], True)"
proof -
  have "list_all dirent_wf demo_batch"
    by (simp add: demo_batch_def demo_entry_def dirent_wf_def dirent_len_def)
  then have "delivers demo_kernel 4 False [demo_batch] True"
    by (intro Batch [where rest = "[0]"] Delivered [where buf = "[]"])
      (simp_all add: demo_kernel_def, simp add: demo_batch_def)
  moreover have "sort (visible_names (concat [demo_batch])) = [''a.c'', ''b'']" by code_simp
  ultimately show ?thesis using listing_complete [of demo_kernel 4 False "[demo_batch]" True] by simp
qed

section \<open>Paths below a descriptor\<close>

text \<open>
  C32: Files are opened below the descriptor or not at all. Take any two environments that agree on
  \<open>openat2\<close> below the given descriptor with \<open>RESOLVE_BENEATH\<close> and \<open>RESOLVE_NO_MAGICLINKS\<close>, and on reading
  and listing what such a call has opened; let them differ in every other interface, a plain open, an
  opening below another descriptor or with other flags, reading another descriptor. Reading, deriving
  a directory and listing then give the same results and the same world: they use nothing else, so a
  kernel without \<open>openat2\<close> gives no file, whatever other way to one there is.
\<close>

theorem files_stay_beneath:
  assumes "agree_beneath d E E'"
  shows "read_at E' d rel w = read_at E d rel w
   \<and> derive_dir_at E' d rel w = derive_dir_at E d rel w
   \<and> list_at E' d rel w = list_at E d rel w"
  using assms by (simp add: read_at_confined derive_dir_at_confined list_at_confined)

text \<open>A kernel with a plain open that succeeds, and no \<open>openat2\<close> but below descriptor 3.\<close>

definition lenient_env :: "unit env" where
  "lenient_env = quiet_env\<lparr>os_open := \<lambda>p w. (Inr 9, w),
     os_openat2 := \<lambda>fd p fl rs w. (if fd = 3 \<and> rs = 0x0A then 4 else 9, w),
     os_read_to_end := \<lambda>fd w. (Inr (if fd = 4 then [] else [1]), w)\<rparr>"

lemma files_stay_beneath_witness:
  "read_at lenient_env 3 ''a'' () = read_at quiet_env 3 ''a'' () \<and> os_open lenient_env ''a'' () \<noteq> os_open quiet_env ''a'' ()"
proof -
  have "agree_beneath 3 quiet_env lenient_env"
    by (simp add: agree_beneath_def lenient_env_def quiet_env_def)
  from files_stay_beneath [OF this] show ?thesis by (simp add: lenient_env_def quiet_env_def)
qed

section \<open>The sandbox's calls in registers and memory\<close>

text \<open>Little-endian bytes of a word, and back.\<close>

definition le_bytes :: "nat \<Rightarrow> 'a::len word \<Rightarrow> byte list" where
  "le_bytes n x = map (\<lambda>i. ucast (drop_bit (8 * i) x)) [0..<n]"

fun from_le :: "byte list \<Rightarrow> 'a::len word" where
  "from_le [] = 0"
| "from_le (b # bs) = ucast b OR push_bit 8 (from_le bs)"

text \<open>An argument of a call: a number, a buffer it points to, or a filter program with its length.\<close>

datatype arg = Val u64 | Mem "byte list" | Filter u16 "byte list"

definition SYS_PRCTL :: nat where "SYS_PRCTL = 157"
definition SYS_FCHDIR :: nat where "SYS_FCHDIR = 81"
definition SYS_OPEN :: nat where "SYS_OPEN = 2"
definition SYS_CLOSE :: nat where "SYS_CLOSE = 3"
definition SYS_CLOSE_RANGE :: nat where "SYS_CLOSE_RANGE = 436"
definition CLOSE_RANGE_CLOEXEC :: u64 where "CLOSE_RANGE_CLOEXEC = 4"
definition SYS_LANDLOCK_CREATE_RULESET :: nat where "SYS_LANDLOCK_CREATE_RULESET = 444"
definition SYS_LANDLOCK_ADD_RULE :: nat where "SYS_LANDLOCK_ADD_RULE = 445"
definition SYS_LANDLOCK_RESTRICT_SELF :: nat where "SYS_LANDLOCK_RESTRICT_SELF = 446"
definition SYS_SETRLIMIT :: nat where "SYS_SETRLIMIT = 160"
definition SYS_SETGROUPS :: nat where "SYS_SETGROUPS = 116"
definition SYS_SETGID :: nat where "SYS_SETGID = 106"
definition SYS_SETUID :: nat where "SYS_SETUID = 105"
definition PR_SET_NO_NEW_PRIVS :: u64 where "PR_SET_NO_NEW_PRIVS = 38"
definition RULE_PATH_BENEATH :: u64 where "RULE_PATH_BENEATH = 1"
definition PR_SET_SECCOMP :: u64 where "PR_SET_SECCOMP = 22"
definition SECCOMP_MODE_FILTER :: u64 where "SECCOMP_MODE_FILTER = 2"

text \<open>\<open>Rlimit\<close>, \<open>RulesetAttr\<close>, \<open>PathBeneathAttr\<close> (packed) and \<open>SockFilter\<close> as \<open>repr(C)\<close> lays them out.\<close>

definition rlimit_mem :: "u64 \<Rightarrow> byte list" where
  "rlimit_mem n = le_bytes 8 n @ le_bytes 8 n"

definition ruleset_mem :: "u64 \<Rightarrow> byte list" where
  "ruleset_mem acc = le_bytes 8 acc"

definition path_beneath_mem :: "u64 \<Rightarrow> int \<Rightarrow> byte list" where
  "path_beneath_mem acc fd = le_bytes 8 acc @ le_bytes 4 (word_of_int fd :: u32)"

definition filter_mem :: "sock_filter \<Rightarrow> byte list" where
  "filter_mem f = le_bytes 2 (sf_code f) @ [sf_jt f, sf_jf f] @ le_bytes 4 (sf_k f)"

definition fprog :: "sock_filter list \<Rightarrow> arg" where
  "fprog p = Filter (of_nat (length p)) (concat (map filter_mem p))"

definition call_number :: "syscall \<Rightarrow> nat" where
  "call_number c = (case c of
     PrctlNoNewPrivs \<Rightarrow> SYS_PRCTL
   | Setrlimit r n \<Rightarrow> SYS_SETRLIMIT
   | LandlockCreateRuleset acc \<Rightarrow> SYS_LANDLOCK_CREATE_RULESET
   | LandlockAddPathBeneath rs fd acc \<Rightarrow> SYS_LANDLOCK_ADD_RULE
   | OpenPathDir p \<Rightarrow> SYS_OPEN
   | Close fd \<Rightarrow> SYS_CLOSE
   | LandlockRestrictSelf rs \<Rightarrow> SYS_LANDLOCK_RESTRICT_SELF
   | Fchdir fd \<Rightarrow> SYS_FCHDIR
   | CloseRangeCloexec a b \<Rightarrow> SYS_CLOSE_RANGE
   | PrctlSeccompFilter p \<Rightarrow> SYS_PRCTL
   | SetgroupsNone \<Rightarrow> SYS_SETGROUPS
   | Setgid g \<Rightarrow> SYS_SETGID
   | Setuid u \<Rightarrow> SYS_SETUID)"

definition call_args :: "syscall \<Rightarrow> arg list" where
  "call_args c = (case c of
     PrctlNoNewPrivs \<Rightarrow> [Val PR_SET_NO_NEW_PRIVS, Val 1]
   | Setrlimit r n \<Rightarrow> [Val (of_nat r), Mem (rlimit_mem n)]
   | LandlockCreateRuleset acc \<Rightarrow> [Mem (ruleset_mem acc), Val (of_nat (length (ruleset_mem acc)))]
   | LandlockAddPathBeneath rs fd acc \<Rightarrow>
       [Val (word_of_int rs), Val RULE_PATH_BENEATH, Mem (path_beneath_mem acc fd)]
   | OpenPathDir p \<Rightarrow> [Mem (as_bytes p @ [0]), Val (O_PATH OR O_DIRECTORY OR O_CLOEXEC)]
   | Close fd \<Rightarrow> [Val (word_of_int fd)]
   | LandlockRestrictSelf rs \<Rightarrow> [Val (word_of_int rs)]
   | Fchdir fd \<Rightarrow> [Val (of_nat fd)]
   | CloseRangeCloexec a b \<Rightarrow> [Val (of_nat a), Val (of_nat b), Val CLOSE_RANGE_CLOEXEC]
   | PrctlSeccompFilter p \<Rightarrow> [Val PR_SET_SECCOMP, Val SECCOMP_MODE_FILTER, fprog p]
   | SetgroupsNone \<Rightarrow> []
   | Setgid g \<Rightarrow> [Val (ucast g)]
   | Setuid u \<Rightarrow> [Val (ucast u)])"

text \<open>\<open>syscall5\<close>: the arguments not named are 0.\<close>

definition syscall5 :: "syscall \<Rightarrow> nat \<times> arg list" where
  "syscall5 c = (call_number c, call_args c @ replicate (5 - length (call_args c)) (Val 0))"

lemmas call_numbers = call_number_def SYS_PRCTL_def SYS_FCHDIR_def SYS_OPEN_def SYS_CLOSE_def
  SYS_CLOSE_RANGE_def SYS_LANDLOCK_CREATE_RULESET_def SYS_LANDLOCK_ADD_RULE_def
  SYS_LANDLOCK_RESTRICT_SELF_def SYS_SETRLIMIT_def SYS_SETGROUPS_def SYS_SETGID_def SYS_SETUID_def

fun take_filters :: "byte list \<Rightarrow> sock_filter list" where
  "take_filters (c0 # c1 # t # f # k0 # k1 # k2 # k3 # bs) =
     \<lparr>sf_code = from_le [c0, c1], sf_jt = t, sf_jf = f, sf_k = from_le [k0, k1, k2, k3]\<rparr> # take_filters bs"
| "take_filters _ = []"

lemma from_le_16: "from_le (le_bytes 2 x) = (x :: u16)"
  by (rule bit_word_eqI) (auto simp: le_bytes_def upt_rec bit_simps)

lemma from_le_32: "from_le (le_bytes 4 x) = (x :: u32)"
proof (rule bit_word_eqI)
  fix n assume "n < LENGTH(32)"
  then have "n < 8 \<or> n = 8 + (n - 8) \<and> n - 8 < 8 \<or> n = 16 + (n - 16) \<and> n - 16 < 8 \<or> n = 24 + (n - 24) \<and> n - 24 < 8"
    by auto
  then consider "n < 8" | k where "n = 8 + k" "k < 8" | k where "n = 16 + k" "k < 8" | k where "n = 24 + k" "k < 8"
    by blast
  then show "bit (from_le (le_bytes 4 x) :: u32) n \<longleftrightarrow> bit x n"
    by cases (auto simp: le_bytes_def upt_rec bit_simps)
qed

lemma take_filters_mem: "take_filters (concat (map filter_mem p)) = p"
proof (induction p)
  case (Cons f p)
  obtain c0 c1 k0 k1 k2 k3 where b: "le_bytes 2 (sf_code f) = [c0, c1]" "le_bytes 4 (sf_k f) = [k0, k1, k2, k3]"
    by (simp add: le_bytes_def upt_rec)
  then have "from_le [c0, c1] = sf_code f" "from_le [k0, k1, k2, k3] = sf_k f"
    using from_le_16 [of "sf_code f"] from_le_32 [of "sf_k f"] by simp_all
  then show ?case using b Cons by (simp add: filter_mem_def)
qed simp

text \<open>
  C34: The filter does what its comment says. The bytes handed to the kernel are the program of 47
  instructions, and its verdict on every architecture and call number is: kill on another
  architecture, \<open>EACCES\<close> for the socket family, \<open>io_uring\<close> and the calls into other processes, and
  leave to run for all others, so in particular for \<open>execve\<close>.
\<close>

theorem seccomp_filter_verdicts:
  "seccomp_verdict arch nr = Some (if arch \<noteq> AUDIT_ARCH_X86_64 then SECCOMP_RET_KILL
      else if nr \<in> set denied_syscalls then SECCOMP_RET_ERRNO OR EACCES else SECCOMP_RET_ALLOW)
   \<and> (\<exists>bytes. fprog seccomp_prog = Filter 47 bytes \<and> take_filters bytes = seccomp_prog)
   \<and> seccomp_verdict AUDIT_ARCH_X86_64 59 = Some SECCOMP_RET_ALLOW"
proof -
  have "length seccomp_prog = 47" by (simp add: seccomp_prog_def Let_def)
  then show ?thesis
    by (simp add: fprog_def take_filters_mem seccomp_verdict_eq denied_syscalls_def)
qed

text \<open>Calls of the x32 interface have the same architecture word and other numbers: they are let through.\<close>

lemma x32_calls_allowed: "seccomp_verdict AUDIT_ARCH_X86_64 (0x40000000 + 41) = Some SECCOMP_RET_ALLOW"
  by (simp add: seccomp_verdict_eq denied_syscalls_def)

text \<open>
  C33: The sandbox is in place or the command does not start. When \<open>apply\<close> succeeds, its calls and
  their answers were exactly these, in this order: no new privileges, the limits, a Landlock rule set
  and its rule for the working directory, read-only; for each of the four system directories an
  opening and, where that gave a descriptor, the read-only rule for that very descriptor and its
  closing; the rule set in force and closed, the working directory entered, every other descriptor to
  close on exec, the filter, and the drop of groups, group and user. Every answer was 0 but those of
  the calls that give a descriptor, of which only the opening of a system directory may have failed,
  and those of closing one. And the calls that come after the filter are ones it lets through.
\<close>

theorem sandbox_in_place:
  assumes "sandbox_apply (tracing f) cwd_fd pol [] = (Inr v, h)"
  shows "sandbox_trace cwd_fd pol h
    \<and> list_all (\<lambda>(c, r). r = 0 \<and> seccomp_verdict AUDIT_ARCH_X86_64 (of_nat (call_number c)) = Some SECCOMP_RET_ALLOW)
        (privs_calls pol)"
proof
  show "sandbox_trace cwd_fd pol h" by (rule sandbox_apply_sequence [OF assms])
  show "list_all (\<lambda>(c, r). r = 0 \<and> seccomp_verdict AUDIT_ARCH_X86_64 (of_nat (call_number c)) = Some SECCOMP_RET_ALLOW)
        (privs_calls pol)"
    by (auto simp: privs_calls_def seccomp_verdict_eq denied_syscalls_def call_numbers split: option.splits)
qed

lemma sandbox_in_place_witness:
  "\<exists>h. sandbox_apply (tracing (\<lambda>h c. 0)) 5 (default_limits\<lparr>drop_uid := Some 1000\<rparr>) [] = (Inr (), h)
     \<and> sandbox_trace 5 (default_limits\<lparr>drop_uid := Some 1000\<rparr>) h"
proof -
  obtain h where h: "sandbox_apply (tracing (\<lambda>h c. 0)) 5 (default_limits\<lparr>drop_uid := Some 1000\<rparr>) [] = (Inr (), h)"
    by (simp add: sandbox_apply_def seq_ok_def must_def must_fd_def limit_if_def tracing_def sys_dirs_def
      drop_privs_def default_limits_def)
  from sandbox_in_place [OF h] h show ?thesis by blast
qed

end
