(* ===== verification/Net.thy ===== *)
theory Net
  imports World
begin

text \<open>
  \<open>net.rs\<close>: the egress policy. Which addresses are refused, how a request target is made
  canonical, which host names are accepted, how a path is matched against an allowlist, and the
  byte-limited fetch. Addresses are octets and segments, as in \<open>std::net\<close>.
\<close>

unbundle bit_operations_syntax

datatype net_error =
    TargetNoSlash string
  | TargetDoubleSlash string
  | TargetBadChar string
  | MalformedEscape string
  | EncodedSeparator nat string
  | AboveRoot string
  | HostLength string
  | HostBracket string
  | HostBadIpv6 string
  | HostBadChar string
  | HostLabelLength string
  | HostLabelHyphen string
  | HostLabelChar string
  | HostAllNumeric string
  | MetadataHost string
  | DnsFailed string
  | DnsEmpty string
  | BlockedIp string ip_addr
  | FetchControlChar
  | ConnectFailed string
  | WriteFailed string
  | NetReadFailed string
  | NoHeaderEnd
  | BadStatus

section \<open>Refused addresses\<close>

text \<open>The predicates of \<open>std::net::Ipv4Addr\<close> the source uses.\<close>

definition v4_is_loopback :: "byte \<Rightarrow> byte \<Rightarrow> byte \<Rightarrow> byte \<Rightarrow> bool" where
  "v4_is_loopback a b c d \<longleftrightarrow> a = 127"
definition v4_is_private :: "byte \<Rightarrow> byte \<Rightarrow> byte \<Rightarrow> byte \<Rightarrow> bool" where
  "v4_is_private a b c d \<longleftrightarrow> a = 10 \<or> (a = 172 \<and> 16 \<le> b \<and> b \<le> 31) \<or> (a = 192 \<and> b = 168)"
definition v4_is_link_local :: "byte \<Rightarrow> byte \<Rightarrow> byte \<Rightarrow> byte \<Rightarrow> bool" where
  "v4_is_link_local a b c d \<longleftrightarrow> a = 169 \<and> b = 254"
definition v4_is_unspecified :: "byte \<Rightarrow> byte \<Rightarrow> byte \<Rightarrow> byte \<Rightarrow> bool" where
  "v4_is_unspecified a b c d \<longleftrightarrow> a = 0 \<and> b = 0 \<and> c = 0 \<and> d = 0"
definition v4_is_broadcast :: "byte \<Rightarrow> byte \<Rightarrow> byte \<Rightarrow> byte \<Rightarrow> bool" where
  "v4_is_broadcast a b c d \<longleftrightarrow> a = 255 \<and> b = 255 \<and> c = 255 \<and> d = 255"
definition v4_is_multicast :: "byte \<Rightarrow> byte \<Rightarrow> byte \<Rightarrow> byte \<Rightarrow> bool" where
  "v4_is_multicast a b c d \<longleftrightarrow> 224 \<le> a \<and> a \<le> 239"
definition v4_is_documentation :: "byte \<Rightarrow> byte \<Rightarrow> byte \<Rightarrow> byte \<Rightarrow> bool" where
  "v4_is_documentation a b c d \<longleftrightarrow>
     (a = 192 \<and> b = 0 \<and> c = 2) \<or> (a = 198 \<and> b = 51 \<and> c = 100) \<or> (a = 203 \<and> b = 0 \<and> c = 113)"

definition is_ula :: "u16 \<Rightarrow> bool" where
  "is_ula s0 \<longleftrightarrow> s0 AND 0xfe00 = 0xfc00"
definition is_link_local_v6 :: "u16 \<Rightarrow> bool" where
  "is_link_local_v6 s0 \<longleftrightarrow> s0 AND 0xffc0 = 0xfe80"

text \<open>\<open>Ipv6Addr::to_ipv4\<close>: the last four octets of an IPv4-mapped or IPv4-compatible address.\<close>

fun to_ipv4 :: "ip_addr \<Rightarrow> ip_addr option" where
  "to_ipv4 (V6 s0 s1 s2 s3 s4 s5 s6 s7) =
     (if s0 = 0 \<and> s1 = 0 \<and> s2 = 0 \<and> s3 = 0 \<and> s4 = 0 \<and> (s5 = 0 \<or> s5 = 0xffff)
      then Some (V4 (ucast (drop_bit 8 s6)) (ucast s6) (ucast (drop_bit 8 s7)) (ucast s7))
      else None)"
| "to_ipv4 (V4 a b c d) = None"

definition is_blocked_v4 :: "byte \<Rightarrow> byte \<Rightarrow> byte \<Rightarrow> byte \<Rightarrow> bool" where
  "is_blocked_v4 a b c d \<longleftrightarrow>
     v4_is_loopback a b c d \<or> v4_is_private a b c d \<or> v4_is_link_local a b c d
     \<or> v4_is_unspecified a b c d \<or> v4_is_broadcast a b c d \<or> v4_is_multicast a b c d
     \<or> v4_is_documentation a b c d
     \<or> a = 0 \<or> 240 \<le> a \<or> (a = 100 \<and> b AND 0xc0 = 64) \<or> (a = 192 \<and> b = 88 \<and> c = 99)"

fun is_blocked_ip :: "ip_addr \<Rightarrow> bool" where
  "is_blocked_ip (V4 a b c d) = is_blocked_v4 a b c d"
| "is_blocked_ip (V6 s0 s1 s2 s3 s4 s5 s6 s7) =
     ((s0 = 0 \<and> s1 = 0 \<and> s2 = 0 \<and> s3 = 0 \<and> s4 = 0 \<and> s5 = 0 \<and> s6 = 0 \<and> s7 = 1)
      \<or> (s0 = 0 \<and> s1 = 0 \<and> s2 = 0 \<and> s3 = 0 \<and> s4 = 0 \<and> s5 = 0 \<and> s6 = 0 \<and> s7 = 0)
      \<or> s0 AND 0xff00 = 0xff00
      \<or> is_ula s0
      \<or> is_link_local_v6 s0
      \<or> (case to_ipv4 (V6 s0 s1 s2 s3 s4 s5 s6 s7) of
           Some (V4 a b c d) \<Rightarrow> is_blocked_v4 a b c d | _ \<Rightarrow> False))"

section \<open>Request targets\<close>

definition hexval :: "char \<Rightarrow> nat option" where
  "hexval ch = (let n = (of_char ch :: nat) in
     if 48 \<le> n \<and> n \<le> 57 then Some (n - 48)
     else if 97 \<le> n \<and> n \<le> 102 then Some (n - 97 + 10)
     else if 65 \<le> n \<and> n \<le> 70 then Some (n - 65 + 10)
     else None)"

text \<open>The scan of \<open>reject_bad_percent\<close>: three bytes at an escape, one otherwise.\<close>

fun scan_percent :: "string \<Rightarrow> string \<Rightarrow> net_error + unit" where
  "scan_percent s [] = Inr ()"
| "scan_percent s (x # xs) =
     (if x = CHR ''%'' then
        (case xs of
           h1 # h2 # rest \<Rightarrow>
             (case (hexval h1, hexval h2) of
                (Some a, Some b) \<Rightarrow>
                  (let dec = a * 16 + b in
                   if dec = 0x2F \<or> dec = 0x5C \<or> dec = 0x2E then Inl (EncodedSeparator dec s)
                   else scan_percent s rest)
              | _ \<Rightarrow> Inl (MalformedEscape s))
         | _ \<Rightarrow> Inl (MalformedEscape s))
      else scan_percent s xs)"

definition reject_bad_percent :: "string \<Rightarrow> net_error + unit" where
  "reject_bad_percent s = scan_percent s s"

text \<open>The dot-segment loop; the segments kept so far are a stack, its top first.\<close>

fun dot_loop :: "string \<Rightarrow> string list \<Rightarrow> string list \<Rightarrow> net_error + string list" where
  "dot_loop path out [] = Inr (rev out)"
| "dot_loop path out (seg # segs) =
     (if seg = [] \<or> seg = ''.'' then dot_loop path out segs
      else if seg = ''..'' then
        (case out of [] \<Rightarrow> Inl (AboveRoot path) | _ # out' \<Rightarrow> dot_loop path out' segs)
      else dot_loop path (seg # out) segs)"

definition remove_dot_segments :: "string \<Rightarrow> net_error + string" where
  "remove_dot_segments path =
     try_ok (dot_loop path [] (split_on (CHR ''/'') path)) (\<lambda>out. Inr (CHR ''/'' # join ''/'' out))"

definition target_bad_byte :: "char \<Rightarrow> bool" where
  "target_bad_byte c \<longleftrightarrow>
     (of_char c :: nat) < 0x20 \<or> (of_char c :: nat) = 0x7f \<or> c = CHR '' '' \<or> c = CHR 0x5C"

definition canonical_request_target :: "string \<Rightarrow> net_error + string" where
  "canonical_request_target raw =
     (if \<not> prefix ''/'' raw then Inl (TargetNoSlash raw)
      else if prefix ''//'' raw then Inl (TargetDoubleSlash raw)
      else if list_ex target_bad_byte raw then Inl (TargetBadChar raw)
      else
        let path = takeWhile (\<lambda>c. c \<noteq> CHR ''?'') raw;
            query = dropWhile (\<lambda>c. c \<noteq> CHR ''?'') raw
        in try_ok (reject_bad_percent path) (\<lambda>_.
           try_ok (if query = [] then Inr () else reject_bad_percent query) (\<lambda>_.
           try_ok (remove_dot_segments path) (\<lambda>norm. Inr (norm @ query)))))"

section \<open>Path allowlists\<close>

fun seg_match :: "string list \<Rightarrow> string list \<Rightarrow> bool" where
  "seg_match [] q = (q = [])"
| "seg_match (p # ps) q =
     (if p = ''**'' then list_ex (\<lambda>i. seg_match ps (drop i q)) [0..<Suc (length q)]
      else (case q of
              [] \<Rightarrow> False
            | x # xs \<Rightarrow> (p = ''*'' \<or> p = x) \<and> seg_match ps xs))"

definition path_matches :: "string \<Rightarrow> string \<Rightarrow> bool" where
  "path_matches pattern path =
     seg_match (split_on (CHR ''/'') (trim_char (CHR ''/'') pattern))
               (split_on (CHR ''/'') (trim_char (CHR ''/'') path))"

section \<open>Host names\<close>

text \<open>
  The address parsers of \<open>std::net\<close>, as far as \<open>valid_host\<close> asks: whether a text is an
  address. A number is the longest run of digits, at most \<open>n\<close> of them.
\<close>

definition read_number_v4 :: "string \<Rightarrow> string option" where
  "read_number_v4 s = (let ds = takeWhile is_digit s in
     if ds = [] \<or> 3 < length ds \<or> 255 < digits_value ds \<or> (hd ds = CHR ''0'' \<and> 1 < length ds)
     then None else Some (drop (length ds) s))"

definition read_number_v6 :: "string \<Rightarrow> string option" where
  "read_number_v6 s = (let ds = takeWhile (\<lambda>c. hexval c \<noteq> None) s in
     if ds = [] \<or> 4 < length ds then None else Some (drop (length ds) s))"

definition read_given :: "char \<Rightarrow> string \<Rightarrow> string option" where
  "read_given c s = (case s of [] \<Rightarrow> None | x # xs \<Rightarrow> if x = c then Some xs else None)"

definition read_sep :: "char \<Rightarrow> bool \<Rightarrow> (string \<Rightarrow> string option) \<Rightarrow> string \<Rightarrow> string option" where
  "read_sep c first inner s = (if first then inner s else Option.bind (read_given c s) inner)"

definition read_ipv4 :: "string \<Rightarrow> string option" where
  "read_ipv4 s = do {
     s1 \<leftarrow> read_number_v4 s;
     s2 \<leftarrow> read_sep (CHR ''.'') False read_number_v4 s1;
     s3 \<leftarrow> read_sep (CHR ''.'') False read_number_v4 s2;
     read_sep (CHR ''.'') False read_number_v4 s3 }"

definition parses_ipv4 :: "string \<Rightarrow> bool" where
  "parses_ipv4 s \<longleftrightarrow> length s \<le> 15 \<and> read_ipv4 s = Some []"

text \<open>
  \<open>read_groups\<close> on \<open>left\<close> free slots, \<open>i\<close> of them used: the number of groups read, whether an
  embedded IPv4 address ended them, and the rest.
\<close>

fun read_groups :: "nat \<Rightarrow> nat \<Rightarrow> string \<Rightarrow> nat \<times> bool \<times> string" where
  "read_groups i 0 s = (i, False, s)"
| "read_groups i (Suc left) s =
     (case (if 0 < left then read_sep (CHR '':'') (i = 0) read_ipv4 s else None) of
        Some s' \<Rightarrow> (i + 2, True, s')
      | None \<Rightarrow>
          (case read_sep (CHR '':'') (i = 0) read_number_v6 s of
             Some s' \<Rightarrow> read_groups (Suc i) left s'
           | None \<Rightarrow> (i, False, s)))"

definition parses_ipv6 :: "string \<Rightarrow> bool" where
  "parses_ipv6 s =
     (case read_groups 0 8 s of (head_size, head_ipv4, r) \<Rightarrow>
        if head_size = 8 then r = []
        else if head_ipv4 then False
        else (case Option.bind (read_given (CHR '':'') r) (read_given (CHR '':'')) of
                None \<Rightarrow> False
              | Some r' \<Rightarrow> (case read_groups 0 (8 - (head_size + 1)) r' of (_, _, r'') \<Rightarrow> r'' = [])))"

definition is_alnum :: "char \<Rightarrow> bool" where
  "is_alnum c \<longleftrightarrow> is_digit c \<or> (65 \<le> (of_char c :: nat) \<and> (of_char c :: nat) \<le> 90)
     \<or> (97 \<le> (of_char c :: nat) \<and> (of_char c :: nat) \<le> 122)"

text \<open>The loop over the labels; \<open>all_num\<close> is \<open>all_numeric\<close> so far.\<close>

fun check_labels :: "string \<Rightarrow> bool \<Rightarrow> string list \<Rightarrow> net_error + bool" where
  "check_labels host all_num [] = Inr all_num"
| "check_labels host all_num (b # bs) =
     (if b = [] \<or> 63 < length b then Inl (HostLabelLength host)
      else if hd b = CHR ''-'' \<or> last b = CHR ''-'' then Inl (HostLabelHyphen host)
      else if \<not> list_all (\<lambda>c. is_alnum c \<or> c = CHR ''-'') b then Inl (HostLabelChar host)
      else check_labels host (all_num \<and> list_all is_digit b) bs)"

definition valid_host :: "string \<Rightarrow> net_error + unit" where
  "valid_host host =
     (if host = [] \<or> 253 < length host then Inl (HostLength host)
      else if prefix ''['' host then
        (if last host \<noteq> CHR '']'' \<or> length host < 3 then Inl (HostBracket host)
         else if parses_ipv6 (butlast (tl host)) then Inr () else Inl (HostBadIpv6 host))
      else if CHR ''['' \<in> set host \<or> CHR '']'' \<in> set host \<or> CHR '':'' \<in> set host then Inl (HostBadChar host)
      else if parses_ipv4 host then Inr ()
      else try_ok (check_labels host True (split_on (CHR ''.'') host)) (\<lambda>all_numeric.
             if all_numeric then Inl (HostAllNumeric host) else Inr ()))"

section \<open>Resolution and transport\<close>

definition METADATA_HOSTS :: "string list" where
  "METADATA_HOSTS = [''metadata.google.internal'', ''metadata'', ''instance-data'', ''metadata.azure.com'']"

definition resolve_checked ::
    "'w env \<Rightarrow> string \<Rightarrow> u16 \<Rightarrow> 'w \<Rightarrow> (net_error + sock_addr list) \<times> 'w" where
  "resolve_checked E host port w =
     (if ascii_lower host \<in> set METADATA_HOSTS then (Inl (MetadataHost host), w)
      else case net_resolve E host port w of
        (Inl m, w') \<Rightarrow> (Inl (DnsFailed m), w')
      | (Inr addrs, w') \<Rightarrow>
          (if addrs = [] then (Inl (DnsEmpty host), w')
           else case find (\<lambda>a. is_blocked_ip (sa_ip a)) addrs of
                  Some a \<Rightarrow> (Inl (BlockedIp host (sa_ip a)), w')
                | None \<Rightarrow> (Inr addrs, w')))"

record http_response =
  hr_status :: nat
  hr_body :: "byte list"

definition crlf :: string where "crlf = [CHR 0x0D, CHR 0x0A]"

fun find_header_end :: "byte list \<Rightarrow> nat option" where
  "find_header_end [] = None"
| "find_header_end (b # bs) =
     (if prefix [13, 10, 13, 10] (b # bs) then Some 0 else map_option Suc (find_header_end bs))"

definition parse_http_response :: "byte list \<Rightarrow> net_error + http_response" where
  "parse_http_response raw =
     (case find_header_end raw of
        None \<Rightarrow> Inl NoHeaderEnd
      | Some sep \<Rightarrow>
          (let head = take sep raw;
               first_s = from_utf8_lossy (takeWhile (\<lambda>c. c \<noteq> 13 \<and> c \<noteq> 10) head)
           in case Option.bind (nth_opt (split_whitespace first_s) 1) (parse_uint 65536) of
                None \<Rightarrow> Inl BadStatus
              | Some st \<Rightarrow> Inr \<lparr>hr_status = st, hr_body = drop (sep + 4) raw\<rparr>))"

text \<open>The read loop stops at the end of the stream or once more than \<open>max_bytes\<close> have come.\<close>

function fetch_loop ::
    "'w env \<Rightarrow> nat \<Rightarrow> nat \<Rightarrow> byte list \<Rightarrow> 'w \<Rightarrow> (net_error + byte list) \<times> 'w" where
  "fetch_loop E fd max_bytes raw w =
     (case net_read E fd 4096 w of
        (Inl m, w') \<Rightarrow> (Inl (NetReadFailed m), w')
      | (Inr chunk, w') \<Rightarrow>
          (if chunk = [] then (Inr raw, w')
           else if max_bytes < length (raw @ chunk) then (Inr (take max_bytes (raw @ chunk)), w')
           else fetch_loop E fd max_bytes (raw @ chunk) w'))"
  by pat_completeness auto
termination
  by (relation "measure (\<lambda>(E, fd, m, raw, w). Suc m - length raw)")
    (auto simp: diff_less_mono2 simp flip: length_greater_0_conv)

declare fetch_loop.simps [simp del]

definition http_request :: "string \<Rightarrow> string \<Rightarrow> string" where
  "http_request path authority =
     ''GET '' @ path @ '' HTTP/1.0'' @ crlf @ ''Host: '' @ authority @ crlf
     @ ''User-Agent: capable/0.1'' @ crlf @ ''Accept: */*'' @ crlf @ ''Connection: close'' @ crlf @ crlf"

definition fetch_get ::
    "'w env \<Rightarrow> sock_addr \<Rightarrow> string \<Rightarrow> string \<Rightarrow> nat \<Rightarrow> 'w \<Rightarrow> (net_error + http_response) \<times> 'w" where
  "fetch_get E addr authority path max_bytes w =
     (if list_ex (\<lambda>c. (of_char c :: nat) < 0x20 \<or> (of_char c :: nat) = 0x7f) path
         \<or> list_ex (\<lambda>c. (of_char c :: nat) < 0x20 \<or> (of_char c :: nat) = 0x7f \<or> c = CHR '' '') authority
      then (Inl FetchControlChar, w)
      else case net_connect E addr w of
        (Inl m, w1) \<Rightarrow> (Inl (ConnectFailed m), w1)
      | (Inr fd, w1) \<Rightarrow>
          (case net_write E fd (as_bytes (http_request path authority)) w1 of
             (Inl m, w2) \<Rightarrow> (Inl (WriteFailed m), w2)
           | (Inr _, w2) \<Rightarrow>
               (case fetch_loop E fd max_bytes [] w2 of
                  (Inl e, w3) \<Rightarrow> (Inl e, w3)
                | (Inr raw, w3) \<Rightarrow> (parse_http_response raw, w3))))"

section \<open>Error texts\<close>

text \<open>\<open>Display\<close> of an address: dotted decimal, or segments with the longest zero run elided.\<close>

definition show_v4 :: "byte \<Rightarrow> byte \<Rightarrow> byte \<Rightarrow> byte \<Rightarrow> string" where
  "show_v4 a b c d = join ''.'' (map (show_nat \<circ> unat) [a, b, c, d])"

fun zero_run :: "u16 list \<Rightarrow> nat" where
  "zero_run [] = 0"
| "zero_run (s # ss) = (if s = 0 then Suc (zero_run ss) else 0)"

definition longest_zeros :: "u16 list \<Rightarrow> nat \<times> nat" where
  "longest_zeros ss = foldl (\<lambda>(st, ln) i. if ln < zero_run (drop i ss) then (i, zero_run (drop i ss)) else (st, ln))
     (0, 0) [0..<length ss]"

definition show_segs :: "u16 list \<Rightarrow> string" where
  "show_segs ss = join '':'' (map (show_hex \<circ> unat) ss)"

fun show_ip :: "ip_addr \<Rightarrow> string" where
  "show_ip (V4 a b c d) = show_v4 a b c d"
| "show_ip (V6 s0 s1 s2 s3 s4 s5 s6 s7) =
     (if s0 = 0 \<and> s1 = 0 \<and> s2 = 0 \<and> s3 = 0 \<and> s4 = 0 \<and> s5 = 0xffff
      then ''::ffff:'' @ show_v4 (ucast (drop_bit 8 s6)) (ucast s6) (ucast (drop_bit 8 s7)) (ucast s7)
      else (let ss = [s0, s1, s2, s3, s4, s5, s6, s7] in
        case longest_zeros ss of (st, ln) \<Rightarrow>
          if 1 < ln then show_segs (take st ss) @ ''::'' @ show_segs (drop (st + ln) ss)
          else show_segs ss))"

text \<open>\<open>{:02X}\<close> of the decoded separator, which is one of three bytes.\<close>

definition net_error_text :: "(nat \<Rightarrow> bool) \<Rightarrow> net_error \<Rightarrow> string" where
  "net_error_text esc e = (case e of
     TargetNoSlash s \<Rightarrow> (''request-target '' @ U [0x5FC5, 0x987B, 0x4EE5] @ '' / ''
       @ U [0x8D77, 0x59CB] @ '': '') @ debug_str esc s
   | TargetDoubleSlash s \<Rightarrow> (U [0x62D2, 0x7EDD] @ '' // '' @ U [0x5F00, 0x5934]
     @ ''(authority-form '' @ U [0x6B67, 0x4E49] @ ''): '') @ debug_str esc s
   | TargetBadChar s \<Rightarrow> (''request-target '' @ U [0x542B, 0x975E, 0x6CD5, 0x5B57,
     0x7B26] @ ''(control/'' @ U [0x7A7A, 0x767D] @ ''/'' @ U [0x53CD, 0x659C, 0x6760] @ ''): '')
       @ debug_str esc s
   | MalformedEscape s \<Rightarrow> ''malformed %-escape: '' @ debug_str esc s
   | EncodedSeparator d s \<Rightarrow> (U [0x62D2, 0x7EDD] @ '' percent-encoded separator/dot(%'')
       @ (if d = 0x2F then ''2F'' else if d = 0x5C then ''5C'' else ''2E'') @ ''): ''
         @ debug_str esc s
   | AboveRoot s \<Rightarrow> (U [0x8DEF, 0x5F84, 0x7A7F, 0x8D8A, 0x5230, 0x6839, 0x4E4B,
     0x4E0A] @ '': '') @ debug_str esc s
   | HostLength s \<Rightarrow> (''host '' @ U [0x975E, 0x6CD5, 0x957F, 0x5EA6] @ '': '')
     @ debug_str esc s
   | HostBracket s \<Rightarrow> (''IPv6 literal '' @ U [0x62EC, 0x53F7, 0x4E0D, 0x5339, 0x914D]
     @ '': '') @ debug_str esc s
   | HostBadIpv6 s \<Rightarrow> (U [0x975E, 0x6CD5] @ '' IPv6 literal: '') @ debug_str esc s
   | HostBadChar s \<Rightarrow> (''host '' @ U [0x542B, 0x975E, 0x6CD5, 0x5B57, 0x7B26]
     @ ''([]:): '') @ debug_str esc s
   | HostLabelLength s \<Rightarrow> (''host label '' @ U [0x957F, 0x5EA6, 0x975E, 0x6CD5]
     @ ''('' @ U [0x7A7A] @ ''/'' @ U [0x8FDE, 0x7EED, 0x70B9] @ ''/'' @ U [0x8D85] @ '' 63): '')
       @ debug_str esc s
   | HostLabelHyphen s \<Rightarrow> (''host label '' @ U [0x4E0D, 0x5F97, 0x4EE5, 0x8FDE, 0x5B57,
     0x7B26, 0x8D77, 0x6B62] @ '': '') @ debug_str esc s
   | HostLabelChar s \<Rightarrow> (''host label '' @ U [0x542B, 0x975E, 0x6CD5, 0x5B57, 0x7B26]
     @ ''('' @ U [0x4EC5] @ '' alnum/-): '') @ debug_str esc s
   | HostAllNumeric s \<Rightarrow> (''host '' @ U [0x5F62, 0x4F3C] @ '' IPv4 '' @ U [0x4F46,
     0x975E, 0x6CD5] @ '': '') @ debug_str esc s
   | MetadataHost s \<Rightarrow> (''egress '' @ U [0x62D2, 0x7EDD] @ '':metadata '' @ U [0x4E3B,
     0x673A] @ '' '') @ s
   | DnsFailed m \<Rightarrow> (''DNS '' @ U [0x89E3, 0x6790, 0x5931, 0x8D25] @ '': '') @ m
   | DnsEmpty s \<Rightarrow> (''egress '' @ U [0x62D2, 0x7EDD] @ '':'') @ s @ ('' '' @ U [0x65E0,
     0x89E3, 0x6790, 0x7ED3, 0x679C])
   | BlockedIp s ip \<Rightarrow> (''egress '' @ U [0x62D2, 0x7EDD] @ '':'') @ s @ ('' ''
     @ U [0x89E3, 0x6790, 0x5230, 0x88AB, 0x7981] @ '' IP '') @ show_ip ip
       @ ''(private/loopback/link-local/metadata)''
   | FetchControlChar \<Rightarrow> (''fetch_get '' @ U [0x62D2, 0x7EDD] @ '':path/authority ''
     @ U [0x542B, 0x63A7, 0x5236, 0x5B57, 0x7B26] @ ''('' @ U [0x6CE8, 0x5165, 0x9632, 0x62A4]
       @ '')'')
   | ConnectFailed m \<Rightarrow> (''connect '' @ U [0x5931, 0x8D25] @ '': '') @ m
   | WriteFailed m \<Rightarrow> (''write '' @ U [0x5931, 0x8D25] @ '': '') @ m
   | NetReadFailed m \<Rightarrow> (''read '' @ U [0x5931, 0x8D25] @ '': '') @ m
   | NoHeaderEnd \<Rightarrow> (''HTTP '' @ U [0x54CD, 0x5E94, 0x65E0] @ '' header '' @ U [0x7ED3,
     0x675F])
   | BadStatus \<Rightarrow> (U [0x65E0, 0x6CD5, 0x89E3, 0x6790] @ '' HTTP status''))"

section \<open>Refused addresses, by network\<close>

text \<open>The blocks the source's comments name, as (network, prefix length).\<close>

definition blocked_cidrs :: "(nat \<times> nat) list" where
  "blocked_cidrs = [
     (0, 8), (10 * 2 ^ 24, 8), (100 * 2 ^ 24 + 64 * 2 ^ 16, 10), (127 * 2 ^ 24, 8),
     (169 * 2 ^ 24 + 254 * 2 ^ 16, 16), (172 * 2 ^ 24 + 16 * 2 ^ 16, 12),
     (192 * 2 ^ 24 + 2 * 2 ^ 8, 24), (192 * 2 ^ 24 + 88 * 2 ^ 16 + 99 * 2 ^ 8, 24),
     (192 * 2 ^ 24 + 168 * 2 ^ 16, 16), (198 * 2 ^ 24 + 51 * 2 ^ 16 + 100 * 2 ^ 8, 24),
     (203 * 2 ^ 24 + 113 * 2 ^ 8, 24), (224 * 2 ^ 24, 4), (240 * 2 ^ 24, 4)]"

definition addr32 :: "byte \<Rightarrow> byte \<Rightarrow> byte \<Rightarrow> byte \<Rightarrow> nat" where
  "addr32 a b c d = unat a * 2 ^ 24 + unat b * 2 ^ 16 + unat c * 2 ^ 8 + unat d"

definition in_cidr :: "nat \<Rightarrow> nat \<times> nat \<Rightarrow> bool" where
  "in_cidr x blk \<longleftrightarrow> x div 2 ^ (32 - snd blk) = fst blk div 2 ^ (32 - snd blk)"

lemma byte_lt: "unat (a :: byte) < 256"
  using unsigned_less [of a, where 'a = nat] by simp

lemma all_bytes: "(\<forall>b :: byte. P b) \<longleftrightarrow> list_all (\<lambda>n. P (word_of_nat n)) [0..<256]"
  by (auto simp: list_all_iff) (metis atLeastLessThan_iff byte_lt of_nat_unat ucast_id zero_le)

lemma cgnat_mask: "((b :: byte) AND 0xc0 = 64) \<longleftrightarrow> unat b div 64 = 1"
proof -
  have "\<forall>b :: byte. (b AND 0xc0 = 64) \<longleftrightarrow> unat b div 64 = 1"
    unfolding all_bytes by (simp add: upt_rec)
  then show ?thesis by blast
qed

lemma digit_split: "q < r \<Longrightarrow> (p * r + q = (k :: nat)) \<longleftrightarrow> p = k div r \<and> q = k mod r"
  by auto

lemma div_block:
  assumes "0 < r"
  shows "(y :: nat) div r = k \<longleftrightarrow> k * r \<le> y \<and> y < Suc k * r"
proof -
  have "y div r = k \<longleftrightarrow> k \<le> y div r \<and> y div r < Suc k" by auto
  then show ?thesis using assms
    by (simp only: less_eq_div_iff_mult_less_eq div_less_iff_less_mult)
qed

lemma prefix_of_address:
  "addr32 a b c d div 2 ^ 8 = (unat a * 256 + unat b) * 256 + unat c" (is ?t24)
  "addr32 a b c d div 2 ^ 16 = unat a * 256 + unat b" (is ?t16)
  "addr32 a b c d div 2 ^ 20 = unat a * 16 + unat b div 16" (is ?t12)
  "addr32 a b c d div 2 ^ 22 = unat a * 4 + unat b div 64" (is ?t10)
  "addr32 a b c d div 2 ^ 24 = unat a" (is ?t8)
  "addr32 a b c d div 2 ^ 28 = unat a div 16" (is ?t4)
proof -
  have steps: "(p * 256 + q) div 256 = p" if "q < 256" for p q :: nat using that by simp
  have "addr32 a b c d = ((unat a * 256 + unat b) * 256 + unat c) * 256 + unat d"
    by (simp add: addr32_def)
  then show t24: ?t24 using steps [OF byte_lt [of d]] by simp
  have "addr32 a b c d div 2 ^ 16 = addr32 a b c d div 2 ^ 8 div 2 ^ 8"
    by (simp add: div_mult2_eq [symmetric])
  then show t16: ?t16 using steps [OF byte_lt [of c]] unfolding t24 by simp
  have "addr32 a b c d div 2 ^ 24 = addr32 a b c d div 2 ^ 16 div 2 ^ 8"
    by (simp add: div_mult2_eq [symmetric])
  then show t8: ?t8 using steps [OF byte_lt [of b]] unfolding t16 by simp
  have "addr32 a b c d div 2 ^ 20 = addr32 a b c d div 2 ^ 16 div 16"
    by (simp add: div_mult2_eq [symmetric])
  then show ?t12 unfolding t16 by (simp add: mult.commute [of _ 256])
  have "addr32 a b c d div 2 ^ 22 = addr32 a b c d div 2 ^ 16 div 64"
    by (simp add: div_mult2_eq [symmetric])
  then show ?t10 unfolding t16 by simp
  have "addr32 a b c d div 2 ^ 28 = addr32 a b c d div 2 ^ 24 div 16"
    by (simp add: div_mult2_eq [symmetric])
  then show ?t4 unfolding t8 .
qed

lemma in_cidr_prefix:
  "in_cidr (addr32 a b c d) (n, 4) \<longleftrightarrow> unat a div 16 = n div 2 ^ 28"
  "in_cidr (addr32 a b c d) (n, 8) \<longleftrightarrow> unat a = n div 2 ^ 24"
  "in_cidr (addr32 a b c d) (n, 10) \<longleftrightarrow> unat a * 4 + unat b div 64 = n div 2 ^ 22"
  "in_cidr (addr32 a b c d) (n, 12) \<longleftrightarrow> unat a * 16 + unat b div 16 = n div 2 ^ 20"
  "in_cidr (addr32 a b c d) (n, 16) \<longleftrightarrow> unat a * 256 + unat b = n div 2 ^ 16"
  "in_cidr (addr32 a b c d) (n, 24) \<longleftrightarrow> (unat a * 256 + unat b) * 256 + unat c = n div 2 ^ 8"
  by (simp_all add: in_cidr_def prefix_of_address [simplified])

lemma is_blocked_v4_cidr:
  "is_blocked_v4 a b c d \<longleftrightarrow> list_ex (in_cidr (addr32 a b c d)) blocked_cidrs"
proof -
  define x y z where xyz: "x = unat a" "y = unat b" "z = unat c"
  have lt: "x < 256" "y < 256" "z < 256" using byte_lt by (auto simp: xyz)
  have "list_ex (in_cidr (addr32 a b c d)) blocked_cidrs \<longleftrightarrow>
     x = 0 \<or> x = 10 \<or> x * 4 + y div 64 = 401 \<or> x = 127 \<or> x * 256 + y = 43518
     \<or> x * 16 + y div 16 = 2753 \<or> (x * 256 + y) * 256 + z = 12582914
     \<or> (x * 256 + y) * 256 + z = 12605539 \<or> x * 256 + y = 49320
     \<or> (x * 256 + y) * 256 + z = 12989284 \<or> (x * 256 + y) * 256 + z = 13303921
     \<or> x div 16 = 14 \<or> x div 16 = 15"
    by (simp add: blocked_cidrs_def in_cidr_prefix xyz)
  also have "\<dots> \<longleftrightarrow> x = 0 \<or> x = 10 \<or> x * 4 + y div 64 = 401 \<or> x = 127 \<or> (x = 169 \<and> y = 254)
     \<or> x * 16 + y div 16 = 2753 \<or> ((x = 192 \<and> y = 0) \<and> z = 2)
     \<or> ((x = 192 \<and> y = 88) \<and> z = 99) \<or> (x = 192 \<and> y = 168)
     \<or> ((x = 198 \<and> y = 51) \<and> z = 100) \<or> ((x = 203 \<and> y = 0) \<and> z = 113)
     \<or> x div 16 = 14 \<or> x div 16 = 15"
    unfolding digit_split [OF lt(3)] digit_split [OF lt(2)] by simp
  also have "x * 4 + y div 64 = 401 \<longleftrightarrow> x = 100 \<and> y div 64 = 1"
    using lt(2) by (subst digit_split) simp_all
  also have "x * 16 + y div 16 = 2753 \<longleftrightarrow> x = 172 \<and> y div 16 = 1"
    using lt(2) by (subst digit_split) simp_all
  also have "y div 16 = 1 \<longleftrightarrow> 16 \<le> y \<and> y \<le> 31"
    by (simp add: div_block) arith
  finally have nets: "list_ex (in_cidr (addr32 a b c d)) blocked_cidrs \<longleftrightarrow>
     x = 0 \<or> x = 10 \<or> x = 100 \<and> y div 64 = 1 \<or> x = 127 \<or> x = 169 \<and> y = 254
     \<or> x = 172 \<and> 16 \<le> y \<and> y \<le> 31 \<or> (x = 192 \<and> y = 0) \<and> z = 2
     \<or> (x = 192 \<and> y = 88) \<and> z = 99 \<or> x = 192 \<and> y = 168
     \<or> (x = 198 \<and> y = 51) \<and> z = 100 \<or> (x = 203 \<and> y = 0) \<and> z = 113
     \<or> x div 16 = 14 \<or> x div 16 = 15" .
  have blk: "is_blocked_v4 a b c d \<longleftrightarrow>
     x = 127 \<or> (x = 10 \<or> (x = 172 \<and> 16 \<le> y \<and> y \<le> 31) \<or> (x = 192 \<and> y = 168))
     \<or> (x = 169 \<and> y = 254) \<or> (x = 0 \<and> y = 0 \<and> z = 0 \<and> unat d = 0)
     \<or> (x = 255 \<and> y = 255 \<and> z = 255 \<and> unat d = 255) \<or> (224 \<le> x \<and> x \<le> 239)
     \<or> ((x = 192 \<and> y = 0 \<and> z = 2) \<or> (x = 198 \<and> y = 51 \<and> z = 100) \<or> (x = 203 \<and> y = 0 \<and> z = 113))
     \<or> x = 0 \<or> 240 \<le> x \<or> (x = 100 \<and> y div 64 = 1) \<or> (x = 192 \<and> y = 88 \<and> z = 99)"
    by (simp only: is_blocked_v4_def v4_is_loopback_def v4_is_private_def v4_is_link_local_def
      v4_is_unspecified_def v4_is_broadcast_def v4_is_multicast_def v4_is_documentation_def
      word_unat_eq_iff word_le_nat_alt xyz)
      (simp add: cgnat_mask [unfolded word_unat_eq_iff, simplified])
  have "x div 16 = 14 \<longleftrightarrow> 224 \<le> x \<and> x \<le> 239" by (simp add: div_block) arith
  moreover have "x div 16 = 15 \<longleftrightarrow> 240 \<le> x" using lt(1) by (simp add: div_block)
  ultimately have "is_blocked_v4 a b c d \<longleftrightarrow>
     list_ex (in_cidr (addr32 a b c d)) blocked_cidrs" if "x \<noteq> 255" "x \<noteq> 0"
    using that by (simp only: nets blk conj_assoc disj_assoc simp_thms disj_ac)
  moreover have ?thesis if "x = 255" using that by (simp add: nets blk)
  moreover have ?thesis if "x = 0" using that by (simp add: nets blk)
  ultimately show ?thesis by blast
qed

end
