(* ===== verification/Egress.thy ===== *)
theory Egress
  imports Net
begin

text \<open>
  What the egress policy of \<open>net.rs\<close> promises, in the terms of the documents it follows: the
  refused addresses as networks, canonical request targets, allowlist patterns as a language of
  paths, and the limits of a fetch.
\<close>

section \<open>Addresses\<close>

definition addr128 :: "u16 list \<Rightarrow> nat" where
  "addr128 ss = foldl (\<lambda>acc s. acc * 2 ^ 16 + unat s) 0 ss"

definition in_cidr6 :: "nat \<Rightarrow> nat \<times> nat \<Rightarrow> bool" where
  "in_cidr6 x blk \<longleftrightarrow> x div 2 ^ (128 - snd blk) = fst blk div 2 ^ (128 - snd blk)"

definition blocked_cidrs6 :: "(nat \<times> nat) list" where
  "blocked_cidrs6 = [(0, 128), (1, 128), (0xff00 * 2 ^ 112, 8), (0xfc00 * 2 ^ 112, 7),
    (0xfe80 * 2 ^ 112, 10)]"

text \<open>The networks that embed an IPv4 address in the last 32 bits: \<open>::/96\<close> and \<open>::ffff:0:0/96\<close>.\<close>

definition embedding_cidrs :: "(nat \<times> nat) list" where
  "embedding_cidrs = [(0, 96), (0xffff * 2 ^ 32, 96)]"

fun refused_address :: "ip_addr \<Rightarrow> bool" where
  "refused_address (V4 a b c d) = list_ex (in_cidr (addr32 a b c d)) blocked_cidrs"
| "refused_address (V6 s0 s1 s2 s3 s4 s5 s6 s7) =
     (let x = addr128 [s0, s1, s2, s3, s4, s5, s6, s7] in
      list_ex (in_cidr6 x) blocked_cidrs6
      \<or> (list_ex (in_cidr6 x) embedding_cidrs \<and> list_ex (in_cidr (x mod 2 ^ 32)) blocked_cidrs))"

lemma seg_lt: "unat (s :: u16) < 2 ^ 16"
  using unsigned_less [of s, where 'a = nat] by simp

lemma seg_drop: "unat (drop_bit k (s :: u16)) = unat s div 2 ^ k"
  using seg_lt [of s] by (subst unsigned_drop_bit_eq) (simp add: drop_bit_eq_div take_bit_eq_mod)

lemma pair_digits:
  assumes "(q :: nat) < r" "q' < r"
  shows "p * r + q = p' * r + q' \<longleftrightarrow> p = p' \<and> q = q'"
proof -
  have "(p * r + q) div r = p" "(p' * r + q') div r = p'" "(p * r + q) mod r = q" "(p' * r + q') mod r = q'"
    using assms by auto
  then show ?thesis by metis
qed

lemma addr128_snoc: "addr128 (ss @ [s]) = addr128 ss * 2 ^ 16 + unat s"
  by (simp add: addr128_def)

lemma addr128_div: "addr128 (ss @ ts) div 2 ^ (16 * length ts) = addr128 ss"
proof (induction ts rule: rev_induct)
  case (snoc t ts)
  have "(2 :: nat) ^ (16 * length (ts @ [t])) = 2 ^ 16 * 2 ^ (16 * length ts)"
    by (simp add: power_add)
  moreover have "addr128 (ss @ ts @ [t]) = addr128 (ss @ ts) * 2 ^ 16 + unat t"
    using addr128_snoc [of "ss @ ts" t] by simp
  moreover have "(addr128 (ss @ ts) * 2 ^ 16 + unat t) div 2 ^ 16 = addr128 (ss @ ts)"
    using seg_lt [of t] by simp
  ultimately show ?case using snoc by (simp only: div_mult2_eq)
qed simp

lemma addr128_inject: "length ss = length ts \<Longrightarrow> addr128 ss = addr128 ts \<longleftrightarrow> ss = ts"
proof (induction ss arbitrary: ts rule: rev_induct)
  case (snoc s ss)
  then obtain us u where ts: "ts = us @ [u]" "length us = length ss"
    by (cases ts rule: rev_cases) auto
  have "addr128 ss * 2 ^ 16 + unat s = addr128 us * 2 ^ 16 + unat u \<longleftrightarrow> addr128 ss = addr128 us \<and> unat s = unat u"
    by (rule pair_digits [OF seg_lt seg_lt])
  then show ?case using snoc.IH [of us] ts by (simp add: addr128_snoc word_unat_eq_iff)
qed simp

lemma addr128_mod: "addr128 (ss @ [s, t]) mod 2 ^ 32 = unat s * 2 ^ 16 + unat t"
proof -
  have "unat s * 2 ^ 16 + unat t < 2 ^ 32" using seg_lt [of s] seg_lt [of t] by simp
  moreover have "addr128 (ss @ [s, t]) = addr128 ss * 2 ^ 32 + (unat s * 2 ^ 16 + unat t)"
    by (simp add: addr128_def algebra_simps)
  ultimately show ?thesis by (simp del: mult_Suc_right)
qed

text \<open>The two halves of a segment.\<close>

lemma seg_bytes: "unat (ucast (drop_bit 8 s) :: byte) * 2 ^ 8 + unat (ucast s :: byte) = unat (s :: u16)"
proof -
  have "unat (ucast s :: byte) = unat s mod 2 ^ 8" by (simp add: unsigned_ucast_eq take_bit_eq_mod)
  moreover have "unat (ucast (drop_bit 8 s) :: byte) = unat s div 2 ^ 8"
  proof -
    note seg_drop [of 8 s]
    moreover have "unat s div 2 ^ 8 < 2 ^ 8" using seg_lt [of s] by simp
    ultimately show ?thesis by (simp only: unsigned_ucast_eq take_bit_eq_mod) simp
  qed
  ultimately show ?thesis by simp
qed

lemma embedded_addr:
  fixes s t :: u16
  shows "addr32 (ucast (drop_bit 8 s)) (ucast s) (ucast (drop_bit 8 t)) (ucast t) = unat s * 2 ^ 16 + unat t"
  using seg_bytes [of s] seg_bytes [of t] by (simp add: addr32_def)

text \<open>Masks of the first segment as quotients.\<close>

lemma high_bits:
  fixes s n :: u16
  assumes "n AND NOT (mask k) = n"
  shows "s AND NOT (mask k) = n \<longleftrightarrow> unat s div 2 ^ k = unat n div 2 ^ k"
proof -
  have high: "a AND NOT (mask k) = push_bit k (drop_bit k a)" for a :: u16
    by (rule bit_word_eqI) (auto simp: bit_simps)
  have again: "drop_bit k (push_bit k (drop_bit k a)) = drop_bit k a" for a :: u16
    by (rule bit_word_eqI) (auto simp: bit_simps dest: bit_imp_le_length)
  have "s AND NOT (mask k) = n AND NOT (mask k) \<longleftrightarrow> drop_bit k s = drop_bit k n"
    unfolding high using again by metis
  also have "\<dots> \<longleftrightarrow> unat s div 2 ^ k = unat n div 2 ^ k"
    by (simp only: word_unat_eq_iff seg_drop)
  finally show ?thesis unfolding assms .
qed

lemma in_cidr6_segments:
  fixes s0 s1 s2 s3 s4 s5 s6 s7 :: u16
  defines "x \<equiv> addr128 [s0, s1, s2, s3, s4, s5, s6, s7]"
  shows "k \<le> 16 \<Longrightarrow> in_cidr6 x (n * 2 ^ 112, 16 - k) \<longleftrightarrow> unat s0 div 2 ^ k = n div 2 ^ k"
    and "in_cidr6 x (n, 96) \<longleftrightarrow> addr128 [s0, s1, s2, s3, s4, s5] = n div 2 ^ 32"
    and "in_cidr6 x (n, 128) \<longleftrightarrow> x = n"
proof -
  have hi: "x div 2 ^ 112 = unat s0"
    using addr128_div [of "[s0]" "[s1, s2, s3, s4, s5, s6, s7]"] by (simp add: x_def addr128_def)
  have lo: "x div 2 ^ 32 = addr128 [s0, s1, s2, s3, s4, s5]"
    using addr128_div [of "[s0, s1, s2, s3, s4, s5]" "[s6, s7]"] by (simp add: x_def)
  show "in_cidr6 x (n * 2 ^ 112, 16 - k) \<longleftrightarrow> unat s0 div 2 ^ k = n div 2 ^ k" if "k \<le> 16"
  proof -
    have "128 - (16 - k) = 112 + k" using that by simp
    then have "(2 :: nat) ^ (128 - (16 - k)) = 2 ^ 112 * 2 ^ k" by (simp only: power_add)
    moreover have "n * 2 ^ 112 div 2 ^ 112 = n" by simp
    ultimately show ?thesis unfolding in_cidr6_def snd_conv fst_conv by (simp only: div_mult2_eq hi)
  qed
  show "in_cidr6 x (n, 96) \<longleftrightarrow> addr128 [s0, s1, s2, s3, s4, s5] = n div 2 ^ 32"
    by (simp add: in_cidr6_def lo [simplified])
  show "in_cidr6 x (n, 128) \<longleftrightarrow> x = n" by (simp add: in_cidr6_def)
qed

lemma refused_v6_heads:
  fixes s0 :: u16
  shows "s0 AND 0xff00 = 0xff00 \<longleftrightarrow> unat s0 div 2 ^ 8 = 0xff00 div 2 ^ 8"
    and "s0 AND 0xfe00 = 0xfc00 \<longleftrightarrow> unat s0 div 2 ^ 9 = 0xfc00 div 2 ^ 9"
    and "s0 AND 0xffc0 = 0xfe80 \<longleftrightarrow> unat s0 div 2 ^ 6 = 0xfe80 div 2 ^ 6"
proof -
  have m: "NOT (mask 8) = (0xff00 :: u16)" "NOT (mask 9) = (0xfe00 :: u16)" "NOT (mask 6) = (0xffc0 :: u16)"
    by (simp_all add: mask_eq_exp_minus_1)
  show "s0 AND 0xff00 = 0xff00 \<longleftrightarrow> unat s0 div 2 ^ 8 = 0xff00 div 2 ^ 8"
    using high_bits [of "0xff00" 8 s0] by (simp add: m)
  show "s0 AND 0xfe00 = 0xfc00 \<longleftrightarrow> unat s0 div 2 ^ 9 = 0xfc00 div 2 ^ 9"
    using high_bits [of "0xfc00" 9 s0] by (simp add: m)
  show "s0 AND 0xffc0 = 0xfe80 \<longleftrightarrow> unat s0 div 2 ^ 6 = 0xfe80 div 2 ^ 6"
    using high_bits [of "0xfe80" 6 s0] by (simp add: m)
qed

text \<open>
  C27: The refused addresses are exactly networks: an IPv4 address is refused when it is in one of
  thirteen blocks, an IPv6 address when it is in one of five or embeds, IPv4-compatible or
  IPv4-mapped, a refused IPv4 address. The tests by octets and masks leave no gap and add nothing.
\<close>

theorem refused_networks: "is_blocked_ip ip = refused_address ip"
proof (cases ip)
  case (V4 a b c d)
  then show ?thesis by (simp add: is_blocked_v4_cidr)
next
  case (V6 s0 s1 s2 s3 s4 s5 s6 s7)
  let ?x = "addr128 [s0, s1, s2, s3, s4, s5, s6, s7]"
  note head = in_cidr6_segments(1) [of _ s0 s1 s2 s3 s4 s5 s6 s7]
  have one: "?x = 0 \<longleftrightarrow> [s0, s1, s2, s3, s4, s5, s6, s7] = [0, 0, 0, 0, 0, 0, 0, 0]"
    "?x = 1 \<longleftrightarrow> [s0, s1, s2, s3, s4, s5, s6, s7] = [0, 0, 0, 0, 0, 0, 0, 1]"
    using addr128_inject [of "[s0, s1, s2, s3, s4, s5, s6, s7]" "[0, 0, 0, 0, 0, 0, 0, 0]"]
      addr128_inject [of "[s0, s1, s2, s3, s4, s5, s6, s7]" "[0, 0, 0, 0, 0, 0, 0, 1]"]
    by (simp_all add: addr128_def)
  have emb: "addr128 [s0, s1, s2, s3, s4, s5] = 0 \<longleftrightarrow> [s0, s1, s2, s3, s4, s5] = [0, 0, 0, 0, 0, 0]"
    "addr128 [s0, s1, s2, s3, s4, s5] = 0xffff \<longleftrightarrow> [s0, s1, s2, s3, s4, s5] = [0,
      0, 0, 0, 0, 0xffff]"
    using addr128_inject [of "[s0, s1, s2, s3, s4, s5]" "[0, 0, 0, 0, 0, 0]"]
      addr128_inject [of "[s0, s1, s2, s3, s4, s5]" "[0, 0, 0, 0, 0, 0xffff]"]
    by (simp_all add: addr128_def)
  have nets: "list_ex (in_cidr6 ?x) blocked_cidrs6 \<longleftrightarrow>
      [s0, s1, s2, s3, s4, s5, s6, s7] = [0, 0, 0, 0, 0, 0, 0, 0]
      \<or> [s0, s1, s2, s3, s4, s5, s6, s7] = [0, 0, 0, 0, 0, 0, 0, 1]
      \<or> s0 AND 0xff00 = 0xff00 \<or> s0 AND 0xfe00 = 0xfc00 \<or> s0 AND 0xffc0 = 0xfe80"
    unfolding refused_v6_heads blocked_cidrs6_def
    using head [of 8 "0xff00"] head [of 9 "0xfc00"] head [of 6 "0xfe80"]
    by (simp add: in_cidr6_segments(3) one [unfolded One_nat_def])
  have low: "?x mod 2 ^ 32 = addr32 (ucast (drop_bit 8 s6)) (ucast s6) (ucast (drop_bit 8 s7)) (ucast s7)"
    using addr128_mod [of "[s0, s1, s2, s3, s4, s5]" s6 s7] by (simp only: embedded_addr) simp
  have wrap: "list_ex (in_cidr6 ?x) embedding_cidrs \<longleftrightarrow>
      s0 = 0 \<and> s1 = 0 \<and> s2 = 0 \<and> s3 = 0 \<and> s4 = 0 \<and> (s5 = 0 \<or> s5 = 0xffff)"
    by (auto simp: embedding_cidrs_def in_cidr6_segments(2) emb)
  show ?thesis
    by (simp only: V6 is_blocked_ip.simps refused_address.simps Let_def nets wrap low is_blocked_v4_cidr
      is_ula_def is_link_local_v6_def to_ipv4.simps) (auto simp: is_blocked_v4_cidr)
qed

text \<open>Special-use networks the list leaves out: NAT64, 6to4 and site-local wrappers, benchmarking.\<close>

lemma special_use_not_refused:
  "\<not> is_blocked_ip (V6 0x64 0xff9b 0 0 0 0 0x7f00 1) \<and> \<not> is_blocked_ip (V6 0x2002 0x7f00 1 0 0 0 0 1)
   \<and> \<not> is_blocked_ip (V6 0xfec0 0 0 0 0 0 0 1) \<and> \<not> is_blocked_ip (V4 198 18 0 1)"
  by (simp add: is_blocked_v4_def v4_is_loopback_def v4_is_private_def v4_is_link_local_def
    v4_is_unspecified_def v4_is_broadcast_def v4_is_multicast_def v4_is_documentation_def
    is_ula_def is_link_local_v6_def)

section \<open>Request targets\<close>

abbreviation escapes_ok :: "string \<Rightarrow> bool" where
  "escapes_ok xs \<equiv> scan_percent [] xs = Inr ()"

lemma escapes_ok_any: "scan_percent s xs = Inr () \<longleftrightarrow> escapes_ok xs"
  by (induction s xs rule: scan_percent.induct) (auto simp: Let_def split: list.splits option.splits)

lemma hexval_slash [simp]: "hexval (CHR ''/'') = None"
  by (simp add: hexval_def)

lemma escapes_ok_slash: "escapes_ok (a @ CHR ''/'' # b) \<longleftrightarrow> escapes_ok a \<and> escapes_ok b"
proof (induction "[] :: string" a rule: scan_percent.induct)
  case (2 x xs)
  show ?case
  proof (cases "x = CHR ''%''")
    case True
    show ?thesis
    proof (cases xs)
      case Nil
      then show ?thesis using True by (cases b) auto
    next
      case (Cons h1 ys)
      show ?thesis
      proof (cases ys)
        case Nil
        then show ?thesis using True Cons by (auto split: option.splits)
      next
        case (Cons h2 rest)
        then show ?thesis using True \<open>xs = h1 # ys\<close> 2(1) [of h1 ys h2 rest]
          by (auto simp: Let_def split: option.splits)
      qed
    qed
  qed (use 2 in auto)
qed simp

lemma escapes_ok_join: "escapes_ok (join ''/'' ps) \<longleftrightarrow> list_all escapes_ok ps"
  by (induction "''/''" ps rule: join.induct) (auto simp: escapes_ok_slash)

text \<open>A segment that survives the dot-segment loop, and what the loop does to such segments.\<close>

definition clean_seg :: "string \<Rightarrow> bool" where
  "clean_seg p \<longleftrightarrow> p \<noteq> [] \<and> p \<noteq> ''.'' \<and> p \<noteq> ''..'' \<and> CHR ''/'' \<notin> set p"

lemma dot_loop_set: "dot_loop path out segs = Inr r \<Longrightarrow> set r \<subseteq> set out \<union> set segs"
  by (induction path out segs rule: dot_loop.induct) (auto split: if_splits list.splits)

lemma dot_loop_clean:
  assumes "dot_loop path out segs = Inr r" "list_all clean_seg out" "\<forall>p \<in> set segs. CHR ''/'' \<notin> set p"
  shows "list_all clean_seg r"
  using assms
proof (induction path out segs rule: dot_loop.induct)
  case (2 path out seg segs)
  show ?case
  proof (cases "seg = [] \<or> seg = ''.'' \<or> seg = ''..''")
    case True
    then show ?thesis using 2 by (cases out) (auto split: if_splits)
  next
    case False
    then have "clean_seg seg" using 2(6) by (simp add: clean_seg_def)
    then show ?thesis using 2 False by simp
  qed
qed (auto simp: list_all_iff)

lemma dot_loop_id: "list_all clean_seg segs \<Longrightarrow> dot_loop path out segs = Inr (rev out @ segs)"
  by (induction segs arbitrary: out) (auto simp: clean_seg_def)

lemma split_on_slash_join:
  assumes "list_all clean_seg segs"
  shows "dot_loop path [] (split_on (CHR ''/'') (CHR ''/'' # join ''/'' segs)) = Inr segs"
proof (cases "segs = []")
  case False
  then have "split_on (CHR ''/'') (join ''/'' segs) = segs"
    using assms by (intro split_on_join) (auto simp: list_all_iff clean_seg_def)
  then show ?thesis using dot_loop_id [OF assms, of path "[]"] by simp
qed simp

lemma remove_dot_segments_shape:
  assumes "remove_dot_segments path = Inr norm"
  obtains segs where "norm = CHR ''/'' # join ''/'' segs" "list_all clean_seg segs"
    "set segs \<subseteq> set (split_on (CHR ''/'') path)"
proof -
  obtain segs where d: "dot_loop path [] (split_on (CHR ''/'') path) = Inr segs"
      "norm = CHR ''/'' # join ''/'' segs"
    using assms by (auto simp: remove_dot_segments_def try_ok_Inr_iff)
  moreover have "list_all clean_seg segs"
    using dot_loop_clean [OF d(1)] split_on_pieces [of _ "CHR ''/''" path] by auto
  ultimately show thesis using that dot_loop_set [OF d(1)] by simp
qed

lemma escapes_ok_pieces:
  assumes "escapes_ok path" "set segs \<subseteq> set (split_on (CHR ''/'') path)"
  shows "escapes_ok (CHR ''/'' # join ''/'' segs)"
proof -
  have "list_all escapes_ok (split_on (CHR ''/'') path)"
    using assms(1) escapes_ok_join [of "split_on (CHR ''/'') path"] by simp
  then have "escapes_ok (join ''/'' segs)" using assms(2) by (auto simp: escapes_ok_join list_all_iff)
  then show ?thesis by simp
qed

lemma canonical_target_query:
  assumes "canonical_request_target raw = Inr t"
  obtains segs where "t = CHR ''/'' # join ''/'' segs @ dropWhile (\<lambda>c. c \<noteq> CHR ''?'') raw"
    "list_all clean_seg segs" "set (join ''/'' segs) \<subseteq> set (takeWhile (\<lambda>c. c \<noteq> CHR ''?'') raw)"
    "\<not> list_ex target_bad_byte raw" "escapes_ok (CHR ''/'' # join ''/'' segs)"
    "dropWhile (\<lambda>c. c \<noteq> CHR ''?'') raw = [] \<or> escapes_ok (dropWhile (\<lambda>c. c \<noteq> CHR ''?'') raw)"
proof -
  let ?path = "takeWhile (\<lambda>c. c \<noteq> CHR ''?'') raw" and ?q = "dropWhile (\<lambda>c. c \<noteq> CHR ''?'') raw"
  from assms obtain norm where n: "remove_dot_segments ?path = Inr norm" "t = norm @ ?q"
      and ok: "\<not> list_ex target_bad_byte raw" "escapes_ok ?path" "?q = [] \<or> escapes_ok ?q" "prefix ''/'' raw"
    by (auto simp: canonical_request_target_def Let_def try_ok_Inr_iff reject_bad_percent_def
      escapes_ok_any [of ?path] escapes_ok_any [of ?q] split: if_splits)
  obtain segs where s: "norm = CHR ''/'' # join ''/'' segs" "list_all clean_seg segs"
      "set segs \<subseteq> set (split_on (CHR ''/'') ?path)"
    using remove_dot_segments_shape [OF n(1)] by blast
  have "CHR ''/'' \<in> set ?path" using ok(4) by (cases raw) auto
  moreover have "set p \<subseteq> set ?path" if "p \<in> set segs" for p
    using that s(3) set_split_on [of p "CHR ''/''" ?path] by blast
  ultimately have "set (join ''/'' segs) \<subseteq> set ?path"
    using set_join_subset [of "''/''" segs] by fastforce
  with that n s ok escapes_ok_pieces [OF ok(2) s(3)] show thesis by simp
qed

lemma cut_at:
  assumes "\<forall>c \<in> set p. P c" "q = [] \<or> \<not> P (hd q)"
  shows "takeWhile P (p @ q) = p \<and> dropWhile P (p @ q) = q"
  using assms by (induction p) (cases q, auto)

lemma clean_join_hd:
  assumes "list_all clean_seg segs" "join ''/'' segs \<noteq> []"
  shows "hd (join ''/'' segs) \<noteq> CHR ''/''"
proof (cases segs)
  case (Cons p ps)
  then have "p \<noteq> []" "CHR ''/'' \<notin> set p" using assms(1) by (auto simp: clean_seg_def)
  then show ?thesis using Cons by (cases p; cases ps) auto
qed (use assms in simp)

lemma not_two_slashes:
  assumes "list_all clean_seg segs" "q = [] \<or> hd q = CHR ''?''"
  shows "\<not> prefix ''//'' (CHR ''/'' # join ''/'' segs @ q)"
proof (cases "join ''/'' segs")
  case Nil
  then show ?thesis using assms(2) by (cases q) auto
next
  case (Cons c cs)
  then show ?thesis using clean_join_hd [OF assms(1)] by simp
qed

lemma canonical_target_fixed:
  assumes cl: "list_all clean_seg segs" and noq: "\<forall>c \<in> set (join ''/'' segs). c \<noteq> CHR ''?''"
    and q: "q = [] \<or> hd q = CHR ''?''" and bad: "\<not> list_ex target_bad_byte (CHR ''/'' # join ''/'' segs @ q)"
    and ok: "escapes_ok (CHR ''/'' # join ''/'' segs)" "q = [] \<or> escapes_ok q"
  shows "canonical_request_target (CHR ''/'' # join ''/'' segs @ q) = Inr (CHR ''/'' # join ''/'' segs @ q)"
proof -
  let ?p = "CHR ''/'' # join ''/'' segs" let ?t = "CHR ''/'' # join ''/'' segs @ q"
  have cut: "takeWhile (\<lambda>c. c \<noteq> CHR ''?'') ?t = ?p" "dropWhile (\<lambda>c. c \<noteq> CHR ''?'') ?t = q"
    using cut_at [of ?p "\<lambda>c. c \<noteq> CHR ''?''" q] noq q by auto
  have "remove_dot_segments ?p = Inr ?p"
    using split_on_slash_join [OF cl] by (simp add: remove_dot_segments_def del: split_on.simps)
  moreover have "(if q = [] then Inr () else reject_bad_percent q) = Inr ()" "reject_bad_percent ?p = Inr ()"
    using ok by (auto simp: reject_bad_percent_def escapes_ok_any [of ?p] escapes_ok_any [of q])
  moreover have "prefix ''/'' ?t" by simp
  ultimately show ?thesis
    using not_two_slashes [OF cl q] bad
    unfolding canonical_request_target_def cut Let_def by (simp only: if_True if_False not_True_eq_False try_ok_simps append_Cons)
qed

text \<open>
  C28: A request target that is accepted is canonical. It is the path's segments, none of them empty,
  \<open>.\<close> or \<open>..\<close>, then the query as it came; no control character, blank or backslash is in it; and
  accepting it again changes nothing, so the allowlist and the request line see the same text.
\<close>

theorem request_target_canonical:
  assumes "canonical_request_target raw = Inr t"
  shows "(\<exists>segs. t = CHR ''/'' # join ''/'' segs @ dropWhile (\<lambda>c. c \<noteq> CHR ''?'') raw \<and> list_all clean_seg segs)
    \<and> \<not> list_ex target_bad_byte t \<and> canonical_request_target t = Inr t"
proof -
  define q where "q = dropWhile (\<lambda>c. c \<noteq> CHR ''?'') raw"
  obtain segs where t: "t = CHR ''/'' # join ''/'' segs @ q" and cl: "list_all clean_seg segs"
    and sub: "set (join ''/'' segs) \<subseteq> set (takeWhile (\<lambda>c. c \<noteq> CHR ''?'') raw)"
    and bad: "\<not> list_ex target_bad_byte raw" and ok: "escapes_ok (CHR ''/'' # join ''/'' segs)"
      "q = [] \<or> escapes_ok q"
    using canonical_target_query [OF assms] unfolding q_def by blast
  have noq: "\<forall>c \<in> set (join ''/'' segs). c \<noteq> CHR ''?''" using sub by (auto dest: set_takeWhileD)
  have q: "q = [] \<or> hd q = CHR ''?''" using hd_dropWhile [of "\<lambda>c. c \<noteq> CHR ''?''" raw] by (auto simp: q_def)
  have "set t \<subseteq> {CHR ''/''} \<union> set raw"
    using sub unfolding t q_def by (auto dest: set_takeWhileD set_dropWhileD)
  moreover have "\<not> target_bad_byte (CHR ''/'')" by (simp add: target_bad_byte_def)
  ultimately have nobad: "\<not> list_ex target_bad_byte t" using bad by (auto simp: list_ex_iff)
  have "canonical_request_target t = Inr t"
    unfolding t by (rule canonical_target_fixed [OF cl noq q nobad [unfolded t] ok])
  with t cl nobad show ?thesis unfolding q_def by blast
qed

lemma request_target_canonical_witness:
  "canonical_request_target ''/a/./b//../c?x=../y'' = Inr ''/a/c?x=../y''
   \<and> canonical_request_target ''/a/c?x=../y'' = Inr ''/a/c?x=../y''"
proof -
  have "canonical_request_target ''/a/./b//../c?x=../y'' = Inr ''/a/c?x=../y''" by code_simp
  with request_target_canonical [OF this] show ?thesis by blast
qed

section \<open>Allowlist patterns\<close>

text \<open>What one pattern segment stands for: any run of segments, any one, or itself.\<close>

definition covers :: "string \<Rightarrow> string list \<Rightarrow> bool" where
  "covers p qs \<longleftrightarrow> (if p = ''**'' then True else length qs = 1 \<and> (p = ''*'' \<or> p = hd qs))"

lemma seg_match_iff: "seg_match ps q \<longleftrightarrow> (\<exists>runs. list_all2 covers ps runs \<and> concat runs = q)"
proof (induction ps arbitrary: q)
  case (Cons p ps)
  have split: "(\<exists>runs. list_all2 covers (p # ps) runs \<and> concat runs = q) \<longleftrightarrow>
      (\<exists>r q'. covers p r \<and> r @ q' = q \<and> seg_match ps q')"
  proof
    assume "\<exists>runs. list_all2 covers (p # ps) runs \<and> concat runs = q"
    then obtain r runs where "covers p r" "list_all2 covers ps runs" "q = r @ concat runs"
      by (auto simp: list_all2_Cons1)
    then show "\<exists>r q'. covers p r \<and> r @ q' = q \<and> seg_match ps q'" using Cons.IH by blast
  next
    assume "\<exists>r q'. covers p r \<and> r @ q' = q \<and> seg_match ps q'"
    then obtain r runs where "covers p r" "list_all2 covers ps runs" "r @ concat runs = q"
      using Cons.IH by blast
    then show "\<exists>runs. list_all2 covers (p # ps) runs \<and> concat runs = q"
      by (intro exI [of _ "r # runs"]) simp
  qed
  show ?case
  proof (cases "p = ''**''")
    case True
    have "(\<exists>r q'. r @ q' = q \<and> seg_match ps q') \<longleftrightarrow> (\<exists>i < Suc (length q). seg_match ps (drop i q))"
    proof
      assume "\<exists>r q'. r @ q' = q \<and> seg_match ps q'"
      then obtain r q' where "q = r @ q'" "seg_match ps q'" by blast
      then show "\<exists>i < Suc (length q). seg_match ps (drop i q)" by (intro exI [of _ "length r"]) simp
    next
      assume "\<exists>i < Suc (length q). seg_match ps (drop i q)"
      then obtain i where "seg_match ps (drop i q)" by blast
      then show "\<exists>r q'. r @ q' = q \<and> seg_match ps q'"
        by (intro exI [of _ "take i q"] exI [of _ "drop i q"]) simp
    qed
    moreover have "seg_match (p # ps) q \<longleftrightarrow> (\<exists>i < Suc (length q). seg_match ps (drop i q))"
      unfolding seg_match.simps list_ex_iff set_upt using True
      by (simp only: if_True refl Bex_def atLeast0LessThan lessThan_iff)
    moreover have "covers p r" for r using True by (simp add: covers_def)
    ultimately show ?thesis unfolding split by simp
  next
    case False
    then show ?thesis unfolding split by (cases q) (auto simp: covers_def length_Suc_conv)
  qed
qed auto

text \<open>
  C29: An allowlist pattern means what it says. A path matches exactly when its segments can be cut
  into consecutive runs, one for each segment of the pattern: any run for \<open>**\<close>, a single segment
  for \<open>*\<close>, and the very segment for any other; slashes at the ends of either do not count.
\<close>

theorem path_matches_spec:
  "path_matches pat path \<longleftrightarrow>
     (\<exists>runs. list_all2 covers (split_on (CHR ''/'') (trim_char (CHR ''/'') pat)) runs
        \<and> concat runs = split_on (CHR ''/'') (trim_char (CHR ''/'') path))"
  by (simp add: path_matches_def seg_match_iff)

text \<open>Without \<open>**\<close> a pattern fixes the number of segments.\<close>

lemma seg_match_length: "''**'' \<notin> set ps \<Longrightarrow> seg_match ps q \<Longrightarrow> length q = length ps"
  by (induction ps q rule: seg_match.induct) (auto split: list.splits if_splits)

section \<open>Limits of a fetch\<close>

lemma fetch_loop_length:
  "fetch_loop E fd m raw w = (Inr out, w') \<Longrightarrow> length raw \<le> m \<Longrightarrow> length out \<le> m"
proof (induction E fd m raw w rule: fetch_loop.induct)
  case (1 E fd m raw w)
  obtain c w1 where r: "net_read E fd 4096 w = (Inr c, w1)"
    using 1(2) by (cases "net_read E fd 4096 w"; cases "fst (net_read E fd 4096 w)") (auto simp: fetch_loop.simps)
  then show ?case using 1 by (auto simp: fetch_loop.simps [of E fd m raw w] split: if_splits)
qed

lemma fetch_loop_reads:
  assumes "\<forall>n v. ticks (snd (net_read E fd n v)) = Suc (ticks v)" "length raw \<le> m"
  shows "ticks (snd (fetch_loop E fd m raw w)) \<le> ticks w + (m - length raw) + 1"
  using assms
proof (induction E fd m raw w rule: fetch_loop.induct)
  case (1 E fd m raw w)
  obtain x w1 where r: "net_read E fd 4096 w = (x, w1)" by fastforce
  then have w1: "ticks w1 = Suc (ticks w)" using 1(2) by (metis snd_conv)
  show ?case
  proof (cases "\<exists>c. x = Inr c \<and> c \<noteq> [] \<and> length (raw @ c) \<le> m")
    case False
    then show ?thesis using r w1 by (auto simp: fetch_loop.simps [of E fd m raw w] split: sum.split)
  next
    case True
    then obtain c where c: "x = Inr c" "c \<noteq> []" "length (raw @ c) \<le> m" by blast
    have "ticks (snd (fetch_loop E fd m (raw @ c) w1)) \<le> ticks w1 + (m - length (raw @ c)) + 1"
      using 1(1) [OF r [symmetric] c(1) c(2) _ 1(2)] c(3) by simp
    moreover have "ticks w1 + (m - length (raw @ c)) + 1 \<le> ticks w + (m - length raw) + 1"
      using c(2,3) w1 by (cases c) auto
    moreover have "fetch_loop E fd m raw w = fetch_loop E fd m (raw @ c) w1"
      using r c by (simp add: fetch_loop.simps [of E fd m raw w])
    ultimately show ?thesis by simp
  qed
qed

lemma fetch_get_Inr:
  assumes "fetch_get E addr authority path m w = (Inr resp, w')"
  obtains raw where "length raw \<le> m" "parse_http_response raw = Inr resp"
proof -
  obtain fd w2 raw where "fetch_loop E fd m [] w2 = (Inr raw, w')" "parse_http_response raw = Inr resp"
    using assms by (auto simp: fetch_get_def split: if_splits prod.splits sum.splits)
  with that fetch_loop_length show thesis by fastforce
qed

lemma parse_http_response_bounds:
  "parse_http_response raw = Inr resp \<Longrightarrow> length (hr_body resp) \<le> length raw \<and> hr_status resp < 65536"
  by (auto simp: parse_http_response_def Let_def parse_uint_def bind_eq_Some_conv split: option.splits if_splits)

text \<open>
  A request whose only control bytes are its six line ends; and two networks that agree on everything
  but on what else is written.
\<close>

definition control_byte :: "byte \<Rightarrow> bool" where
  "control_byte b \<longleftrightarrow> b < 0x20 \<or> b = 0x7f"

definition plain_request :: "byte list \<Rightarrow> bool" where
  "plain_request bs \<longleftrightarrow> filter control_byte bs = concat (replicate 6 [13, 10])"

lemma control_byte_char:
  "control_byte (byte_of_char c) \<longleftrightarrow> (of_char c :: nat) < 0x20 \<or> (of_char c :: nat) = 0x7f"
proof -
  have "(of_char c :: nat) < 256" by (rule of_char_less_256)
  then have "unat (byte_of_char c) = of_char c" by (simp add: byte_of_char_def unat_of_nat)
  then show ?thesis by (simp add: control_byte_def word_less_nat_alt word_unat_eq_iff)
qed

lemma no_control_filter:
  "\<not> list_ex (\<lambda>c. (of_char c :: nat) < 0x20 \<or> (of_char c :: nat) = 0x7f) s \<Longrightarrow> filter control_byte (as_bytes s) = []"
  by (auto simp: as_bytes_def filter_empty_conv list_ex_iff control_byte_char)

lemma http_request_plain:
  assumes "\<not> list_ex (\<lambda>c. (of_char c :: nat) < 0x20 \<or> (of_char c :: nat) = 0x7f) (path @ authority)"
  shows "plain_request (as_bytes (http_request path authority))"
proof -
  have "filter control_byte (as_bytes path) = []" "filter control_byte (as_bytes authority) = []"
    using assms by (simp_all add: no_control_filter)
  moreover have "filter control_byte (as_bytes crlf) = [13, 10]" by code_simp
  moreover have "filter control_byte (as_bytes t) = []"
    if "t \<in> {''GET '', '' HTTP/1.0'', ''Host: '', ''User-Agent: capable/0.1'', ''Accept: */*'', ''Connection: close''}" for t
    using that by (elim insertE emptyE) (simp_all only:, code_simp+)
  moreover have "as_bytes (s @ t) = as_bytes s @ as_bytes t" for s t by (simp add: as_bytes_def)
  ultimately show ?thesis
    unfolding plain_request_def http_request_def by (simp only: filter_append) (simp add: numeral_eq_Suc)
qed

definition agree_on_plain :: "'w env \<Rightarrow> 'w env \<Rightarrow> bool" where
  "agree_on_plain E E' \<longleftrightarrow> net_connect E' = net_connect E \<and> net_read E' = net_read E
     \<and> (\<forall>fd bs w. plain_request bs \<longrightarrow> net_write E' fd bs w = net_write E fd bs w)"

lemma fetch_loop_env: "net_read E' = net_read E \<Longrightarrow> fetch_loop E' fd m raw w = fetch_loop E fd m raw w"
proof (induction E fd m raw w rule: fetch_loop.induct)
  case (1 E fd m raw w)
  obtain x w1 where r: "net_read E fd 4096 w = (x, w1)" by fastforce
  show ?case
  proof (cases "\<exists>c. x = Inr c \<and> c \<noteq> [] \<and> \<not> m < length (raw @ c)")
    case True
    then obtain c where c: "x = Inr c" "c \<noteq> []" "\<not> m < length (raw @ c)" by blast
    then show ?thesis using 1(1) [OF r [symmetric] c(1,2)] 1(2) r
      by (simp add: fetch_loop.simps [of E fd m raw w] fetch_loop.simps [of E' fd m raw w])
  next
    case False
    then show ?thesis using r 1(2)
      by (auto simp: fetch_loop.simps [of E fd m raw w] fetch_loop.simps [of E' fd m raw w] split: sum.split)
  qed
qed

lemma fetch_get_plain:
  assumes "agree_on_plain E E'" shows "fetch_get E' addr authority path m w = fetch_get E addr authority path m w"
proof (cases "list_ex (\<lambda>c. (of_char c :: nat) < 0x20 \<or> (of_char c :: nat) = 0x7f) (path @ authority)")
  case False
  then have "plain_request (as_bytes (http_request path authority))" by (rule http_request_plain)
  then have "net_write E' fd (as_bytes (http_request path authority)) v = net_write E fd (as_bytes (http_request path authority)) v"
    for fd v using assms unfolding agree_on_plain_def by blast
  moreover have "fetch_loop E' fd m raw v = fetch_loop E fd m raw v" for fd raw v
    using fetch_loop_env assms by (auto simp: agree_on_plain_def)
  moreover have "net_connect E' = net_connect E" using assms by (simp add: agree_on_plain_def)
  ultimately show ?thesis unfolding fetch_get_def by (simp split: sum.splits prod.splits)
qed (auto simp: fetch_get_def list_ex_iff)

text \<open>
  C30: A fetch is bounded. The body it returns is no longer than the capability's limit and its status
  is a 16-bit number. Nothing is ever written with a control character in the target or the host,
  whether the fetch succeeds or fails: a network that behaves otherwise on such writes alone cannot be
  told apart. And on a network that counts its reads a fetch, whether it succeeds or fails, takes at
  most one read more than the limit has bytes, however the peer cuts its answer into pieces.
\<close>

theorem fetch_bounded:
  "(fetch_get E addr authority path m w = (Inr resp, w') \<longrightarrow> length (hr_body resp) \<le> m \<and> hr_status resp < 65536)
   \<and> (agree_on_plain E E' \<longrightarrow> fetch_get E' addr authority path m w = fetch_get E addr authority path m w)
   \<and> ((\<forall>fd n v. ticks (snd (net_read E fd n v)) = Suc (ticks v)) \<longrightarrow>
       (\<forall>a v. ticks (snd (net_connect E a v)) = ticks v) \<longrightarrow> (\<forall>fd d v. ticks (snd (net_write E fd d v)) = ticks v) \<longrightarrow>
       ticks (snd (fetch_get E addr authority path m w)) \<le> ticks w + m + 1)"
proof (intro conjI impI)
  show "length (hr_body resp) \<le> m" "hr_status resp < 65536" if got: "fetch_get E addr authority path m w = (Inr resp, w')"
  proof -
    obtain raw where raw: "length raw \<le> m" "parse_http_response raw = Inr resp" using fetch_get_Inr [OF got] .
    show "length (hr_body resp) \<le> m" "hr_status resp < 65536"
      using parse_http_response_bounds [OF raw(2)] raw(1) by auto
  qed
  show "fetch_get E' addr authority path m w = fetch_get E addr authority path m w" if "agree_on_plain E E'"
    by (rule fetch_get_plain [OF that])
next
  assume tick: "\<forall>fd n v. ticks (snd (net_read E fd n v)) = Suc (ticks v)"
    and still: "\<forall>a v. ticks (snd (net_connect E a v)) = ticks v" "\<forall>fd d v. ticks (snd (net_write E fd d v)) = ticks v"
  have reads: "ticks (snd (fetch_loop E fd m [] v)) \<le> ticks v + m + 1" for fd v
    using fetch_loop_reads [of ticks E fd "[]" m v] tick by simp
  obtain x w1 where c: "net_connect E addr w = (x, w1)" by fastforce
  then have w1: "ticks w1 = ticks w" using still(1) by (metis snd_conv)
  show "ticks (snd (fetch_get E addr authority path m w)) \<le> ticks w + m + 1"
  proof (cases x)
    case (Inr fd)
    obtain u w2 where wr: "net_write E fd (as_bytes (http_request path authority)) w1 = (u, w2)" by fastforce
    then have "ticks w2 = ticks w" using still(2) w1 by (metis snd_conv)
    with reads [of fd w2] show ?thesis
      using c Inr wr by (auto simp: fetch_get_def split: sum.splits prod.splits)
  qed (use c w1 in \<open>simp add: fetch_get_def\<close>)
qed

definition demo_answer :: "byte list" where
  "demo_answer = as_bytes (''HTTP/1.0 200 OK'' @ crlf @ crlf @ ''hi'')"

text \<open>A peer that answers once and then closes, in a world that counts the reads.\<close>

definition demo_peer :: "nat env" where
  "demo_peer = \<lparr>
     os_random = \<lambda>i n. None, os_open = \<lambda>p w. (Inr 3, w), os_openat2 = \<lambda>fd p f r w. (4, w),
     os_read_to_end = \<lambda>fd w. (Inr [], w), os_getdents = \<lambda>fd n w. ((0, []), w),
     os_command = \<lambda>argv vars fd p w. (Inr [], w), os_canonicalize = \<lambda>p w. (Inr p, w),
     os_audit_read = \<lambda>f w. (None, w), os_audit_open = \<lambda>w. (None, w), os_audit_fault = \<lambda>w. (NoFault, w),
     net_resolve = \<lambda>h p w. (Inr [], w), net_connect = \<lambda>a w. (Inr 3, w), net_write = \<lambda>fd b w. (Inr (), w),
     net_read = \<lambda>fd n w. (Inr (if w = 0 then demo_answer else []), Suc w),
     uni_escaped = \<lambda>c. False, uni_upper = \<lambda>c. [c]\<rparr>"

lemma demo_answer: "length demo_answer = 21" "parse_http_response demo_answer = Inr \<lparr>hr_status = 200, hr_body = [104, 105]\<rparr>"
proof -
  have bytes: "demo_answer = [72, 84, 84, 80, 47, 49, 46, 48, 32, 50, 48, 48, 32, 79, 75, 13, 10, 13, 10, 104, 105]"
    by code_simp
  have line: "from_utf8_lossy [72, 84, 84, 80, 47, 49, 46, 48, 32, 50, 48, 48, 32, 79, 75] = ''HTTP/1.0 200 OK''"
    by code_simp
  have "split_whitespace ''HTTP/1.0 200 OK'' = [''HTTP/1.0'', ''200'', ''OK'']"
    by (simp add: split_whitespace_def split_ws_chars_def chars_ascii is_ascii_Cons is_whitespace_def U_def enc_char_def)
      code_simp
  moreover have "parse_uint 65536 ''200'' = Some 200"
    by (simp add: parse_uint_def is_digit_def digits_value_def)
  moreover have "find_header_end demo_answer = Some 15" by (simp add: bytes)
  ultimately show "parse_http_response demo_answer = Inr \<lparr>hr_status = 200, hr_body = [104, 105]\<rparr>"
    by (simp add: parse_http_response_def bytes line Let_def)
  show "length demo_answer = 21" by (simp add: bytes)
qed

lemma demo_peer_net [simp]:
  "net_connect demo_peer a w = (Inr 3, w)" "net_write demo_peer fd b w = (Inr (), w)"
  "net_read demo_peer fd n w = (Inr (if w = 0 then demo_answer else []), Suc w)"
  by (simp_all add: demo_peer_def)

lemma fetch_bounded_witness:
  "\<exists>resp w'. fetch_get demo_peer \<lparr>sa_ip = V4 8 8 8 8, sa_port = 80\<rparr> ''example.org'' ''/'' 30 0 = (Inr resp, w')
     \<and> length (hr_body resp) \<le> 30 \<and> w' \<le> 31
     \<and> fetch_get (demo_peer\<lparr>net_write := \<lambda>fd b w. (Inr (), if plain_request b then w else 99)\<rparr>)
         \<lparr>sa_ip = V4 8 8 8 8, sa_port = 80\<rparr> ''example.org'' ''/'' 30 0 = (Inr resp, w')"
proof -
  let ?a = "\<lparr>sa_ip = V4 8 8 8 8, sa_port = 80\<rparr>"
  let ?E = "demo_peer\<lparr>net_write := \<lambda>fd b w. (Inr (), if plain_request b then w else 99)\<rparr>"
  have "fetch_loop demo_peer 3 30 demo_answer 1 = (Inr demo_answer, 2)"
    by (subst fetch_loop.simps) simp
  then have "fetch_loop demo_peer 3 30 [] 0 = (Inr demo_answer, 2)"
    using demo_answer(1) by (subst fetch_loop.simps) (simp flip: length_0_conv)
  then have "fetch_get demo_peer ?a ''example.org'' ''/'' 30 0 = (Inr \<lparr>hr_status = 200, hr_body = [104, 105]\<rparr>, 2)"
    by (simp add: fetch_get_def demo_answer)
  moreover have "agree_on_plain demo_peer ?E" by (simp add: agree_on_plain_def)
  moreover have "\<forall>fd n v. id (snd (net_read demo_peer fd n v)) = Suc (id v)"
    "\<forall>a v. id (snd (net_connect demo_peer a v)) = id v" "\<forall>fd d v. id (snd (net_write demo_peer fd d v)) = id v"
    by simp_all
  ultimately show ?thesis
    using fetch_bounded [of demo_peer ?a "''example.org''" "''/''" 30 0 "\<lparr>hr_status = 200, hr_body = [104, 105]\<rparr>" 2 ?E id]
    by auto
qed

end
