(* ===== verification/Consent.thy ===== *)
theory Consent
  imports Prelude Rust_Str "HOL-Library.List_Lexorder" "HOL-Library.Char_ord"
begin

text \<open>
  \<open>policy.rs\<close>: the policy engine that decides, verb by verb, whether a call passes, is
  refused or waits for approval, and the ledger of just-in-time consents that the sessions
  of a service share. The ledger is a hash map from request ids to requests; here it is an
  association list, whose order stands for the map's iteration order. The second half gives the
  contract of such a ledger as a locale over one status per (action, session) pair, proves in it
  that a run passes an action exactly as often as it was approved, and interprets the locale on
  the code's ledger.
\<close>

section \<open>Policy engine\<close>

datatype decision = Allow | Deny | Prompt

record policy_engine =
  deny_exec :: bool
  prompt_exec :: bool
  prompt_http :: bool
  prompt_post :: bool

definition allow_all :: policy_engine where
  "allow_all = \<lparr>deny_exec = False, prompt_exec = False, prompt_http = False, prompt_post = False\<rparr>"

definition decide :: "policy_engine \<Rightarrow> string \<Rightarrow> decision" where
  "decide p verb =
     (if verb = ''exec'' \<and> deny_exec p then Deny
      else if verb = ''exec'' \<and> prompt_exec p then Prompt
      else if verb = ''http_get'' \<and> prompt_http p then Prompt
      else if (verb = ''post'' \<or> verb = ''post_from'') \<and> prompt_post p then Prompt
      else Allow)"

section \<open>Consent ledger\<close>

datatype status = Pending | Approved | Denied

record consent_req =
  rq_sig :: string
  rq_session :: string
  rq_summary :: string
  rq_status :: status

record consent_ledger =
  reqs :: "(string \<times> consent_req) list"
  ledger_seq :: u64

datatype consent_outcome = Now_Approved | Now_Pending string | Now_Denied

datatype consent_error = NotPending string | NoSuchConsent string

definition consent_error_text :: "consent_error \<Rightarrow> string" where
  "consent_error_text e = (case e of
      NotPending i \<Rightarrow> ''consent '' @ i @ ('' '' @ U [0x975E, 0x5F85, 0x51B3, 0x72B6,
        0x6001])
    | NoSuchConsent i \<Rightarrow> ''consent '' @ i @ ('' '' @ U [0x4E0D, 0x5B58, 0x5728]))"

definition new_ledger :: consent_ledger where
  "new_ledger = \<lparr>reqs = [], ledger_seq = 0\<rparr>"

definition consent_id :: "u64 \<Rightarrow> string" where
  "consent_id n = ''consent_'' @ show_nat (unat n)"

text \<open>The request of an action in a session: the first one the iteration meets.\<close>

definition find_req :: "string \<Rightarrow> string \<Rightarrow> consent_ledger \<Rightarrow> (string \<times> consent_req) option" where
  "find_req sig session l =
     List.find (\<lambda>(i, q). rq_sig q = sig \<and> rq_session q = session) (reqs l)"

definition request_or_check ::
    "string \<Rightarrow> string \<Rightarrow> string \<Rightarrow> consent_ledger \<Rightarrow> consent_outcome \<times> consent_ledger" where
  "request_or_check sig session summary l =
     (case find_req sig session l of
        Some (i, q) \<Rightarrow>
          (case rq_status q of
             Approved \<Rightarrow> (Now_Approved, l\<lparr>reqs := AList.delete i (reqs l)\<rparr>)
           | Denied \<Rightarrow> (Now_Denied, l)
           | Pending \<Rightarrow> (Now_Pending i, l))
      | None \<Rightarrow>
          let n = ledger_seq l + 1; i = consent_id n in
          (Now_Pending i,
           \<lparr>reqs = AList.update i \<lparr>rq_sig = sig, rq_session = session, rq_summary = summary,
                                 rq_status = Pending\<rparr> (reqs l),
            ledger_seq = n\<rparr>))"

text \<open>\<open>approve\<close> and \<open>deny\<close> differ in the status they leave.\<close>

definition settle ::
    "status \<Rightarrow> string \<Rightarrow> consent_ledger \<Rightarrow> (consent_error + string) \<times> consent_ledger" where
  "settle st i l =
     (case map_of (reqs l) i of
        Some q \<Rightarrow>
          if rq_status q = Pending
          then (Inr (rq_summary q), l\<lparr>reqs := AList.update i (q\<lparr>rq_status := st\<rparr>) (reqs l)\<rparr>)
          else (Inl (NotPending i), l)
      | None \<Rightarrow> (Inl (NoSuchConsent i), l))"

definition approve :: "string \<Rightarrow> consent_ledger \<Rightarrow> (consent_error + string) \<times> consent_ledger" where
  "approve = settle Approved"

definition deny :: "string \<Rightarrow> consent_ledger \<Rightarrow> (consent_error + string) \<times> consent_ledger" where
  "deny = settle Denied"

definition pending_count :: "consent_ledger \<Rightarrow> nat" where
  "pending_count l = length (filter (\<lambda>(i, q). rq_status q = Pending) (reqs l))"

definition describe_request :: "string \<Rightarrow> consent_ledger \<Rightarrow> string option" where
  "describe_request i l = map_option rq_summary (map_of (reqs l) i)"

text \<open>Sorted by id; Rust compares strings byte by byte.\<close>

definition list_pending :: "consent_ledger \<Rightarrow> (string \<times> string \<times> string) list" where
  "list_pending l =
     sort_key fst (map (\<lambda>(i, q). (i, rq_session q, rq_summary q))
       (filter (\<lambda>(i, q). rq_status q = Pending) (reqs l)))"

section \<open>Invariant\<close>

text \<open>
  Ids are distinct and were all issued by the counter, and an action of a session has at
  most one request.
\<close>

definition ledger_ok :: "consent_ledger \<Rightarrow> bool" where
  "ledger_ok l \<longleftrightarrow> distinct (map fst (reqs l))
     \<and> distinct (map (\<lambda>(i, q). (rq_sig q, rq_session q)) (reqs l))
     \<and> (\<forall>i \<in> fst ` set (reqs l). \<exists>n. 0 < n \<and> n \<le> ledger_seq l \<and> i = consent_id n)"

lemma consent_id_inject: "consent_id m = consent_id n \<longleftrightarrow> m = n"
  by (simp add: consent_id_def show_nat_inject word_unat_eq_iff)

lemma new_ledger_ok [simp]: "ledger_ok new_ledger"
  by (simp add: ledger_ok_def new_ledger_def)

lemma find_req_Some:
  "find_req sig ses l = Some (i, q) \<Longrightarrow> (i, q) \<in> set (reqs l) \<and> rq_sig q = sig \<and> rq_session q = ses"
  by (auto simp: find_req_def find_Some_iff in_set_conv_nth)

lemma find_req_None:
  "find_req sig ses l = None \<longleftrightarrow> (sig, ses) \<notin> set (map (\<lambda>(i, q). (rq_sig q, rq_session q)) (reqs l))"
  by (auto simp: find_req_def find_None_iff)

lemma find_req_iff:
  assumes "ledger_ok l"
  shows "find_req sig ses l = Some (i, q) \<longleftrightarrow>
    (i, q) \<in> set (reqs l) \<and> rq_sig q = sig \<and> rq_session q = ses"
proof
  assume R: "(i, q) \<in> set (reqs l) \<and> rq_sig q = sig \<and> rq_session q = ses"
  then obtain j p where f: "find_req sig ses l = Some (j, p)"
    by (cases "find_req sig ses l") (force simp: find_req_None)+
  have "inj_on (\<lambda>(i, q). (rq_sig q, rq_session q)) (set (reqs l))"
    using assms by (simp add: ledger_ok_def distinct_map)
  from inj_onD [OF this, of "(i, q)" "(j, p)"] R find_req_Some [OF f]
  have "(i, q) = (j, p)" by simp
  with f show "find_req sig ses l = Some (i, q)" by simp
qed (rule find_req_Some)

lemma map_of_req:
  "ledger_ok l \<Longrightarrow> map_of (reqs l) i = Some q \<longleftrightarrow> (i, q) \<in> set (reqs l)"
  by (simp add: ledger_ok_def)


lemma ledger_ok_cong:
  assumes "ledger_ok l" "map fst rs = map fst (reqs l)"
    "map (\<lambda>(i, q). (rq_sig q, rq_session q)) rs = map (\<lambda>(i, q). (rq_sig q, rq_session q)) (reqs l)"
  shows "ledger_ok (l\<lparr>reqs := rs\<rparr>)"
proof -
  have "fst ` set rs = fst ` set (reqs l)" using assms(2) by (metis list.set_map)
  with assms show ?thesis by (simp add: ledger_ok_def)
qed

lemma update_present:
  assumes "distinct (map fst al)" "(i, q) \<in> set al"
  shows "AList.update i p al = map (\<lambda>(j, r). if j = i then (j, p) else (j, r)) al"
  using assms
proof (induction al)
  case (Cons a al)
  obtain j r where a: "a = (j, r)" by (cases a)
  show ?case
  proof (cases "j = i")
    case True
    with Cons.prems(1) a have "map (\<lambda>(j, r). if j = i then (j, p) else (j, r)) al = al"
      by (intro map_idI) force
    with True a show ?thesis by simp
  next
    case False
    with Cons a show ?thesis by auto
  qed
qed simp

lemma update_absent: "k \<notin> fst ` set al \<Longrightarrow> AList.update k v al = al @ [(k, v)]"
  by (induction al) auto

lemma settle_ledger_ok:
  assumes "ledger_ok l"
  shows "ledger_ok (snd (settle st i l))"
proof (cases "map_of (reqs l) i")
  case (Some q)
  then have iq: "(i, q) \<in> set (reqs l)" by (rule map_of_SomeD)
  have d: "distinct (map fst (reqs l))" using assms by (simp add: ledger_ok_def)
  have same: "r = q" if "(i, r) \<in> set (reqs l)" for r
    using that Some d by (metis map_of_is_SomeI option.inject)
  have "ledger_ok (l\<lparr>reqs := AList.update i (q\<lparr>rq_status := st\<rparr>) (reqs l)\<rparr>)"
    unfolding update_present [OF d iq]
    by (rule ledger_ok_cong [OF assms]) (auto dest: same)
  then show ?thesis using assms Some by (simp add: settle_def)
qed (simp add: settle_def assms)

lemma distinct_map_delete: "distinct (map f al) \<Longrightarrow> distinct (map f (AList.delete i al))"
  by (simp add: AList.delete_eq distinct_map_filter)

lemma delete_ledger_ok:
  assumes "ledger_ok l" shows "ledger_ok (l\<lparr>reqs := AList.delete i (reqs l)\<rparr>)"
  unfolding ledger_ok_def
proof (intro conjI ballI)
  fix j assume "j \<in> fst ` set (reqs (l\<lparr>reqs := AList.delete i (reqs l)\<rparr>))"
  then have "j \<in> fst ` set (reqs l)" using dom_delete_subset [of i "reqs l"] by auto
  with assms show "\<exists>n > 0. n \<le> ledger_seq (l\<lparr>reqs := AList.delete i (reqs l)\<rparr>) \<and> j = consent_id n"
    by (force simp: ledger_ok_def)
qed (use assms in \<open>simp_all add: ledger_ok_def distinct_map_delete\<close>)

text \<open>The ledger can issue \<open>n\<close> more ids before its counter wraps.\<close>

definition has_room :: "consent_ledger \<Rightarrow> nat \<Rightarrow> bool" where
  "has_room l n \<longleftrightarrow> unat (ledger_seq l) + n < 2 ^ 64"

lemma next_seq:
  assumes "has_room l (Suc n)"
  shows "unat (ledger_seq l + 1) = Suc (unat (ledger_seq l))"
  using assms by (simp add: has_room_def unat_word_ariths)

lemma next_id_fresh:
  assumes "ledger_ok l" "has_room l (Suc n)"
  shows "consent_id (ledger_seq l + 1) \<notin> fst ` set (reqs l)"
proof
  assume "consent_id (ledger_seq l + 1) \<in> fst ` set (reqs l)"
  then obtain m where "m \<le> ledger_seq l" "m = ledger_seq l + 1"
    using assms(1) by (auto simp: ledger_ok_def consent_id_inject)
  then show False using next_seq [OF assms(2)] by (simp add: word_le_nat_alt)
qed

lemma request_ledger_ok:
  assumes "ledger_ok l" "has_room l (Suc n)"
  shows "ledger_ok (snd (request_or_check sig ses summ l))"
    and "has_room (snd (request_or_check sig ses summ l)) n"
proof -
  show "ledger_ok (snd (request_or_check sig ses summ l))"
  proof (cases "find_req sig ses l")
    case None
    let ?i = "consent_id (ledger_seq l + 1)"
    have new: "AList.update ?i p (reqs l) = reqs l @ [(?i, p)]" for p
      using next_id_fresh [OF assms] by (simp add: update_absent)
    have le: "ledger_seq l \<le> ledger_seq l + 1" "0 < ledger_seq l + 1"
      using next_seq [OF assms(2)] by (simp_all add: word_le_nat_alt word_less_nat_alt)
    have keys: "(sig, ses) \<notin> set (map (\<lambda>(i, q). (rq_sig q, rq_session q)) (reqs l))"
      using None find_req_None by blast
    have old: "\<exists>m > 0. m \<le> ledger_seq l + 1 \<and> i = consent_id m" if "i \<in> fst ` set (reqs l)" for i
      using that assms(1) le by (meson ledger_ok_def order_trans)
    have step: "snd (request_or_check sig ses summ l) =
        \<lparr>reqs = reqs l @ [(?i, \<lparr>rq_sig = sig, rq_session = ses, rq_summary = summ,
                               rq_status = Pending\<rparr>)], ledger_seq = ledger_seq l + 1\<rparr>"
      by (simp add: request_or_check_def None Let_def new)
    show ?thesis
      using assms(1) keys next_id_fresh [OF assms] le old unfolding step
      by (simp add: ledger_ok_def) blast
  qed (auto simp: request_or_check_def assms delete_ledger_ok split: status.splits)
  show "has_room (snd (request_or_check sig ses summ l)) n"
    using assms(2) next_seq [OF assms(2)]
    by (auto simp: request_or_check_def has_room_def Let_def split: option.splits status.splits)
qed

section \<open>The contract of a consent ledger\<close>

text \<open>
  A run of a ledger: requests of an action (a key of any type, with its summary) and
  settlements of a request id. The log says which keys passed and which were approved.
\<close>

datatype 'k consent_event = Ask 'k string | Settle status string

datatype 'k consent_fact = Passed 'k | Granted 'k

fun consent_log ::
    "('k \<Rightarrow> string \<Rightarrow> 'l \<Rightarrow> consent_outcome \<times> 'l)
     \<Rightarrow> (status \<Rightarrow> string \<Rightarrow> 'l \<Rightarrow> ('e + string) \<times> 'l) \<Rightarrow> (string \<Rightarrow> 'l \<Rightarrow> 'k option)
     \<Rightarrow> 'k consent_event list \<Rightarrow> 'l \<Rightarrow> 'k consent_fact list" where
  "consent_log ask fix key [] l = []"
| "consent_log ask fix key (Ask k summ # es) l =
     (case ask k summ l of (out, l') \<Rightarrow>
        (if out = Now_Approved then [Passed k] else []) @ consent_log ask fix key es l')"
| "consent_log ask fix key (Settle st i # es) l =
     (case fix st i l of (r, l') \<Rightarrow>
        (case key i l of
           Some k \<Rightarrow> if is_ok r \<and> st = Approved then [Granted k] else []
         | None \<Rightarrow> []) @ consent_log ask fix key es l')"

fun consent_after ::
    "('k \<Rightarrow> string \<Rightarrow> 'l \<Rightarrow> consent_outcome \<times> 'l)
     \<Rightarrow> (status \<Rightarrow> string \<Rightarrow> 'l \<Rightarrow> ('e + string) \<times> 'l) \<Rightarrow> 'k consent_event list \<Rightarrow> 'l \<Rightarrow> 'l" where
  "consent_after ask fix [] l = l"
| "consent_after ask fix (Ask k summ # es) l = consent_after ask fix es (snd (ask k summ l))"
| "consent_after ask fix (Settle st i # es) l = consent_after ask fix es (snd (fix st i l))"

definition asks :: "'k consent_event list \<Rightarrow> nat" where
  "asks es = length (filter (\<lambda>e. case e of Ask _ _ \<Rightarrow> True | Settle _ _ \<Rightarrow> False) es)"

locale consent_service =
  fixes ok :: "'l \<Rightarrow> nat \<Rightarrow> bool"
    and status_of :: "'l \<Rightarrow> 'k \<Rightarrow> status option"
    and key_of :: "string \<Rightarrow> 'l \<Rightarrow> 'k option"
    and ask :: "'k \<Rightarrow> string \<Rightarrow> 'l \<Rightarrow> consent_outcome \<times> 'l"
    and fix_status :: "status \<Rightarrow> string \<Rightarrow> 'l \<Rightarrow> ('e + string) \<times> 'l"
  assumes ask_ok: "ok l (Suc n) \<Longrightarrow> ok (snd (ask k s l)) n"
    and fix_ok: "ok l n \<Longrightarrow> ok (snd (fix_status st i l)) n"
    and ask_new: "ok l (Suc n) \<Longrightarrow> status_of l k = None \<Longrightarrow>
          fst (ask k s l) \<noteq> Now_Approved \<and> status_of (snd (ask k s l)) = (status_of l)(k \<mapsto> Pending)"
    and ask_approved: "ok l n \<Longrightarrow> status_of l k = Some Approved \<Longrightarrow>
          fst (ask k s l) = Now_Approved \<and> status_of (snd (ask k s l)) = (status_of l)(k := None)"
    and ask_settled: "ok l n \<Longrightarrow> status_of l k = Some st \<Longrightarrow> st \<noteq> Approved \<Longrightarrow>
          fst (ask k s l) \<noteq> Now_Approved \<and> snd (ask k s l) = l"
    and fix_pending: "ok l n \<Longrightarrow> is_ok (fst (fix_status st i l)) \<Longrightarrow>
          \<exists>k. key_of i l = Some k \<and> status_of l k = Some Pending
            \<and> status_of (snd (fix_status st i l)) = (status_of l)(k \<mapsto> st)"
    and fix_failed: "is_err (fst (fix_status st i l)) \<Longrightarrow> snd (fix_status st i l) = l"
begin

text \<open>Approvals that were not used yet: one, while the action stands approved.\<close>

definition open_grants :: "'l \<Rightarrow> 'k \<Rightarrow> nat" where
  "open_grants l k = (if status_of l k = Some Approved then 1 else 0)"

lemma passes_le_grants:
  "ok l (asks es) \<Longrightarrow>
     count_list (consent_log ask fix_status key_of es l) (Passed k)
       \<le> open_grants l k + count_list (consent_log ask fix_status key_of es l) (Granted k)"
proof (induction es arbitrary: l)
  case (Cons e es)
  show ?case
  proof (cases e)
  case (Ask k' s)
  obtain out l' where step: "ask k' s l = (out, l')" by (cases "ask k' s l")
  have ok: "ok l (Suc (asks es))" using Cons.prems(1) Ask by (simp add: asks_def)
  with step ask_ok [OF ok, of k' s] have "ok l' (asks es)" by simp
  note IH = Cons.IH [OF this]
  consider (new) "status_of l k' = None" | (appr) "status_of l k' = Some Approved"
    | (other) st where "status_of l k' = Some st" "st \<noteq> Approved"
    by (cases "status_of l k'") auto
  then show ?thesis
  proof cases
    case new
    from ask_new [OF ok this, of s] step IH show ?thesis by (auto simp: Ask open_grants_def split: if_splits)
  next
    case appr
    from ask_approved [OF ok this, of s] step IH appr show ?thesis
      by (auto simp: Ask open_grants_def split: if_splits)
  next
    case other
    from ask_settled [OF ok this, of s] step IH show ?thesis by (auto simp: Ask open_grants_def)
  qed
next
  case (Settle st i)
  obtain r l' where step: "fix_status st i l = (r, l')" by (cases "fix_status st i l")
  have ok: "ok l (asks es)" using Cons.prems(1) Settle by (simp add: asks_def)
  with step fix_ok [OF ok, of st i] have "ok l' (asks es)" by simp
  note IH = Cons.IH [OF this]
  show ?thesis
  proof (cases "is_ok r")
    case True
    with step fix_pending [OF ok, of st i] IH show ?thesis
      by (auto simp: Settle open_grants_def split: if_splits)
  next
    case False
    with step fix_failed [of st i l] IH show ?thesis by (auto simp: Settle split: option.splits)
  qed
  qed
qed simp

text \<open>Nothing clears a denial: neither a request of any action nor a settlement of any id.\<close>

lemma denied_ask:
  assumes ok: "ok l (Suc n)" and d: "status_of l k = Some Denied"
  shows "status_of (snd (ask k' s l)) k = Some Denied"
proof (cases "status_of l k'")
  case None
  with ask_new [OF ok, of k' s] d show ?thesis by auto
next
  case (Some st)
  with ask_approved [OF ok, of k' s] ask_settled [OF ok, of k' st s] d show ?thesis
    by (cases "st = Approved"; cases "k' = k") auto
qed

lemma denied_settle:
  assumes "ok l n" "status_of l k = Some Denied"
  shows "status_of (snd (fix_status st i l)) k = Some Denied"
  using fix_pending [OF assms(1), of st i] fix_failed [of st i l] assms(2)
  by (cases "is_ok (fst (fix_status st i l))") auto

lemma denied_for_good:
  "ok l (asks es) \<Longrightarrow> status_of l k = Some Denied \<Longrightarrow>
     Passed k \<notin> set (consent_log ask fix_status key_of es l)
     \<and> status_of (consent_after ask fix_status es l) k = Some Denied"
proof (induction es arbitrary: l)
  case (Cons e es)
  show ?case
  proof (cases e)
    case (Ask k' s)
    obtain out l' where step: "ask k' s l = (out, l')" by (cases "ask k' s l")
    have ok: "ok l (Suc (asks es))" using Cons.prems(1) Ask by (simp add: asks_def)
    have "ok l' (asks es)" "status_of l' k = Some Denied"
      using step ask_ok [OF ok, of k' s] denied_ask [OF ok Cons.prems(2), of k' s] by simp_all
    moreover have "k' = k \<longrightarrow> out \<noteq> Now_Approved"
      using ask_settled [OF ok, of k _ s] Cons.prems(2) step by auto
    ultimately show ?thesis using Cons.IH [of l'] step Ask by auto
  next
    case (Settle st i)
    obtain r l' where step: "fix_status st i l = (r, l')" by (cases "fix_status st i l")
    have ok: "ok l (asks es)" using Cons.prems(1) Settle by (simp add: asks_def)
    have "ok l' (asks es)" "status_of l' k = Some Denied"
      using step fix_ok [OF ok, of st i] denied_settle [OF ok Cons.prems(2), of st i] by simp_all
    then show ?thesis using Cons.IH [of l'] step Settle by (auto split: option.splits)
  qed
qed simp

end

section \<open>The code's ledger keeps the contract\<close>

text \<open>The status of an action (signature and session), and the action of a request id.\<close>

definition status_of :: "consent_ledger \<Rightarrow> string \<times> string \<Rightarrow> status option" where
  "status_of l k = map_option (rq_status \<circ> snd) (find_req (fst k) (snd k) l)"

definition action_of :: "string \<Rightarrow> consent_ledger \<Rightarrow> (string \<times> string) option" where
  "action_of i l = map_option (\<lambda>q. (rq_sig q, rq_session q)) (map_of (reqs l) i)"

definition ledger_ready :: "consent_ledger \<Rightarrow> nat \<Rightarrow> bool" where
  "ledger_ready l n \<longleftrightarrow> ledger_ok l \<and> has_room l n"

definition ask_action :: "string \<times> string \<Rightarrow> string \<Rightarrow> consent_ledger \<Rightarrow> consent_outcome \<times> consent_ledger"
  where "ask_action k s l = request_or_check (fst k) (snd k) s l"

lemma status_of_new:
  assumes "ledger_ok l" "has_room l (Suc n)" "find_req (fst k) (snd k) l = None"
  shows "status_of (snd (ask_action k s l)) = (status_of l)(k \<mapsto> Pending)"
proof
  fix k'
  have new: "AList.update (consent_id (ledger_seq l + 1)) p (reqs l)
      = reqs l @ [(consent_id (ledger_seq l + 1), p)]" for p
    using next_id_fresh [OF assms(1,2)] by (simp add: update_absent)
  have find_app: "List.find P (xs @ ys) = (case List.find P xs of None \<Rightarrow> List.find P ys | Some x \<Rightarrow> Some x)"
    for P and xs ys :: "(string \<times> consent_req) list"
    by (induction xs) auto
  show "status_of (snd (ask_action k s l)) k' = ((status_of l)(k \<mapsto> Pending)) k'"
    using assms(3)
    by (cases k; cases k')
      (auto simp: status_of_def ask_action_def request_or_check_def find_req_def Let_def new find_app
        split: option.splits)
qed

lemma find_req_delete:
  assumes ok: "ledger_ok l" and f: "find_req sig ses l = Some (i, q)"
  shows "find_req a b (l\<lparr>reqs := AList.delete i (reqs l)\<rparr>) =
    (if (a, b) = (sig, ses) then None else find_req a b l)"
proof -
  have mem: "(j, p) \<in> set (AList.delete i (reqs l)) \<longleftrightarrow> (j, p) \<in> set (reqs l) \<and> j \<noteq> i" for j p
    by (auto simp: AList.delete_eq)
  have ok': "ledger_ok (l\<lparr>reqs := AList.delete i (reqs l)\<rparr>)" by (rule delete_ledger_ok [OF ok])
  have dist: "j \<noteq> i" if "(j, p) \<in> set (reqs l)" "(rq_sig p, rq_session p) \<noteq> (sig, ses)" for j p
    using that f ok find_req_Some [OF f] map_of_req [OF ok] by (metis option.inject)
  have uniq: "j = i" if "(j, p) \<in> set (reqs l)" "rq_sig p = sig" "rq_session p = ses" for j p
    using that f ok by (metis find_req_iff option.inject prod.inject)
  have "find_req a b (l\<lparr>reqs := AList.delete i (reqs l)\<rparr>) = Some x \<longleftrightarrow>
      (a, b) \<noteq> (sig, ses) \<and> find_req a b l = Some x" for x
    using dist uniq by (cases x) (auto simp: find_req_iff [OF ok] find_req_iff [OF ok'] mem)
  then show ?thesis by (metis option.exhaust)
qed

lemma find_req_settled:
  assumes ok: "ledger_ok l" and q: "map_of (reqs l) i = Some q"
  shows "find_req a b (l\<lparr>reqs := AList.update i (q\<lparr>rq_status := st\<rparr>) (reqs l)\<rparr>) =
    (if (a, b) = (rq_sig q, rq_session q) then Some (i, q\<lparr>rq_status := st\<rparr>) else find_req a b l)"
proof -
  have iq: "(i, q) \<in> set (reqs l)" using q by (rule map_of_SomeD)
  have d: "distinct (map fst (reqs l))" using ok by (simp add: ledger_ok_def)
  have same: "(i, r) \<in> set (reqs l) \<longleftrightarrow> r = q" for r
    using iq q d by (metis map_of_is_SomeI option.inject)
  have find_map: "List.find P (map f xs) = map_option f (List.find (P \<circ> f) xs)"
    for P and f :: "string \<times> consent_req \<Rightarrow> string \<times> consent_req" and xs
    by (induction xs) auto
  define g where "g = (\<lambda>(j, r). if j = i then (j, q\<lparr>rq_status := st\<rparr>) else (j, r))"
  have "find_req a b (l\<lparr>reqs := map g (reqs l)\<rparr>) = map_option g (find_req a b l)"
  proof -
    have "List.find ((\<lambda>(i, q). rq_sig q = a \<and> rq_session q = b) \<circ> g) (reqs l)
        = List.find (\<lambda>(i, q). rq_sig q = a \<and> rq_session q = b) (reqs l)"
      using same by (intro find_cong refl) (auto simp: g_def split: if_splits)
    then show ?thesis by (simp add: find_req_def find_map)
  qed
  moreover have "map_option g (find_req a b l) =
      (if (a, b) = (rq_sig q, rq_session q) then Some (i, q\<lparr>rq_status := st\<rparr>) else find_req a b l)"
  proof (cases "find_req a b l")
    case None
    have "find_req (rq_sig q) (rq_session q) l = Some (i, q)" using iq by (simp add: find_req_iff [OF ok])
    with None show ?thesis by auto
  next
    case (Some x)
    obtain j p where x: "x = (j, p)" by (cases x)
    have "find_req (rq_sig q) (rq_session q) l = Some (i, q)" using iq by (simp add: find_req_iff [OF ok])
    moreover have "j = i \<Longrightarrow> p = q" using find_req_Some [OF Some [unfolded x]] same by simp
    ultimately show ?thesis using Some x find_req_Some [OF Some [unfolded x]] by (auto simp: g_def)
  qed
  ultimately show ?thesis by (simp only: update_present [OF d iq] g_def)
qed

interpretation ledger: consent_service ledger_ready status_of action_of ask_action settle
proof
  fix l n k s
  assume "ledger_ready l (Suc n)"
  then show "ledger_ready (snd (ask_action k s l)) n"
    using request_ledger_ok [of l n "fst k" "snd k" s] by (simp add: ledger_ready_def ask_action_def)
next
  fix l n st i
  assume "ledger_ready l n"
  moreover have "ledger_seq (snd (settle st i l)) = ledger_seq l"
    by (simp add: settle_def split: option.split)
  ultimately show "ledger_ready (snd (settle st i l)) n"
    using settle_ledger_ok by (simp add: ledger_ready_def has_room_def)
next
  fix l n k s
  assume "ledger_ready l (Suc n)" "status_of l k = None"
  then show "fst (ask_action k s l) \<noteq> Now_Approved
      \<and> status_of (snd (ask_action k s l)) = (status_of l)(k \<mapsto> Pending)"
    using status_of_new [of l n k s]
    by (simp add: ledger_ready_def status_of_def [of l] ask_action_def request_or_check_def Let_def)
next
  fix l n k s
  assume "ledger_ready l n" "status_of l k = Some Approved"
  then show "fst (ask_action k s l) = Now_Approved
      \<and> status_of (snd (ask_action k s l)) = (status_of l)(k := None)"
    by (cases k)
      (auto simp: ledger_ready_def status_of_def ask_action_def request_or_check_def find_req_delete
        fun_eq_iff)
next
  fix l n k s st
  assume "ledger_ready l n" "status_of l k = Some st" "st \<noteq> Approved"
  then show "fst (ask_action k s l) \<noteq> Now_Approved \<and> snd (ask_action k s l) = l"
    by (auto simp: status_of_def ask_action_def request_or_check_def split: status.splits)
next
  fix l n st i
  assume "ledger_ready l n" "is_ok (fst (settle st i l))"
  then show "\<exists>k. action_of i l = Some k \<and> status_of l k = Some Pending
      \<and> status_of (snd (settle st i l)) = (status_of l)(k \<mapsto> st)"
    by (auto simp: settle_def ledger_ready_def action_of_def status_of_def find_req_settled
        find_req_iff fun_eq_iff split: option.splits if_splits dest: map_of_SomeD)
next
  fix l st i
  assume "is_err (fst (settle st i l))"
  then show "snd (settle st i l) = l" by (auto simp: settle_def split: option.splits if_splits)
qed

section \<open>Properties\<close>

text \<open>What a run of the service's ledger, from its creation, passes and grants.\<close>

definition ledger_log ::
    "(string \<times> string) consent_event list \<Rightarrow> consent_ledger \<Rightarrow> (string \<times> string) consent_fact list"
  where "ledger_log = consent_log ask_action settle action_of"

text \<open>
  C16: Just-in-time consent is one-shot and bound to its action and session: in any run of the
  ledger from its creation, with any interleaving of requests by any sessions and of
  approvals and denials of any ids, the calls an action signature passes in a session are at
  most the approvals given to requests of that very signature and session.
\<close>

theorem consent_passes_le_approvals:
  assumes "asks es < 2 ^ 64"
  shows "count_list (ledger_log es new_ledger) (Passed (sig, session))
    \<le> count_list (ledger_log es new_ledger) (Granted (sig, session))"
proof -
  have "ledger_ready new_ledger (asks es)"
    using assms by (simp add: ledger_ready_def has_room_def) (simp add: new_ledger_def)
  from ledger.passes_le_grants [OF this, of "(sig, session)"] show ?thesis
    by (simp add: ledger_log_def ledger.open_grants_def status_of_def find_req_def new_ledger_def)
qed

definition ledger_after :: "(string \<times> string) consent_event list \<Rightarrow> consent_ledger \<Rightarrow> consent_ledger"
  where "ledger_after = consent_after ask_action settle"

text \<open>
  C17: A denial cannot be taken back. The comment on \<open>request_or_check\<close> says that a denied request is
  kept until the approver clears it; the ledger has no operation that clears one. Once the request of
  an action in a session stands denied, then in every run of the ledger, whatever is requested,
  approved or denied, that action does not pass in that session, and asking for it after the run is
  answered with the denial again.
\<close>

theorem consent_denied_permanent:
  assumes "ledger_ok l" "has_room l (asks es)" "status_of l (sig, session) = Some Denied"
  shows "Passed (sig, session) \<notin> set (ledger_log es l)
    \<and> fst (request_or_check sig session summary (ledger_after es l)) = Now_Denied"
proof -
  have "Passed (sig, session) \<notin> set (ledger_log es l)" "status_of (ledger_after es l) (sig, session) = Some Denied"
    using assms ledger.denied_for_good [of l es "(sig, session)"]
    by (simp_all add: ledger_ready_def ledger_log_def ledger_after_def)
  then show ?thesis by (auto simp: status_of_def request_or_check_def)
qed

text \<open>
  Pending requests are listed in the byte order of their ids, which is not the order of
  issue: the tenth request comes before the second.
\<close>

lemma list_pending_not_by_issue:
  "map fst (list_pending \<lparr>reqs = [(consent_id 2, \<lparr>rq_sig = ''a'', rq_session = ''s'',
        rq_summary = ''x'', rq_status = Pending\<rparr>), (consent_id 10, \<lparr>rq_sig = ''b'',
        rq_session = ''s'', rq_summary = ''y'', rq_status = Pending\<rparr>)], ledger_seq = 10\<rparr>)
     = [''consent_10'', ''consent_2'']"
  by (simp add: list_pending_def consent_id_def show_nat_small show_nat.simps [of 10]
      less_char_def)

lemma consent_passes_le_approvals_witness:
  "count_list (ledger_log [Ask (''exec|c'', ''s'') ''run'', Settle Approved ''consent_1'',
       Ask (''exec|c'', ''s'') ''run'', Ask (''exec|c'', ''s'') ''run''] new_ledger) (Passed (''exec|c'', ''s'')) \<le> 1"
  using consent_passes_le_approvals [of "[Ask (''exec|c'', ''s'') ''run'', Settle Approved ''consent_1'',
       Ask (''exec|c'', ''s'') ''run'', Ask (''exec|c'', ''s'') ''run'']" "''exec|c''" "''s''"]
  by (simp add: asks_def ledger_log_def ask_action_def request_or_check_def settle_def action_of_def
      find_req_def new_ledger_def consent_id_def Let_def show_nat_small)

lemma consent_denied_permanent_witness:
  "fst (request_or_check ''exec|c'' ''s'' ''run'' (ledger_after [Settle Approved ''consent_1'', Ask (''exec|c'', ''s'') ''run'']
     (snd (deny ''consent_1'' (snd (request_or_check ''exec|c'' ''s'' ''run'' new_ledger)))))) = Now_Denied"
proof -
  have room: "has_room new_ledger (Suc n)" if "n < 2 ^ 64 - 1" for n
    using that by (simp add: has_room_def new_ledger_def)
  let ?l = "snd (request_or_check ''exec|c'' ''s'' ''run'' new_ledger)"
  have "ledger_ok ?l" using request_ledger_ok(1) [OF new_ledger_ok room [of 1]] by simp
  then have "ledger_ok (snd (deny ''consent_1'' ?l))" by (simp add: deny_def settle_ledger_ok)
  then show ?thesis
    by (rule consent_denied_permanent [THEN conjunct2])
      (simp_all add: has_room_def asks_def status_of_def deny_def settle_def find_req_def
        request_or_check_def new_ledger_def consent_id_def Let_def show_nat_small)
qed

end
