(* ===== verification/Chain.thy ===== *)
theory Chain
  imports Sha256
begin

text \<open>
  Hash chains, the shape the session's in-memory audit and the durable log share: each entry
  carries its position, the hash of its predecessor and the hash of its own content. The locale
  states what an entry format has to provide, and proves in it what the chain is worth: two
  chains of one length that end in the same hash have the same contents, or two of those
  contents collide under SHA-256.
\<close>

section \<open>Chains\<close>

definition genesis :: string where
  "genesis = ''GENESIS''"

text \<open>\<open>sq\<close>, \<open>pv\<close>, \<open>hs\<close> read an entry's position, predecessor and hash; \<open>ct\<close> is the text hashed.\<close>

fun chain :: "('e \<Rightarrow> u64 option) \<Rightarrow> ('e \<Rightarrow> string) \<Rightarrow> ('e \<Rightarrow> string) \<Rightarrow> ('e \<Rightarrow> string)
    \<Rightarrow> nat \<Rightarrow> string \<Rightarrow> 'e list \<Rightarrow> bool" where
  "chain sq pv hs ct i h [] = True"
| "chain sq pv hs ct i h (e # es) =
     (sq e = Some (of_nat i) \<and> pv e = h \<and> hs e = sha256_hex (as_bytes (ct e))
      \<and> chain sq pv hs ct (Suc i) (hs e) es)"

text \<open>The hash a chain ends in.\<close>

definition head_of :: "('e \<Rightarrow> string) \<Rightarrow> string \<Rightarrow> 'e list \<Rightarrow> string" where
  "head_of hs h es = (if es = [] then h else hs (last es))"

lemma head_of_Nil [simp]: "head_of hs h [] = h"
  by (simp add: head_of_def)

lemma head_of_Cons [simp]: "head_of hs h (e # es) = head_of hs (hs e) es"
  by (simp add: head_of_def)

lemma head_of_snoc [simp]: "head_of hs h (es @ [e]) = hs e"
  by (simp add: head_of_def)

lemma chain_append:
  "chain sq pv hs ct i h (es @ fs) \<longleftrightarrow>
     chain sq pv hs ct i h es \<and> chain sq pv hs ct (i + length es) (head_of hs h es) fs"
  by (induction es arbitrary: i h) auto

lemma no_bar_hash [simp]: "CHR ''|'' \<notin> set (sha256_hex x)"
  by (rule sha256_hex_no) simp

lemma no_bar_genesis [simp]: "CHR ''|'' \<notin> set genesis"
  by (simp add: genesis_def)

lemma chain_head_no_bar:
  "chain sq pv hs ct i h es \<Longrightarrow> CHR ''|'' \<notin> set h \<Longrightarrow> CHR ''|'' \<notin> set (head_of hs h es)"
  by (induction es arbitrary: i h) auto

lemma last_field:
  "a @ CHR ''|'' # p = b @ CHR ''|'' # q \<Longrightarrow> CHR ''|'' \<notin> set p \<Longrightarrow> CHR ''|'' \<notin> set q \<Longrightarrow> p = q"
proof (induction a arbitrary: b)
  case Nil
  then show ?case by (cases b) auto
next
  case (Cons x a)
  then show ?case by (cases b) auto
qed

section \<open>What an entry format provides\<close>

locale hash_chain =
  fixes sq :: "'e \<Rightarrow> u64 option" and pv hs ct :: "'e \<Rightarrow> string"
  assumes binds: "ct e = ct f \<Longrightarrow> CHR ''|'' \<notin> set (pv e) \<Longrightarrow> CHR ''|'' \<notin> set (pv f) \<Longrightarrow> pv e = pv f"
begin

lemma chain_contents:
  assumes "chain sq pv hs ct i g es" "chain sq pv hs ct i g fs" "CHR ''|'' \<notin> set g"
    and "length es = length fs" "head_of hs g es = head_of hs g fs"
  shows "map ct es = map ct fs
    \<or> (\<exists>a \<in> ct ` set es. \<exists>b \<in> ct ` set fs. a \<noteq> b \<and> sha256_hex (as_bytes a) = sha256_hex (as_bytes b))"
  using assms
proof (induction es arbitrary: fs rule: rev_induct)
  case (snoc e es)
  then obtain f gs where fs: "fs = gs @ [f]" by (cases fs rule: rev_cases) auto
  note cs = snoc.prems(1,2) [unfolded fs chain_append chain.simps]
  show ?case
  proof (cases "ct e = ct f")
    case False
    have "sha256_hex (as_bytes (ct e)) = sha256_hex (as_bytes (ct f))"
      using cs snoc.prems(5) fs by simp
    with False fs show ?thesis by auto
  next
    case True
    have "pv e = pv f"
      using binds [OF True] chain_head_no_bar [of sq pv hs ct] cs snoc.prems(3) by metis
    then have "head_of hs g es = head_of hs g gs" using cs by simp
    with snoc.IH [of gs] cs snoc.prems(3,4) True fs show ?thesis by auto
  qed
qed simp

lemma chain_prefix: "chain sq pv hs ct i h (es @ fs) \<Longrightarrow> chain sq pv hs ct i h es"
  by (simp add: chain_append)

lemma chain_extend:
  "chain sq pv hs ct i h es \<Longrightarrow> sq e = Some (of_nat (i + length es)) \<Longrightarrow> pv e = head_of hs h es \<Longrightarrow>
     hs e = sha256_hex (as_bytes (ct e)) \<Longrightarrow> chain sq pv hs ct i h (es @ [e])"
  by (simp add: chain_append)

text \<open>Any entry of an intact chain: changing what is hashed, but not its hash, is noticed.\<close>

lemma chain_detects:
  "chain sq pv hs ct i h (es @ e # fs) \<Longrightarrow> hs e' = hs e \<Longrightarrow> chain sq pv hs ct i h (es @ e' # fs) \<Longrightarrow>
     sha256_hex (as_bytes (ct e')) = sha256_hex (as_bytes (ct e))"
  by (simp add: chain_append)

end

end
