(* ===== verification/Audit_Log.thy ===== *)
theory Audit_Log
  imports Chain World
begin

text \<open>
  \<open>audit.rs\<close>: the durable audit. One append-only log, a line per event, hash-chained over all
  sessions of a service, and an anchor file holding the number of events and the last hash. The
  state is the sink (kept in memory under one lock) and the two files. A write may fail at each
  of its steps, and leaves the files as the steps before it made them.
\<close>

section \<open>State\<close>

record disk =
  d_log :: "string option"
  d_anchor :: "string option"

record audit_sink =
  sk_path :: string
  sk_count :: u64
  sk_head :: string

datatype replay_error =
    ReadFailed string | BadFields nat | BadSeq | BrokenChain nat | ContentChanged nat

datatype sink_error =
    ReplayFailed replay_error | AnchorUnreadable | AnchorMismatch | SinkIo string

definition replay_error_text :: "replay_error \<Rightarrow> string" where
  "replay_error_text e = (case e of
      ReadFailed t \<Rightarrow> t
    | BadFields i \<Rightarrow> (''log '' @ U [0x7B2C] @ '' '') @ show_nat i @ ('' '' @ U [0x884C,
      0x5B57, 0x6BB5, 0x6570, 0x2260] @ ''7'')
    | BadSeq \<Rightarrow> ''bad seq''
    | BrokenChain i \<Rightarrow> (''log '' @ U [0x65AD, 0x94FE, 0x4E8E] @ '' seq='') @ show_nat i
    | ContentChanged i \<Rightarrow> (''log '' @ U [0x7B2C] @ '' '') @ show_nat i @ ('' ''
      @ U [0x884C, 0x5185, 0x5BB9, 0x88AB, 0x6539]))"

definition sink_error_text :: "sink_error \<Rightarrow> string" where
  "sink_error_text e = (case e of
      ReplayFailed r \<Rightarrow> (''log '' @ U [0x91CD, 0x653E, 0x5931, 0x8D25] @ '': '')
        @ replay_error_text r
    | AnchorUnreadable \<Rightarrow> (''anchor '' @ U [0x7F3A, 0x5931] @ ''/'' @ U [0x4E0D, 0x53EF,
      0x8BFB] @ '',fail-closed'')
    | AnchorMismatch \<Rightarrow> (''anchor '' @ U [0x4E0E] @ '' log '' @ U [0x4E0D, 0x4E00,
      0x81F4] @ '',fail-closed'')
    | SinkIo t \<Rightarrow> t)"

definition enoent_text :: string where
  "enoent_text = ''No such file or directory (os error 2)''"

definition bad_utf8_text :: string where
  "bad_utf8_text = ''stream did not contain valid UTF-8''"

section \<open>Replaying the log\<close>

text \<open>\<open>BufReader::lines\<close>: a line ends in a newline, or a carriage return and a newline.\<close>

definition strip_cr :: "string \<Rightarrow> string" where
  "strip_cr s = (if s \<noteq> [] \<and> last s = cr then butlast s else s)"

definition log_lines :: "string \<Rightarrow> string list" where
  "log_lines s = (let ps = split_on nl s in
     map strip_cr (butlast ps) @ (if last ps = [] then [] else [last ps]))"

definition event_content :: "string list \<Rightarrow> string" where
  "event_content p =
     p ! 0 @ ''|'' @ p ! 1 @ ''|'' @ p ! 2 @ ''|'' @ p ! 3 @ ''|'' @ p ! 4 @ ''|'' @ p ! 5"

fun replay_lines ::
    "nat \<Rightarrow> string \<Rightarrow> u64 \<times> string \<Rightarrow> string list \<Rightarrow> replay_error + u64 \<times> string" where
  "replay_lines i prev acc [] = Inr acc"
| "replay_lines i prev acc (line # rest) =
     (if \<not> valid_utf8 line then Inl (ReadFailed bad_utf8_text)
      else let p = split_on tab line in
        if length p \<noteq> 7 then Inl (BadFields i)
        else case parse_uint (2 ^ 64) (p ! 0) of
          None \<Rightarrow> Inl BadSeq
        | Some n \<Rightarrow>
            let seq = of_nat n :: u64 in
            if seq \<noteq> of_nat i \<or> p ! 5 \<noteq> prev then Inl (BrokenChain i)
            else if sha256_hex (as_bytes (event_content p)) \<noteq> p ! 6 then Inl (ContentChanged i)
            else replay_lines (Suc i) (p ! 6) (seq + 1, p ! 6) rest)"

definition replay_text :: "string \<Rightarrow> replay_error + u64 \<times> string" where
  "replay_text s = replay_lines 0 genesis (0, genesis) (log_lines s)"

definition replay :: "'w env \<Rightarrow> disk \<Rightarrow> 'w \<Rightarrow> (replay_error + u64 \<times> string) \<times> 'w" where
  "replay E d w =
     (case d_log d of
        None \<Rightarrow> (Inl (ReadFailed enoent_text), w)
      | Some s \<Rightarrow>
          (case os_audit_read E LogFile w of
             (Some e, w') \<Rightarrow> (Inl (ReadFailed e), w')
           | (None, w') \<Rightarrow> (replay_text s, w')))"

text \<open>\<open>read_to_string\<close> of the anchor.\<close>

definition read_anchor :: "'w env \<Rightarrow> disk \<Rightarrow> 'w \<Rightarrow> string option \<times> 'w" where
  "read_anchor E d w =
     (case d_anchor d of
        None \<Rightarrow> (None, w)
      | Some s \<Rightarrow>
          (case os_audit_read E AnchorFile w of
             (Some e, w') \<Rightarrow> (None, w')
           | (None, w') \<Rightarrow> (if valid_utf8 s then Some s else None, w')))"

definition anchor_matches :: "string \<Rightarrow> u64 \<times> string \<Rightarrow> bool" where
  "anchor_matches anchor ch =
     (let a = split_on tab (trim anchor) in
      length a = 2 \<and> parse_uint (2 ^ 64) (a ! 0) = Some (unat (fst ch)) \<and> a ! 1 = snd ch)"

section \<open>Opening, recording, verifying\<close>

definition sink_open ::
    "'w env \<Rightarrow> string \<Rightarrow> disk \<Rightarrow> 'w \<Rightarrow> (sink_error + audit_sink) \<times> disk \<times> 'w" where
  "sink_open E path d w =
     (case (if d_log d = None then (Inr (0, genesis), w)
            else case replay E d w of
              (Inl e, w') \<Rightarrow> (Inl (ReplayFailed e), w')
            | (Inr ch, w') \<Rightarrow> (Inr ch, w')) of
        (Inl e, w1) \<Rightarrow> (Inl e, d, w1)
      | (Inr ch, w1) \<Rightarrow>
          (case (if 0 < fst ch \<or> d_anchor d \<noteq> None
                 then (case read_anchor E d w1 of
                         (None, w') \<Rightarrow> (Some AnchorUnreadable, w')
                       | (Some a, w') \<Rightarrow> (if anchor_matches a ch then None else Some AnchorMismatch, w'))
                 else (None, w1)) of
             (Some e, w2) \<Rightarrow> (Inl e, d, w2)
           | (None, w2) \<Rightarrow>
               (case os_audit_open E w2 of
                  (Some e, w3) \<Rightarrow> (Inl (SinkIo e), d, w3)
                | (None, w3) \<Rightarrow>
                    (Inr \<lparr>sk_path = path, sk_count = fst ch, sk_head = snd ch\<rparr>,
                     (case d_log d of None \<Rightarrow> d\<lparr>d_log := Some []\<rparr> | Some s \<Rightarrow> d), w3))))"

definition append_log :: "string \<Rightarrow> disk \<Rightarrow> disk" where
  "append_log t d = d\<lparr>d_log := map_option (\<lambda>s. s @ t) (d_log d)\<rparr>"

text \<open>
  The directory of the anchor is opened and synced after the rename. For a bare file name the
  parent is the empty path, which cannot be opened.
\<close>

definition parent_opens :: "string \<Rightarrow> bool" where
  "parent_opens path \<longleftrightarrow> CHR ''/'' \<in> set path"

definition write_anchor_atomic ::
    "io_fault \<Rightarrow> string \<Rightarrow> u64 \<Rightarrow> string \<Rightarrow> disk \<Rightarrow> bool \<times> disk" where
  "write_anchor_atomic fault path count head d =
     (if fault = TmpFile \<or> fault = Rename then (False, d)
      else let d' = d\<lparr>d_anchor := Some (show_nat (unat count) @ [tab] @ head)\<rparr> in
        (fault \<noteq> DirSync \<and> parent_opens path, d'))"

definition record_fields ::
    "u64 \<Rightarrow> string \<Rightarrow> string \<Rightarrow> string \<Rightarrow> string \<Rightarrow> string \<Rightarrow> string list" where
  "record_fields seq session op detail dec prev =
     (let p = [show_nat (unat seq), session, op, detail, dec, prev] in
      p @ [sha256_hex (as_bytes (event_content p))])"

definition sink_record ::
    "io_fault \<Rightarrow> string \<Rightarrow> string \<Rightarrow> string \<Rightarrow> string \<Rightarrow> audit_sink \<Rightarrow> disk
      \<Rightarrow> bool \<times> audit_sink \<times> disk" where
  "sink_record fault session op detail dec sk d =
     (let p = record_fields (sk_count sk) session op detail dec (sk_head sk);
          line = join [tab] p @ [nl] in
      case fault of
        LogWrite k \<Rightarrow> (False, sk, append_log (take k line) d)
      | LogSync \<Rightarrow> (False, sk, append_log line d)
      | _ \<Rightarrow>
        (let d1 = append_log line d in
         case write_anchor_atomic fault (sk_path sk @ ''.anchor'') (sk_count sk + 1) (p ! 6) d1 of
           (False, d2) \<Rightarrow> (False, sk, d2)
         | (True, d2) \<Rightarrow> (True, sk\<lparr>sk_count := sk_count sk + 1, sk_head := p ! 6\<rparr>, d2)))"

definition verify_persisted :: "'w env \<Rightarrow> disk \<Rightarrow> 'w \<Rightarrow> bool \<times> 'w" where
  "verify_persisted E d w =
     (case replay E d w of
        (Inl e, w1) \<Rightarrow> (False, w1)
      | (Inr ch, w1) \<Rightarrow>
          (case read_anchor E d w1 of
             (None, w2) \<Rightarrow> (False, w2)
           | (Some a, w2) \<Rightarrow> (anchor_matches a ch, w2)))"

section \<open>What replaying accepts\<close>

definition log_seq :: "string list \<Rightarrow> u64 option" where
  "log_seq p = map_option of_nat (parse_uint (2 ^ 64) (p ! 0))"

lemma event_content_binds:
  assumes "event_content p = event_content q" "CHR ''|'' \<notin> set (p ! 5)" "CHR ''|'' \<notin> set (q ! 5)"
  shows "p ! 5 = q ! 5"
  using assms last_field [of "p ! 0 @ ''|'' @ p ! 1 @ ''|'' @ p ! 2 @ ''|'' @ p ! 3 @ ''|'' @ p ! 4" "p ! 5"
      "q ! 0 @ ''|'' @ q ! 1 @ ''|'' @ q ! 2 @ ''|'' @ q ! 3 @ ''|'' @ q ! 4" "q ! 5"]
  by (simp add: event_content_def)

interpretation log: hash_chain log_seq "\<lambda>p. p ! 5" "\<lambda>p. p ! 6" event_content
  by unfold_locales (rule event_content_binds)

abbreviation log_chain :: "nat \<Rightarrow> string \<Rightarrow> string list list \<Rightarrow> bool" where
  "log_chain \<equiv> chain log_seq (\<lambda>p. p ! 5) (\<lambda>p. p ! 6) event_content"

definition log_line_ok :: "string \<Rightarrow> bool" where
  "log_line_ok l \<longleftrightarrow> valid_utf8 l \<and> length (split_on tab l) = 7"

lemma replay_lines_chain:
  "replay_lines i prev acc ls = Inr r \<longleftrightarrow>
     list_all log_line_ok ls \<and> log_chain i prev (map (split_on tab) ls)
     \<and> r = (if ls = [] then acc
            else (of_nat (i + length ls), head_of (\<lambda>p. p ! 6) prev (map (split_on tab) ls)))"
proof (induction i prev acc ls rule: replay_lines.induct)
  case (2 i prev acc line rest)
  show ?case
  proof (cases "log_line_ok line \<and> (\<exists>n. parse_uint (2 ^ 64) (split_on tab line ! 0) = Some n
      \<and> (of_nat n :: u64) = of_nat i \<and> split_on tab line ! 5 = prev
      \<and> sha256_hex (as_bytes (event_content (split_on tab line))) = split_on tab line ! 6)")
    case True
    then obtain n where n: "parse_uint (2 ^ 64) (split_on tab line ! 0) = Some n"
      "(of_nat n :: u64) = of_nat i" "split_on tab line ! 5 = prev" "log_line_ok line"
      "sha256_hex (as_bytes (event_content (split_on tab line))) = split_on tab line ! 6" by blast
    have IH: "replay_lines (Suc i) (split_on tab line ! 6) (of_nat n + 1, split_on tab line ! 6) rest = Inr r
        \<longleftrightarrow> list_all log_line_ok rest \<and> log_chain (Suc i) (split_on tab line ! 6) (map (split_on tab) rest)
     \<and> r = (if rest = [] then (of_nat n + 1, split_on tab line ! 6)
            else (of_nat (Suc i + length rest),
                  head_of (\<lambda>p. p ! 6) (split_on tab line ! 6) (map (split_on tab) rest)))"
      using 2 [OF _ refl _ n(1) refl] n by (auto simp: log_line_ok_def [of line])
    have step: "replay_lines i prev acc (line # rest)
        = replay_lines (Suc i) (split_on tab line ! 6) (of_nat n + 1, split_on tab line ! 6) rest"
      using n by (simp add: log_line_ok_def Let_def)
    show ?thesis unfolding step IH using n by (auto simp: log_seq_def [of "split_on tab line"] add.commute)
  next
    case False
    then have "\<not> is_ok (replay_lines i prev acc (line # rest))
        \<and> \<not> (log_line_ok line \<and> log_seq (split_on tab line) = Some (of_nat i)
          \<and> split_on tab line ! 5 = prev
          \<and> split_on tab line ! 6 = sha256_hex (as_bytes (event_content (split_on tab line))))"
      by (auto simp: log_line_ok_def log_seq_def Let_def split: option.splits)
    then show ?thesis by auto
  qed
qed auto

lemma replay_text_chain:
  "replay_text s = Inr (n, h) \<longleftrightarrow>
     list_all log_line_ok (log_lines s) \<and> log_chain 0 genesis (map (split_on tab) (log_lines s))
     \<and> n = of_nat (length (log_lines s))
     \<and> h = head_of (\<lambda>p. p ! 6) genesis (map (split_on tab) (log_lines s))"
  by (auto simp: replay_text_def replay_lines_chain)

section \<open>Lines\<close>

lemma split_on_snoc: "split_on c (xs @ [c]) = split_on c xs @ [[]]"
  by (induction xs) (auto split: list.splits)

lemma split_on_append_snoc:
  assumes "s = [] \<or> last s = c"
  shows "split_on c (s @ t) = butlast (split_on c s) @ split_on c t"
proof (cases "s = []")
  case False
  with assms obtain s' where s: "s = s' @ [c]" by (metis append_butlast_last_id)
  have "split_on c (s' @ c # t) = split_on c s' @ split_on c t" for s'
    by (induction s') (auto split: list.splits)
  then show ?thesis by (simp add: s split_on_snoc)
qed simp

lemma log_lines_append:
  assumes "s = [] \<or> last s = nl" "nl \<notin> set l" "l = [] \<or> last l \<noteq> cr"
  shows "log_lines (s @ l @ [nl]) = log_lines s @ [l]"
proof -
  have "split_on nl (l @ [nl]) = [l, []]" using assms(2) by (simp add: split_on_snoc split_on_no_sep)
  then have "split_on nl (s @ l @ [nl]) = butlast (split_on nl s) @ [l, []]"
    using split_on_append_snoc [OF assms(1)] by simp
  moreover have "last (split_on nl s) = []"
    using assms(1) split_on_snoc [of nl "butlast s"] append_butlast_last_id [of s]
    by (cases "s = []") auto
  ultimately show ?thesis
    using assms(3) by (auto simp: log_lines_def butlast_append strip_cr_def)
qed

text \<open>A field that can be written and read back: valid text without tabs and newlines.\<close>

definition clean_field :: "string \<Rightarrow> bool" where
  "clean_field s \<longleftrightarrow> valid_utf8 s \<and> tab \<notin> set s \<and> nl \<notin> set s"

lemma clean_show_nat [simp]: "clean_field (show_nat n)"
  by (simp add: clean_field_def valid_utf8_ascii show_nat_no)

lemma clean_hash [simp]: "clean_field (sha256_hex x)"
  by (simp add: clean_field_def valid_utf8_ascii sha256_hex_no)

lemma clean_genesis [simp]: "clean_field genesis"
  by (simp add: clean_field_def genesis_def valid_utf8_ascii is_ascii_def)

lemma fields_roundtrip:
  assumes "\<forall>f \<in> set p. clean_field f" "length p = 7"
  shows "split_on tab (join [tab] p) = p" "log_line_ok (join [tab] p)" "nl \<notin> set (join [tab] p)"
proof -
  show sp: "split_on tab (join [tab] p) = p"
    using assms by (intro split_on_join) (auto simp: clean_field_def)
  have "valid_utf8 [tab]" by (simp add: valid_utf8_ascii is_ascii_def)
  then show "log_line_ok (join [tab] p)"
    using assms sp by (simp add: log_line_ok_def valid_utf8_join clean_field_def)
  show "nl \<notin> set (join [tab] p)"
    using set_join_subset [of "[tab]" p] assms(1) by (auto simp: clean_field_def)
qed

lemma last_join:
  "ps \<noteq> [] \<Longrightarrow> last ps \<noteq> [] \<Longrightarrow> join sep ps \<noteq> [] \<and> last (join sep ps) = last (last ps)"
proof (induction ps)
  case (Cons p ps)
  then show ?case by (cases "ps = []") (auto simp: join_Cons_ne)
qed simp

section \<open>A sink in step with its files\<close>

definition synced :: "audit_sink \<Rightarrow> disk \<Rightarrow> bool" where
  "synced sk d \<longleftrightarrow>
     (\<exists>s. d_log d = Some s \<and> (s = [] \<or> last s = nl) \<and> replay_text s = Inr (sk_count sk, sk_head sk)
        \<and> length (log_lines s) < 2 ^ 64
        \<and> (case d_anchor d of
             None \<Rightarrow> s = []
           | Some a \<Rightarrow> valid_utf8 a \<and> anchor_matches a (sk_count sk, sk_head sk)))"

text \<open>The event lines of a sink's disk, and room for one more.\<close>

definition log_room :: "disk \<Rightarrow> nat \<Rightarrow> bool" where
  "log_room d n \<longleftrightarrow> (case d_log d of None \<Rightarrow> n < 2 ^ 64 | Some s \<Rightarrow> length (log_lines s) + n < 2 ^ 64)"

lemma anchor_matches_written:
  assumes "h \<noteq> []" "is_ascii h" "tab \<notin> set h" "\<not> is_whitespace (of_char (last h))"
  shows "anchor_matches (show_nat (unat n) @ [tab] @ h) (n, h)"
proof -
  have "is_digit (hd (show_nat (unat n)))"
    using show_nat_digits [of "unat n"] show_nat_ne [of "unat n"] by (cases "show_nat (unat n)") auto
  then have "\<not> is_whitespace (of_char (hd (show_nat (unat n))))"
    by (auto simp: is_digit_def is_whitespace_def)
  then have "trim (show_nat (unat n) @ [tab] @ h) = show_nat (unat n) @ [tab] @ h"
    using assms by (intro trim_ends) (auto simp: is_ascii_Cons)
  moreover have "split_on tab (show_nat (unat n) @ [tab] @ h) = [show_nat (unat n), h]"
    using assms(3) show_nat_no [of tab] by (simp add: split_on_append_sep split_on_no_sep)
  ultimately show ?thesis
    using unsigned_less [of n, where 'a = nat] by (simp add: anchor_matches_def parse_show_nat)
qed

lemma anchor_matches_hash:
  "anchor_matches (show_nat (unat n) @ [tab] @ sha256_hex x) (n, sha256_hex x)"
proof (rule anchor_matches_written)
  have ne: "sha256_hex x \<noteq> []" using length_sha256_hex [of x] by (metis list.size(3) zero_neq_numeral)
  then show "sha256_hex x \<noteq> []" .
  have "is_hex_digit (last (sha256_hex x))"
    using ne sha256_hex_hex [of x] by (simp add: list_all_iff)
  then show "\<not> is_whitespace (of_char (last (sha256_hex x)))"
    by (auto simp: is_hex_digit_def is_digit_def is_whitespace_def)
qed (simp_all add: sha256_hex_no)

lemma record_fields_nth:
  "length (record_fields seq session op detail dec prev) = 7"
  "record_fields seq session op detail dec prev ! 0 = show_nat (unat seq)"
  "record_fields seq session op detail dec prev ! 5 = prev"
  "record_fields seq session op detail dec prev ! 6
     = sha256_hex (as_bytes (event_content (record_fields seq session op detail dec prev)))"
  by (simp_all add: record_fields_def Let_def event_content_def)

lemma replay_record_line:
  assumes r: "replay_text s = Inr (n, h)" and s: "s = [] \<or> last s = nl"
    and clean: "clean_field session" "clean_field op" "clean_field detail" "clean_field dec"
    and p: "p = record_fields q session op detail dec g" and g: "clean_field g"
  shows "log_lines (s @ join [tab] p @ [nl]) = log_lines s @ [join [tab] p]"
    and "replay_text (s @ join [tab] p @ [nl]) =
      (if q = n \<and> g = h then Inr (n + 1, p ! 6) else Inl (BrokenChain (length (log_lines s))))"
proof -
  have cf: "\<forall>f \<in> set p. clean_field f" using clean g by (auto simp: p record_fields_def Let_def)
  note rt = fields_roundtrip [OF cf, unfolded p record_fields_nth, OF refl, folded p]
  have ne: "p \<noteq> []" "last p = p ! 6" by (simp_all add: p record_fields_def Let_def)
  have "last (join [tab] p) \<noteq> cr"
  proof -
    have "p ! 6 \<noteq> []" using record_fields_nth(4) length_sha256_hex unfolding p
      by (metis list.size(3) zero_neq_numeral)
    moreover have "cr \<notin> set (p ! 6)" unfolding p record_fields_nth(4) by (rule sha256_hex_no) simp
    ultimately show ?thesis using last_join [of p "[tab]"] ne by (metis last_in_set)
  qed
  then show lines: "log_lines (s @ join [tab] p @ [nl]) = log_lines s @ [join [tab] p]"
    using log_lines_append [OF s rt(3)] by simp
  have app: "replay_lines i prev acc (ls @ [l]) =
      (case replay_lines i prev acc ls of Inl e \<Rightarrow> Inl e
       | Inr r \<Rightarrow> replay_lines (i + length ls)
           (head_of (\<lambda>p. p ! 6) prev (map (split_on tab) ls)) r [l])" for i prev acc ls l
    by (induction i prev acc ls rule: replay_lines.induct) (auto simp: Let_def split: option.splits sum.splits)
  have nh: "word_of_nat (length (log_lines s)) = n"
      "head_of (\<lambda>p. p ! 6) genesis (map (split_on tab) (log_lines s)) = h"
    using r by (simp_all add: replay_text_chain)
  have "parse_uint (2 ^ 64) (p ! 0) = Some (unat q)"
    using unsigned_less [of q, where 'a = nat] by (simp add: p record_fields_nth parse_show_nat)
  then show "replay_text (s @ join [tab] p @ [nl]) =
      (if q = n \<and> g = h then Inr (n + 1, p ! 6) else Inl (BrokenChain (length (log_lines s))))"
    using rt(1,2) unfolding replay_text_def lines app r [unfolded replay_text_def]
    by (simp add: log_line_ok_def Let_def p record_fields_nth nh)
qed

lemma synced_head_clean:
  assumes "synced sk d" shows "clean_field (sk_head sk)"
proof -
  obtain s where s: "list_all log_line_ok (log_lines s)"
    "log_chain 0 genesis (map (split_on tab) (log_lines s))"
    "sk_head sk = head_of (\<lambda>p. p ! 6) genesis (map (split_on tab) (log_lines s))"
    using assms by (auto simp: synced_def replay_text_chain)
  have "chain sq pv hs ct i h es \<Longrightarrow> clean_field h \<Longrightarrow> clean_field (head_of hs h es)"
    for sq :: "string list \<Rightarrow> u64 option" and pv hs ct i h es
    by (induction es arbitrary: i h) auto
  from this [OF s(2)] show ?thesis by (simp add: s(3))
qed

lemma sink_record_ok_cases:
  assumes "sink_record f session op detail dec sk d = (True, sk', d')"
  obtains "f = NoFault" "parent_opens (sk_path sk @ ''.anchor'')"
    "sk' = sk\<lparr>sk_count := sk_count sk + 1,
             sk_head := record_fields (sk_count sk) session op detail dec (sk_head sk) ! 6\<rparr>"
    "d' = (append_log (join [tab] (record_fields (sk_count sk) session op detail dec (sk_head sk)) @ [nl]) d)
        \<lparr>d_anchor := Some (show_nat (unat (sk_count sk + 1)) @ [tab]
            @ record_fields (sk_count sk) session op detail dec (sk_head sk) ! 6)\<rparr>"
  using assms
  by (cases f) (auto simp: sink_record_def write_anchor_atomic_def Let_def split: if_splits bool.splits)

text \<open>A record that reports success leaves sink, log and anchor in step.\<close>

lemma sink_record_synced:
  assumes sy: "synced sk d" and room: "log_room d 1"
    and clean: "clean_field session" "clean_field op" "clean_field detail" "clean_field dec"
    and ok: "sink_record f session op detail dec sk d = (True, sk', d')"
  shows "synced sk' d' \<and> d_anchor d' \<noteq> None \<and> sk_path sk' = sk_path sk
    \<and> log_room d' n = log_room d (Suc n)"
proof -
  let ?p = "record_fields (sk_count sk) session op detail dec (sk_head sk)"
  obtain s where s: "d_log d = Some s" "s = [] \<or> last s = nl"
    "replay_text s = Inr (sk_count sk, sk_head sk)"
    using sy by (auto simp: synced_def)
  note line = replay_record_line [OF s(3,2) clean refl synced_head_clean [OF sy]]
  from ok show ?thesis
  proof (cases rule: sink_record_ok_cases)
    case 1
    have "anchor_matches (show_nat (unat (sk_count sk + 1)) @ [tab] @ ?p ! 6) (sk_count sk + 1, ?p ! 6)"
      unfolding record_fields_nth(4) by (rule anchor_matches_hash)
    moreover have "valid_utf8 (show_nat (unat (sk_count sk + 1)) @ [tab] @ ?p ! 6)"
      unfolding record_fields_nth(4) by (intro valid_utf8_ascii) (simp add: is_ascii_Cons)
    ultimately show ?thesis
      using 1 s line [of "sk_count sk"] room
      by (simp add: synced_def append_log_def log_room_def)
  qed
qed

lemma sink_record_append_only:
  "d_log (snd (snd (sink_record f session op detail dec sk d)))
     = map_option (\<lambda>s. s @ (case f of
         LogWrite k \<Rightarrow> take k (join [tab] (record_fields (sk_count sk) session op detail dec (sk_head sk)) @ [nl])
       | _ \<Rightarrow> join [tab] (record_fields (sk_count sk) session op detail dec (sk_head sk)) @ [nl])) (d_log d)"
  by (cases f) (simp_all add: sink_record_def write_anchor_atomic_def append_log_def Let_def
      split: bool.split)

section \<open>A run of the sink\<close>

text \<open>Events are (session, op, detail, decision); each write meets the fault given with it.\<close>

type_synonym event = "string \<times> string \<times> string \<times> string"

fun record_all :: "event list \<Rightarrow> audit_sink \<Rightarrow> disk \<Rightarrow> bool \<times> audit_sink \<times> disk" where
  "record_all [] sk d = (True, sk, d)"
| "record_all ((ses, op, det, dec) # es) sk d =
     (case sink_record NoFault ses op det dec sk d of
        (True, sk', d') \<Rightarrow> record_all es sk' d'
      | (False, sk', d') \<Rightarrow> (False, sk', d'))"

definition clean_event :: "event \<Rightarrow> bool" where
  "clean_event e = (case e of (a, b, c, d) \<Rightarrow>
     clean_field a \<and> clean_field b \<and> clean_field c \<and> clean_field d)"

definition reads_fine :: "'w env \<Rightarrow> bool" where
  "reads_fine E \<longleftrightarrow> (\<forall>f w. fst (os_audit_read E f w) = None) \<and> (\<forall>w. fst (os_audit_open E w) = None)"

lemma sink_record_succeeds:
  "parent_opens (sk_path sk @ ''.anchor'') \<Longrightarrow> fst (sink_record NoFault a b c d sk dk) = True"
  by (simp add: sink_record_def write_anchor_atomic_def Let_def)

lemma record_all_synced:
  "synced sk d \<Longrightarrow> log_room d (length es) \<Longrightarrow> list_all clean_event es \<Longrightarrow>
   CHR ''/'' \<in> set (sk_path sk) \<Longrightarrow> (d_anchor d \<noteq> None \<or> es \<noteq> []) \<Longrightarrow>
     case record_all es sk d of (ok, sk', d') \<Rightarrow>
       ok \<and> synced sk' d' \<and> d_anchor d' \<noteq> None \<and> sk_path sk' = sk_path sk"
proof (induction es arbitrary: sk d)
  case (Cons e es)
  obtain ses op det dec where e: "e = (ses, op, det, dec)" by (cases e)
  obtain ok sk' d' where step: "sink_record NoFault ses op det dec sk d = (ok, sk', d')"
    by (cases "sink_record NoFault ses op det dec sk d")
  have ok: "ok = True"
    using sink_record_succeeds [of sk ses op det dec d] Cons.prems(4) step
    by (simp add: parent_opens_def)
  have room: "log_room d 1" using Cons.prems(2) by (simp add: log_room_def split: option.splits)
  have "synced sk' d' \<and> d_anchor d' \<noteq> None \<and> sk_path sk' = sk_path sk \<and> log_room d' (length es)"
    using sink_record_synced [OF Cons.prems(1) room _ _ _ _ step [unfolded ok], of "length es"]
      Cons.prems(2,3) by (simp add: e clean_event_def)
  then show ?case using Cons.IH [of sk' d'] Cons.prems(3,4) step ok by (simp add: e)
qed (auto split: option.splits)

lemma reads_fine_read:
  assumes "reads_fine E"
  shows "replay E d w = (case d_log d of None \<Rightarrow> (Inl (ReadFailed enoent_text), w)
      | Some s \<Rightarrow> (replay_text s, snd (os_audit_read E LogFile w)))"
    and "read_anchor E d w = (case d_anchor d of None \<Rightarrow> (None, w)
      | Some s \<Rightarrow> (if valid_utf8 s then Some s else None, snd (os_audit_read E AnchorFile w)))"
  using assms by (auto simp: reads_fine_def replay_def read_anchor_def split: option.splits prod.splits)
    (metis fst_conv option.distinct(1))+

lemma synced_verifies:
  assumes "synced sk d" "d_anchor d \<noteq> None" "reads_fine E"
  shows "fst (verify_persisted E d w) \<and> fst (sink_open E (sk_path sk) d w) = Inr sk
    \<and> fst (snd (sink_open E (sk_path sk) d w)) = d"
proof -
  obtain s a where d: "d_log d = Some s" "replay_text s = Inr (sk_count sk, sk_head sk)"
    "d_anchor d = Some a" "valid_utf8 a" "anchor_matches a (sk_count sk, sk_head sk)"
    using assms(1,2) by (auto simp: synced_def split: option.splits)
  obtain w3 where op: "os_audit_open E (snd (os_audit_read E AnchorFile
      (snd (os_audit_read E LogFile w)))) = (None, w3)"
    using assms(3) unfolding reads_fine_def by (metis eq_fst_iff)
  show ?thesis
    using d op by (simp add: verify_persisted_def sink_open_def reads_fine_read [OF assms(3)])
qed

lemma new_disk_synced:
  assumes "reads_fine E" "d_log d = None" "d_anchor d = None" "sink_open E path d w = (Inr sk, d', w')"
  shows "synced sk d' \<and> sk_path sk = path \<and> d_anchor d' = None \<and> d_log d' = Some []"
proof -
  have "replay_text [] = Inr (0, genesis)" by (simp add: replay_text_def log_lines_def)
  then show ?thesis
    using assms by (auto simp: sink_open_def synced_def log_lines_def split: prod.splits option.splits)
qed

section \<open>Properties\<close>

text \<open>
  The anchor of a log given by a bare file name has the empty path as parent, which cannot be
  opened: every record of such a sink fails.
\<close>

lemma sink_record_bare_path:
  "CHR ''/'' \<notin> set (sk_path sk) \<Longrightarrow> fst (sink_record f a b c e sk d) = False"
  by (cases f) (auto simp: sink_record_def write_anchor_atomic_def parent_opens_def Let_def split: bool.splits)

text \<open>What a log has recorded: session, operation, detail and decision of each of its lines.\<close>

definition logged :: "disk \<Rightarrow> string list list" where
  "logged d = (case d_log d of None \<Rightarrow> [] | Some s \<Rightarrow> map (\<lambda>l. take 4 (drop 1 (split_on tab l))) (log_lines s))"

definition event_fields :: "event \<Rightarrow> string list" where
  "event_fields e = (case e of (a, b, c, d) \<Rightarrow> [a, b, c, d])"

lemma sink_record_logged:
  assumes sy: "synced sk d" and clean: "clean_event (a, b, c, e)" and ok: "sink_record f a b c e sk d = (True, sk', d')"
  shows "logged d' = logged d @ [[a, b, c, e]]" "sk_count sk' = sk_count sk + 1"
proof -
  let ?p = "record_fields (sk_count sk) a b c e (sk_head sk)"
  obtain s where s: "d_log d = Some s" "s = [] \<or> last s = nl" "replay_text s = Inr (sk_count sk, sk_head sk)"
    using sy by (auto simp: synced_def)
  have cl: "clean_field a" "clean_field b" "clean_field c" "clean_field e" using clean by (simp_all add: clean_event_def)
  have line: "log_lines (s @ join [tab] ?p @ [nl]) = log_lines s @ [join [tab] ?p]"
    using replay_record_line(1) [OF s(3,2) cl refl synced_head_clean [OF sy]] .
  have cf: "\<forall>f \<in> set ?p. clean_field f"
    using cl synced_head_clean [OF sy] by (auto simp: record_fields_def Let_def)
  have "take 4 (drop 1 (split_on tab (join [tab] ?p))) = [a, b, c, e]"
    unfolding fields_roundtrip(1) [OF cf record_fields_nth(1)] by (simp add: record_fields_def Let_def)
  with line show "logged d' = logged d @ [[a, b, c, e]]" "sk_count sk' = sk_count sk + 1"
    using ok s(1) by (auto elim!: sink_record_ok_cases simp: logged_def append_log_def)
qed

lemma record_all_logged:
  "synced sk d \<Longrightarrow> log_room d (length es) \<Longrightarrow> list_all clean_event es \<Longrightarrow> record_all es sk d = (True, sk', d') \<Longrightarrow>
     logged d' = logged d @ map event_fields es \<and> sk_count sk' = sk_count sk + of_nat (length es)"
proof (induction es arbitrary: sk d)
  case (Cons x es)
  obtain a b c e where x: "x = (a, b, c, e)" by (cases x)
  obtain sk1 d1 where one: "sink_record NoFault a b c e sk d = (True, sk1, d1)" "record_all es sk1 d1 = (True, sk', d')"
    using Cons.prems(4) by (auto simp: x split: prod.splits bool.splits)
  have cl: "clean_event (a, b, c, e)" "list_all clean_event es" using Cons.prems(3) by (simp_all add: x)
  have room: "log_room d 1" using Cons.prems(2) by (simp add: log_room_def split: option.splits)
  have "synced sk1 d1" "log_room d1 (length es)"
    using sink_record_synced [OF Cons.prems(1) room _ _ _ _ one(1), of "length es"] cl(1) Cons.prems(2)
    by (simp_all add: clean_event_def)
  from Cons.IH [OF this cl(2) one(2)] sink_record_logged [OF Cons.prems(1) cl(1) one(1)]
  show ?case by (simp add: x event_fields_def)
qed simp

text \<open>
  C18: The durable audit round-trips. Assume fresh files, reads and opens that do not fail, and
  writes that do not; record a non-empty list of events, fewer than two to the 64, whose texts are
  UTF-8 without tabs and line breaks. All records succeed exactly when the path of the log names a
  directory. Then the log's lines are the events in order, the files verify, and opening them again,
  as a restart does, leaves them as they are and gives the very state the running sink had reached.
  With a bare file name the first record fails and the sink stays where it was.
\<close>

theorem audit_roundtrip:
  assumes E: "reads_fine E" and new: "d_log d = None" "d_anchor d = None"
    and es: "es \<noteq> []" "list_all clean_event es" "length es < 2 ^ 64"
    and run: "sink_open E path d w = (Inr sk, d1, w1)" "record_all es sk d1 = (ok, sk2, d2)"
  shows "(ok \<longleftrightarrow> CHR ''/'' \<in> set path) \<and> (\<not> ok \<longrightarrow> sk2 = sk)
    \<and> (ok \<longrightarrow> logged d2 = map event_fields es \<and> sk_count sk2 = of_nat (length es)
         \<and> fst (verify_persisted E d2 w2)
         \<and> fst (sink_open E path d2 w2) = Inr sk2 \<and> fst (snd (sink_open E path d2 w2)) = d2)"
proof (cases "CHR ''/'' \<in> set path")
  case True
  note start = new_disk_synced [OF E new run(1)]
  have room: "log_room d1 (length es)" using start es(3) by (simp add: log_room_def log_lines_def)
  with record_all_synced [of sk d1 es] start es True run(2)
  have ok: "ok \<and> synced sk2 d2 \<and> d_anchor d2 \<noteq> None \<and> sk_path sk2 = path" by simp
  have "sk_count sk = 0" using run(1) new by (auto simp: sink_open_def split: prod.splits option.splits)
  moreover have "logged d1 = []" using start by (simp add: logged_def log_lines_def)
  ultimately have "logged d2 = map event_fields es" "sk_count sk2 = of_nat (length es)"
    using record_all_logged [of sk d1 es sk2 d2] start room es(2) ok run(2) by simp_all
  with True ok synced_verifies [OF _ _ E, of sk2 d2 w2] show ?thesis by simp
next
  case False
  have p: "sk_path sk = path" using new_disk_synced [OF E new run(1)] by simp
  obtain a b c e es' where es': "es = (a, b, c, e) # es'" using es(1) by (cases es) auto
  have no: "fst (sink_record NoFault a b c e sk d1) = False" using sink_record_bare_path False p by simp
  then have "fst (snd (sink_record NoFault a b c e sk d1)) = sk"
    by (auto simp: sink_record_def write_anchor_atomic_def Let_def split: bool.splits)
  with no have "\<not> ok \<and> sk2 = sk" using run(2) by (auto simp: es' split: prod.splits bool.splits)
  then show ?thesis using False by simp
qed

lemma verify_persisted_replay:
  "fst (verify_persisted E d w) \<Longrightarrow>
     \<exists>s a ch. d_log d = Some s \<and> replay_text s = Inr ch \<and> d_anchor d = Some a \<and> anchor_matches a ch"
  by (auto simp: verify_persisted_def replay_def read_anchor_def
      split: option.splits prod.splits sum.splits if_splits)

lemma anchor_matches_unique: "anchor_matches a ch \<Longrightarrow> anchor_matches a ch' \<Longrightarrow> ch = ch'"
  by (auto simp: anchor_matches_def Let_def prod_eq_iff word_unat_eq_iff)

text \<open>
  Tail truncation is detected: if a log and its anchor verify, then no log with fewer lines
  verifies against the same anchor, so in particular none that lost lines at the end.
\<close>

theorem audit_truncation_detected:
  assumes "fst (verify_persisted E d w)" "d_log d = Some s"
    and "length (log_lines t) < length (log_lines s)" "length (log_lines s) < 2 ^ 64"
  shows "\<not> fst (verify_persisted E (d\<lparr>d_log := Some t\<rparr>) w')"
proof
  assume "fst (verify_persisted E (d\<lparr>d_log := Some t\<rparr>) w')"
  then obtain a ch where t: "replay_text t = Inr ch" "d_anchor d = Some a" "anchor_matches a ch"
    by (auto dest: verify_persisted_replay)
  obtain ch' where s: "replay_text s = Inr ch'" "anchor_matches a ch'"
    using verify_persisted_replay [OF assms(1)] assms(2) t(2) by auto
  have "ch = ch'" using anchor_matches_unique t(3) s(2) by blast
  then have "(of_nat (length (log_lines t)) :: u64) = of_nat (length (log_lines s))"
    using t(1) s(1) by (cases ch) (auto simp: replay_text_chain)
  then have "length (log_lines t) = length (log_lines s)"
    unfolding word_of_nat_eq_iff using assms(3,4) by (simp add: take_bit_nat_eq_self)
  with assms(3) show False by simp
qed

text \<open>
  C19: Tampering is detected up to collisions: two logs that verify against the same anchor
  hash the same event contents, position by position, unless two of the contents they hash
  collide under SHA-256.
\<close>

theorem audit_tamper_detected:
  assumes "fst (verify_persisted E d w)" "d_log d = Some s" "length (log_lines s) < 2 ^ 64"
    and "fst (verify_persisted E (d\<lparr>d_log := Some t\<rparr>) w')" "length (log_lines t) < 2 ^ 64"
  shows "map (event_content \<circ> split_on tab) (log_lines s) = map (event_content \<circ> split_on tab) (log_lines t)
    \<or> (\<exists>a \<in> (event_content \<circ> split_on tab) ` set (log_lines s).
        \<exists>b \<in> (event_content \<circ> split_on tab) ` set (log_lines t).
          a \<noteq> b \<and> sha256_hex (as_bytes a) = sha256_hex (as_bytes b))"
proof -
  obtain a ch where s: "replay_text s = Inr ch" "d_anchor d = Some a" "anchor_matches a ch"
    using verify_persisted_replay [OF assms(1)] assms(2) by auto
  obtain ch' where "replay_text t = Inr ch'" "anchor_matches a ch'"
    using verify_persisted_replay [OF assms(4)] s(2) by auto
  with s have t: "replay_text t = Inr ch" using anchor_matches_unique by blast
  obtain n h where ch: "ch = (n, h)" by (cases ch)
  note cs = s(1) [unfolded ch replay_text_chain] t [unfolded ch replay_text_chain]
  have "(of_nat (length (log_lines t)) :: u64) = of_nat (length (log_lines s))" using cs by simp
  then have "length (log_lines s) = length (log_lines t)"
    unfolding word_of_nat_eq_iff using assms(3,5) by (simp add: take_bit_nat_eq_self)
  then show ?thesis
    using cs log.chain_contents [of 0 genesis "map (split_on tab) (log_lines s)" "map (split_on tab) (log_lines t)"]
    by (simp add: image_comp)
qed

text \<open>
  C21: A record that fails after its line is on disk breaks the shared chain. The sink keeps
  its old position and hash, so when the next record, of any session, succeeds, the files no
  longer verify and a restart refuses them.
\<close>

theorem audit_failed_record_forks_chain:
  assumes sy: "synced sk d" and room: "log_room d 2" and E: "reads_fine E"
    and clean: "clean_event (a, b, c, e)" "clean_event (a', b', c', e')"
    and fault: "f \<in> {LogSync, TmpFile, Rename, DirSync}"
    and first: "sink_record f a b c e sk d = (ok, sk1, d1)"
    and second: "sink_record NoFault a' b' c' e' sk1 d1 = (True, sk2, d2)"
  shows "\<not> ok \<and> \<not> fst (verify_persisted E d2 w) \<and> is_err (fst (sink_open E (sk_path sk) d2 w))"
proof -
  let ?p = "record_fields (sk_count sk) a b c e (sk_head sk)"
  let ?q = "record_fields (sk_count sk) a' b' c' e' (sk_head sk)"
  obtain s where s: "d_log d = Some s" "s = [] \<or> last s = nl"
    "replay_text s = Inr (sk_count sk, sk_head sk)"
    using sy by (auto simp: synced_def)
  have one: "\<not> ok" "sk1 = sk"
    using first fault by (auto simp: sink_record_def write_anchor_atomic_def Let_def split: bool.splits)
  have d1: "d_log d1 = Some (s @ join [tab] ?p @ [nl])"
    using sink_record_append_only [of f a b c e sk d] first fault s(1) by auto
  have d2: "d_log d2 = Some ((s @ join [tab] ?p @ [nl]) @ join [tab] ?q @ [nl])"
    using sink_record_append_only [of NoFault a' b' c' e' sk1 d1] second one(2) d1 by simp
  note cl = clean [unfolded clean_event_def prod.case, THEN conjunct1]
    clean [unfolded clean_event_def prod.case, THEN conjunct2]
  have r1: "replay_text (s @ join [tab] ?p @ [nl]) = Inr (sk_count sk + 1, ?p ! 6)"
    using replay_record_line(2) [OF s(3,2) _ _ _ _ refl synced_head_clean [OF sy], of a b c e] cl by simp
  have "is_err (replay_text ((s @ join [tab] ?p @ [nl]) @ join [tab] ?q @ [nl]))"
    using replay_record_line(2) [OF r1 _ _ _ _ _ refl synced_head_clean [OF sy], of a' b' c' e' "sk_count sk"]
      cl by simp
  then obtain err where err: "replay_text ((s @ join [tab] ?p @ [nl]) @ join [tab] ?q @ [nl]) = Inl err"
    by (cases "replay_text ((s @ join [tab] ?p @ [nl]) @ join [tab] ?q @ [nl])") auto
  show ?thesis
    using one(1) d2 err by (simp add: verify_persisted_def sink_open_def reads_fine_read [OF E])
qed

text \<open>
  The content that is hashed separates its fields by a bar, and the fields may hold one: two
  different events can have the same content.
\<close>

lemma event_content_ambiguous:
  "event_content [''0'', ''s'', ''read'', ''a'', ''b|allow'', ''GENESIS'']
     = event_content [''0'', ''s'', ''read'', ''a|b'', ''allow'', ''GENESIS'']"
  by (simp add: event_content_def)

section \<open>A run on concrete files\<close>

definition demo_events :: "event list" where
  "demo_events = [(''s1'', ''read'', ''a.txt'', ''allow''), (''s2'', ''exec'', ''c'', ''attempt'')]"

definition demo_sink :: audit_sink where
  "demo_sink = \<lparr>sk_path = ''/var/audit'', sk_count = 0, sk_head = genesis\<rparr>"

definition demo_disk :: disk where
  "demo_disk = \<lparr>d_log = Some [], d_anchor = None\<rparr>"

definition demo_run :: "bool \<times> audit_sink \<times> disk" where
  "demo_run = record_all demo_events demo_sink demo_disk"

lemma quiet_reads_fine: "reads_fine quiet_env"
  by (simp add: reads_fine_def quiet_env_def)

lemma demo_synced: "synced demo_sink demo_disk" "log_room demo_disk 2"
  by (simp_all add: synced_def demo_sink_def demo_disk_def replay_text_def log_lines_def log_room_def)

lemma clean_ascii: "is_ascii s \<Longrightarrow> tab \<notin> set s \<Longrightarrow> nl \<notin> set s \<Longrightarrow> clean_field s"
  by (simp add: clean_field_def valid_utf8_ascii)

lemma demo_clean: "list_all clean_event demo_events"
  by (simp add: demo_events_def clean_event_def clean_ascii is_ascii_Cons)

lemma demo_end:
  "fst demo_run" "synced (fst (snd demo_run)) (snd (snd demo_run))"
  "d_anchor (snd (snd demo_run)) \<noteq> None" "sk_path (fst (snd demo_run)) = ''/var/audit''"
proof -
  have "length demo_events = 2" "demo_events \<noteq> []" "CHR ''/'' \<in> set (sk_path demo_sink)"
    "sk_path demo_sink = ''/var/audit''"
    by (simp_all add: demo_events_def demo_sink_def)
  then have "case demo_run of (ok, sk, d) \<Rightarrow>
      ok \<and> synced sk d \<and> d_anchor d \<noteq> None \<and> sk_path sk = ''/var/audit''"
    using record_all_synced [OF demo_synced(1) _ demo_clean] demo_synced(2)
    by (simp add: demo_run_def [symmetric])
  then show "fst demo_run" "synced (fst (snd demo_run)) (snd (snd demo_run))"
    "d_anchor (snd (snd demo_run)) \<noteq> None" "sk_path (fst (snd demo_run)) = ''/var/audit''"
    by (simp_all add: case_prod_beta)
qed

lemma demo_count: "sk_count (fst (snd demo_run)) = 2"
  by (simp add: demo_run_def demo_events_def demo_sink_def demo_disk_def sink_record_def
      write_anchor_atomic_def parent_opens_def Let_def)

lemma demo_log: "\<exists>s. d_log (snd (snd demo_run)) = Some s \<and> length (log_lines s) = 2"
proof -
  obtain s where s: "d_log (snd (snd demo_run)) = Some s" "replay_text s = Inr (2, sk_head (fst (snd demo_run)))"
    "length (log_lines s) < 2 ^ 64"
    using demo_end(2) demo_count by (auto simp: synced_def)
  then have "(of_nat (length (log_lines s)) :: u64) = of_nat 2" by (simp add: replay_text_chain)
  then have "length (log_lines s) = 2"
    unfolding word_of_nat_eq_iff using s(3) by (simp add: take_bit_nat_eq_self)
  with s(1) show ?thesis by simp
qed

lemma demo_verifies: "fst (verify_persisted quiet_env (snd (snd demo_run)) ())"
  using synced_verifies [OF demo_end(2,3) quiet_reads_fine] by simp

lemma audit_roundtrip_witness:
  "fst demo_run \<and> logged (snd (snd demo_run)) = map event_fields demo_events
   \<and> fst (sink_open quiet_env ''/var/audit'' (snd (snd demo_run)) ()) = Inr (fst (snd demo_run))"
proof -
  have "sink_open quiet_env ''/var/audit'' \<lparr>d_log = None, d_anchor = None\<rparr> () = (Inr demo_sink, demo_disk, ())"
    by (simp add: sink_open_def quiet_env_def demo_sink_def demo_disk_def)
  from audit_roundtrip [OF quiet_reads_fine _ _ _ demo_clean _ this, of "fst demo_run" "fst (snd demo_run)"
      "snd (snd demo_run)"] show ?thesis
    by (simp add: demo_run_def [symmetric]) (simp add: demo_events_def)
qed

lemma audit_truncation_detected_witness:
  "\<not> fst (verify_persisted quiet_env ((snd (snd demo_run))\<lparr>d_log := Some []\<rparr>) ())"
proof -
  obtain s where "d_log (snd (snd demo_run)) = Some s" "length (log_lines s) = 2" using demo_log by blast
  then show ?thesis
    using audit_truncation_detected [OF demo_verifies, of s "[]" "()"] by (simp add: log_lines_def)
qed

lemma audit_tamper_detected_witness:
  "\<exists>s. d_log (snd (snd demo_run)) = Some s \<and>
     (map (event_content \<circ> split_on tab) (log_lines s) = map (event_content \<circ> split_on tab) (log_lines s)
      \<or> (\<exists>a \<in> (event_content \<circ> split_on tab) ` set (log_lines s).
           \<exists>b \<in> (event_content \<circ> split_on tab) ` set (log_lines s).
             a \<noteq> b \<and> sha256_hex (as_bytes a) = sha256_hex (as_bytes b)))"
proof -
  obtain s where s: "d_log (snd (snd demo_run)) = Some s" "length (log_lines s) = 2" using demo_log by blast
  then have "(snd (snd demo_run))\<lparr>d_log := Some s\<rparr> = snd (snd demo_run)" by simp
  with audit_tamper_detected [OF demo_verifies s(1) _, of s "()"] s demo_verifies show ?thesis
    by (intro exI [of _ s]) simp
qed

lemma audit_failed_record_forks_chain_witness:
  "\<not> fst (verify_persisted quiet_env (snd (snd (sink_record NoFault ''s2'' ''read'' ''b'' ''allow'' demo_sink
      (snd (snd (sink_record TmpFile ''s1'' ''exec'' ''a'' ''attempt'' demo_sink demo_disk)))))) ())"
proof -
  let ?one = "sink_record TmpFile ''s1'' ''exec'' ''a'' ''attempt'' demo_sink demo_disk"
  let ?two = "sink_record NoFault ''s2'' ''read'' ''b'' ''allow'' demo_sink (snd (snd ?one))"
  have one: "?one = (False, demo_sink, snd (snd ?one))"
    by (simp add: sink_record_def write_anchor_atomic_def Let_def)
  have two: "?two = (True, fst (snd ?two), snd (snd ?two))"
    using sink_record_succeeds [of demo_sink "''s2''" "''read''" "''b''" "''allow''" "snd (snd ?one)"]
    by (simp add: parent_opens_def demo_sink_def prod_eq_iff)
  show ?thesis
    using audit_failed_record_forks_chain [OF demo_synced quiet_reads_fine _ _ _ one two, of "()"]
    by (simp add: clean_event_def clean_ascii is_ascii_Cons)
qed

end
