(* ===== verification/Caps.thy ===== *)
theory Caps
  imports Net Os
begin

text \<open>
  The data of \<open>lib.rs\<close> and its pure helpers: taints, operations, capabilities and their specs, the
  grant policy, secret paths, the string-level path check, the text shown to approvers, and the
  activity of a capability along its chain of parents. Activity is a recursion that follows the
  parents without a bound; it is modelled as a partial function and related to an inductive
  definition of a live chain.
\<close>

unbundle bit_operations_syntax

section \<open>Taints and operations\<close>

datatype taint = Green | Yellow | Project | Secret | External | AgentGenerated

definition taint_str :: "taint \<Rightarrow> string" where
  "taint_str t = (case t of
     Green \<Rightarrow> ''green'' | Yellow \<Rightarrow> ''yellow'' | Project \<Rightarrow> ''project'' | Secret \<Rightarrow> ''secret''
   | External \<Rightarrow> ''external'' | AgentGenerated \<Rightarrow> ''agent_generated'')"

definition taint_parse :: "string \<Rightarrow> taint" where
  "taint_parse s =
     (if s = ''yellow'' then Yellow else if s = ''project'' then Project
      else if s = ''secret'' then Secret else if s = ''external'' then External
      else if s = ''agent_generated'' then AgentGenerated else Green)"

definition is_sensitive :: "taint \<Rightarrow> bool" where
  "is_sensitive t \<longleftrightarrow> t = Secret"

datatype op = Read | Write | Delete | List | Exec

definition op_parse :: "string \<Rightarrow> op option" where
  "op_parse s =
     (if s = ''read'' then Some Read else if s = ''write'' then Some Write
      else if s = ''delete'' then Some Delete else if s = ''list'' then Some List
      else if s = ''exec'' then Some Exec else None)"

definition parse_ops :: "string \<Rightarrow> op list" where
  "parse_ops csv = List.map_filter (\<lambda>o'. op_parse (trim o')) (split_on (CHR '','') csv)"

section \<open>Capabilities\<close>

record http_spec =
  h_scheme :: string
  h_host :: string
  h_port :: u16
  h_methods :: "string list"
  h_paths :: "string list"
  h_max_bytes :: nat

record msg_spec =
  m_mailbox :: string
  m_prefix :: string
  m_one_shot :: bool
  m_can_receive :: bool

record posted_msg =
  p_subject :: string
  p_body :: string
  p_taint :: taint
  p_from :: string

datatype kind = Dir | Sink | Command | Message | Http

definition kind_str :: "kind \<Rightarrow> string" where
  "kind_str k = (case k of Dir \<Rightarrow> ''dir'' | Sink \<Rightarrow> ''sink'' | Command \<Rightarrow> ''command''
     | Message \<Rightarrow> ''message'' | Http \<Rightarrow> ''http'')"

record cap =
  c_id :: string
  c_kind :: kind
  c_revoked :: bool
  c_root :: string
  c_ops :: "op list"
  c_taint :: taint
  c_name :: string
  c_argv :: "string list"
  c_env :: "string list"
  c_dir_fd :: "nat option"
  c_http :: "http_spec option"
  c_msg :: "msg_spec option"
  c_parent :: "string option"

type_synonym caps = "(string \<times> cap) list"

section \<open>Path checks\<close>

definition secret_marks :: "string list" where
  "secret_marks = [''.ssh'', ''.aws'', ''.gnupg'', ''.env'', ''secret'', ''vault'', ''id_rsa'',
     ''id_ed25519'', ''credential'', ''.pem'']"

definition is_secret_path :: "string \<Rightarrow> bool" where
  "is_secret_path p \<longleftrightarrow> list_ex (\<lambda>m. contains m p) secret_marks"

datatype path_error =
    AbsolutePath string string
  | ParentEscape string string
  | ResolveFailed string
  | RootResolveFailed string
  | SymlinkEscape string string string

definition path_error_text :: "path_error \<Rightarrow> string" where
  "path_error_text e = (case e of
     AbsolutePath rel root \<Rightarrow> (U [0x7EDD, 0x5BF9, 0x8DEF, 0x5F84, 0x4E0D, 0x5141,
       0x8BB8] @ '': '') @ rel @ ''(DirCap root='' @ root @ '')''
   | ParentEscape rel root \<Rightarrow>
       ''path escapes capability root: '' @ rel @ ''(root='' @ root @ '')''
   | ResolveFailed m \<Rightarrow> ''resolve failed: '' @ m
   | RootResolveFailed m \<Rightarrow> ''root resolve failed: '' @ m
   | SymlinkEscape rel canon root \<Rightarrow>
       ''path escapes capability root via symlink: '' @ rel @ '' -> '' @ canon
         @ '' (root='' @ root @ '')'')"

definition path_parts :: "string \<Rightarrow> string list" where
  "path_parts rel = filter (\<lambda>p. p \<noteq> [] \<and> p \<noteq> ''.'') (split_on (CHR ''/'') rel)"

definition safe_join :: "string \<Rightarrow> string \<Rightarrow> path_error + string" where
  "safe_join root rel =
     (if prefix ''/'' rel then Inl (AbsolutePath rel root)
      else if ''..'' \<in> set (split_on (CHR ''/'') rel) then Inl (ParentEscape rel root)
      else if path_parts rel = [] then Inr root
      else Inr (trim_end_char (CHR ''/'') root @ ''/'' @ join ''/'' (path_parts rel)))"

text \<open>\<open>Path::starts_with\<close>: whole components.\<close>

definition path_starts_with :: "string \<Rightarrow> string \<Rightarrow> bool" where
  "path_starts_with c r \<longleftrightarrow>
     (prefix ''/'' c \<longleftrightarrow> prefix ''/'' r) \<and> prefix (path_parts r) (path_parts c)"

definition path_within :: "'w env \<Rightarrow> string \<Rightarrow> string \<Rightarrow> 'w \<Rightarrow> bool \<times> 'w" where
  "path_within E root child w =
     (let (r, w1) = os_canonicalize E root w; (c, w2) = os_canonicalize E child w1
      in (case (r, c) of (Inr r', Inr c') \<Rightarrow> path_starts_with c' r' | _ \<Rightarrow> False, w2))"

definition resolve_contained ::
    "'w env \<Rightarrow> string \<Rightarrow> string \<Rightarrow> 'w \<Rightarrow> (path_error + string) \<times> 'w" where
  "resolve_contained E root rel w =
     (case safe_join root rel of
        Inl e \<Rightarrow> (Inl e, w)
      | Inr joined \<Rightarrow>
          (case os_canonicalize E joined w of
             (Inl m, w1) \<Rightarrow> (Inl (ResolveFailed m), w1)
           | (Inr canon, w1) \<Rightarrow>
               (case os_canonicalize E root w1 of
                  (Inl m, w2) \<Rightarrow> (Inl (RootResolveFailed m), w2)
                | (Inr canon_root, w2) \<Rightarrow>
                    (if path_starts_with canon canon_root then Inr canon
                     else Inl (SymlinkEscape rel canon canon_root), w2))))"

section \<open>Grant policy\<close>

datatype role = Control | Guest

record policy =
  po_role :: role
  po_workspace :: "string option"

datatype gate_error = NoWorkspace | OutsideWorkspace string string

definition gate_error_text :: "gate_error \<Rightarrow> string" where
  "gate_error_text e = (case e of
     NoWorkspace \<Rightarrow> (''guest '' @ U [0x65E0] @ '' workspace '' @ U [0x6388, 0x6743,
       0x57DF] @ '','' @ U [0x62D2, 0x7EDD] @ '' grant'')
   | OutsideWorkspace root ws \<Rightarrow>
       (U [0x8D8A, 0x51FA] @ '' workspace:grant root '') @ root @ ('' '' @ U [0x4E0D, 0x5728]
         @ '' '') @ ws @ ('' '' @ U [0x4E4B, 0x5185]))"

definition policy_control :: policy where
  "policy_control = \<lparr>po_role = Control, po_workspace = None\<rparr>"

definition policy_guest :: "string \<Rightarrow> policy" where
  "policy_guest ws = \<lparr>po_role = Guest, po_workspace = Some ws\<rparr>"

definition gate_grant_dir :: "'w env \<Rightarrow> policy \<Rightarrow> string \<Rightarrow> 'w \<Rightarrow> (gate_error + unit) \<times> 'w" where
  "gate_grant_dir E p root w =
     (case po_role p of
        Control \<Rightarrow> (Inr (), w)
      | Guest \<Rightarrow>
          (case po_workspace p of
             None \<Rightarrow> (Inl NoWorkspace, w)
           | Some ws \<Rightarrow>
               (case path_within E ws root w of
                  (ok, w') \<Rightarrow> (if ok then Inr () else Inl (OutsideWorkspace root ws), w'))))"

definition grant_taint :: "policy \<Rightarrow> taint \<Rightarrow> taint" where
  "grant_taint p t = (case po_role p of Control \<Rightarrow> t | Guest \<Rightarrow> Project)"

section \<open>Identifiers and displayed text\<close>

text \<open>\<open>rand_hex(n)\<close> at the \<open>i\<close>-th draw; without entropy it panics.\<close>

definition rand_hex :: "'w env \<Rightarrow> nat \<Rightarrow> nat \<Rightarrow> string option" where
  "rand_hex E i n = map_option (\<lambda>bs. concat (map (\<lambda>b. hex_fixed 2 (unat b)) bs)) (os_random E i n)"

definition ellipsis :: string where
  "ellipsis = (U [0x2026])"

text \<open>\<open>&r[..14]\<close> panics inside a character.\<close>

definition short :: "string \<Rightarrow> string option" where
  "short r = (if 14 < length r then map_option (\<lambda>t. t @ ellipsis) (slice_to r 14) else Some r)"

definition hex_escape :: "nat \<Rightarrow> string" where
  "hex_escape n = [CHR 0x5C, CHR ''x''] @ hex_fixed 2 (n mod 256)"

fun display_loop :: "string \<Rightarrow> nat list \<Rightarrow> string" where
  "display_loop out [] = out"
| "display_loop out (ch # rest) =
     (let out' = out @ (if is_control ch then hex_escape ch else enc_char ch) in
      if 160 < length out' then out' @ ellipsis else display_loop out' rest)"

definition safe_display :: "string \<Rightarrow> string" where
  "safe_display s = display_loop [] (chars s)"

fun canon_chars :: "nat \<Rightarrow> string \<Rightarrow> nat list \<Rightarrow> bool \<times> string" where
  "canon_chars lim out [] = (False, out)"
| "canon_chars lim out (ch # rest) =
     (if lim < length out + 5 then (True, out @ ellipsis @ [CHR 0x22])
      else canon_chars lim
        (out @ (if ch = 0x22 then [CHR 0x5C, CHR 0x22]
                else if ch = 0x5C then [CHR 0x5C, CHR 0x5C]
                else if is_control ch then hex_escape ch
                else enc_char ch)) rest)"

fun canon_items :: "nat \<Rightarrow> bool \<Rightarrow> string \<Rightarrow> string list \<Rightarrow> string" where
  "canon_items lim first out [] = out"
| "canon_items lim first out (it # rest) =
     (let out1 = (if first then out else out @ '' '') in
      if lim \<le> length out1 then out1 @ ellipsis
      else case canon_chars lim (out1 @ [CHR 0x22]) (chars it) of
        (True, out2) \<Rightarrow> out2
      | (False, out2) \<Rightarrow> canon_items lim False (out2 @ [CHR 0x22]) rest)"

definition canon_list :: "string list \<Rightarrow> nat \<Rightarrow> string" where
  "canon_list items lim = (if items = [] then (''('' @ U [0x7A7A]
    @ '')'') else canon_items lim True [] items)"

section \<open>Activity\<close>

text \<open>\<^const>\<open>None\<close>: the recursion does not return.\<close>

partial_function (option) is_active :: "caps \<Rightarrow> string \<Rightarrow> bool option" where
  "is_active cs r =
     (case map_of cs r of
        None \<Rightarrow> Some False
      | Some c \<Rightarrow>
          if c_revoked c then Some False
          else (case c_parent c of Some p \<Rightarrow> is_active cs p | None \<Rightarrow> Some True))"

text \<open>What the recursion decides: a chain of parents without a revoked or unknown link.\<close>

inductive alive :: "(string \<rightharpoonup> cap) \<Rightarrow> string \<Rightarrow> bool" for m where
  alive_root: "m r = Some c \<Longrightarrow> \<not> c_revoked c \<Longrightarrow> c_parent c = None \<Longrightarrow> alive m r"
| alive_child: "m r = Some c \<Longrightarrow> \<not> c_revoked c \<Longrightarrow> c_parent c = Some p \<Longrightarrow> alive m p \<Longrightarrow> alive m r"

inductive_cases aliveE: "alive m r"
inductive_simps alive_iff: "alive m r"

definition parent_rel :: "(string \<rightharpoonup> cap) \<Rightarrow> (string \<times> string) set" where
  "parent_rel m = {(p, r). \<exists>c. m r = Some c \<and> c_parent c = Some p}"

lemma alive_known: "alive m r \<Longrightarrow> \<exists>c. m r = Some c \<and> \<not> c_revoked c"
  by (auto elim: aliveE)

lemma is_active_sound: "is_active cs r = Some b \<Longrightarrow> b \<longleftrightarrow> alive (map_of cs) r"
proof (rule is_active.raw_induct [where P = "\<lambda>cs r b. b \<longleftrightarrow> alive (map_of cs) r"])
  fix f cs r b
  assume IH: "\<And>cs r b. f cs r = Some b \<Longrightarrow> b \<longleftrightarrow> alive (map_of cs) r"
    and step: "(case map_of cs r of None \<Rightarrow> Some False
      | Some c \<Rightarrow> if c_revoked c then Some False
          else (case c_parent c of Some p \<Rightarrow> f cs p | None \<Rightarrow> Some True)) = Some b"
  show "b \<longleftrightarrow> alive (map_of cs) r"
  proof (cases "map_of cs r")
    case None
    with step show ?thesis by (auto dest: alive_known)
  next
    case (Some c)
    show ?thesis
    proof (cases "c_revoked c")
      case True
      with Some step show ?thesis by (auto dest: alive_known)
    next
      case False
      with Some step IH show ?thesis
        by (cases "c_parent c") (auto simp: alive_iff [of "map_of cs" r])
    qed
  qed
qed assumption

text \<open>Without a cycle of parents the recursion returns, and decides liveness.\<close>

lemma is_active_returns:
  assumes "wf (parent_rel (map_of cs))"
  shows "is_active cs r = Some (alive (map_of cs) r)"
proof -
  have "\<exists>b. is_active cs r = Some b"
    using assms
  proof (induction r rule: wf_induct_rule)
    case (less r)
    show ?case
    proof (cases "map_of cs r")
      case (Some c)
      show ?thesis
      proof (cases "c_parent c")
        case (Some p)
        with \<open>map_of cs r = Some c\<close> have "(p, r) \<in> parent_rel (map_of cs)" by (simp add: parent_rel_def)
        from less [OF this] Some \<open>map_of cs r = Some c\<close> show ?thesis
          by (auto simp: is_active.simps [of cs r])
      qed (auto simp: is_active.simps [of cs r] Some)
    qed (auto simp: is_active.simps [of cs r])
  qed
  then show ?thesis using is_active_sound by blast
qed

section \<open>Capability tables\<close>

text \<open>
  The order of the parents is well-founded, parents are known, and a capability is stored
  under its own id.
\<close>

definition table_ok :: "(string \<rightharpoonup> cap) \<Rightarrow> bool" where
  "table_ok m \<longleftrightarrow> wf (parent_rel m)
     \<and> (\<forall>r c. m r = Some c \<longrightarrow> c_id c = r)
     \<and> (\<forall>r c p. m r = Some c \<longrightarrow> c_parent c = Some p \<longrightarrow> m p \<noteq> None)"

definition caps_ok :: "caps \<Rightarrow> bool" where
  "caps_ok cs \<longleftrightarrow> distinct (map fst cs) \<and> table_ok (map_of cs)"

lemma caps_ok_Nil [simp]: "caps_ok []"
  by (simp add: caps_ok_def table_ok_def parent_rel_def)

lemma caps_ok_active [caps_simps]: "caps_ok cs \<Longrightarrow> is_active cs r = Some (alive (map_of cs) r)"
  by (simp add: caps_ok_def table_ok_def is_active_returns)

definition revoke_entry :: "string \<Rightarrow> caps \<Rightarrow> caps" where
  "revoke_entry r cs = (case map_of cs r of
     Some c \<Rightarrow> AList.update r (c\<lparr>c_revoked := True\<rparr>) cs | None \<Rightarrow> cs)"

lemma map_of_revoke_entry:
  "map_of (revoke_entry r cs) = (case map_of cs r of
     Some c \<Rightarrow> (map_of cs)(r \<mapsto> c\<lparr>c_revoked := True\<rparr>) | None \<Rightarrow> map_of cs)"
  by (simp add: revoke_entry_def split: option.split)

lemma parent_rel_revoke [caps_simps]:
  "parent_rel (map_of (revoke_entry r cs)) = parent_rel (map_of cs)"
  by (auto simp: parent_rel_def map_of_revoke_entry split: option.splits if_splits)

lemma revoke_entry_ok [inv_intros]:
  assumes "caps_ok cs" shows "caps_ok (revoke_entry r cs)"
proof -
  have "table_ok (map_of (revoke_entry r cs))"
    using assms parent_rel_revoke [of r cs] unfolding caps_ok_def table_ok_def
    by (auto simp only: map_of_revoke_entry split: option.splits if_splits) (auto split: if_splits)
  moreover have "distinct (map fst (revoke_entry r cs))"
    using assms by (simp add: caps_ok_def revoke_entry_def distinct_update split: option.split)
  ultimately show ?thesis by (simp add: caps_ok_def)
qed

lemma alive_revoke_entry:
  "alive (map_of (revoke_entry r cs)) x \<longleftrightarrow>
     alive (map_of cs) x \<and> \<not> (map_of cs r \<noteq> None \<and> (r, x) \<in> (parent_rel (map_of cs))\<^sup>*)"
proof (cases "map_of cs r")
  case (Some c)
  let ?m = "map_of cs" and ?m' = "(map_of cs)(r \<mapsto> c\<lparr>c_revoked := True\<rparr>)"
  have "alive ?m x \<and> (r, x) \<notin> (parent_rel ?m)\<^sup>*" if "alive ?m' x"
    using that
  proof (induction rule: alive.induct)
    case (alive_root x d)
    then have x: "x \<noteq> r" "?m x = Some d" by (auto split: if_splits)
    have "(r, x) \<notin> (parent_rel ?m)\<^sup>*"
    proof
      assume "(r, x) \<in> (parent_rel ?m)\<^sup>*"
      then show False using x alive_root by (cases rule: rtranclE) (auto simp: parent_rel_def)
    qed
    with x alive_root show ?case by (auto intro: alive.alive_root)
  next
    case (alive_child x d p)
    then have x: "x \<noteq> r" "?m x = Some d" by (auto split: if_splits)
    have "(r, x) \<notin> (parent_rel ?m)\<^sup>*"
    proof
      assume "(r, x) \<in> (parent_rel ?m)\<^sup>*"
      then show False using x alive_child by (cases rule: rtranclE) (auto simp: parent_rel_def)
    qed
    with x alive_child show ?case by (auto intro: alive.alive_child)
  qed
  moreover have "(r, x) \<notin> (parent_rel ?m)\<^sup>* \<longrightarrow> alive ?m' x" if "alive ?m x"
    using that
  proof (induction rule: alive.induct)
    case (alive_root x d)
    then show ?case by (auto intro: alive.alive_root)
  next
    case (alive_child x d p)
    have "(p, x) \<in> parent_rel ?m" using alive_child by (simp add: parent_rel_def)
    then have "(r, x) \<notin> (parent_rel ?m)\<^sup>* \<longrightarrow> (r, p) \<notin> (parent_rel ?m)\<^sup>*"
      by (meson rtrancl.rtrancl_into_rtrancl)
    moreover have "(r, x) \<notin> (parent_rel ?m)\<^sup>* \<longrightarrow> x \<noteq> r" by auto
    ultimately show ?case using alive_child
      by (auto intro: alive.alive_child [where c = d and p = p])
  qed
  ultimately show ?thesis using Some by (auto simp: map_of_revoke_entry)
qed (simp add: map_of_revoke_entry)

text \<open>Adding a capability under an unused id.\<close>

definition addable :: "caps \<Rightarrow> cap \<Rightarrow> bool" where
  "addable cs c \<longleftrightarrow> map_of cs (c_id c) = None \<and> \<not> c_revoked c
     \<and> (\<forall>p. c_parent c = Some p \<longrightarrow> map_of cs p \<noteq> None)"

lemma fresh_not_parent: "table_ok m \<Longrightarrow> m i = None \<Longrightarrow> (i, x) \<notin> parent_rel m"
  unfolding table_ok_def parent_rel_def by fastforce

lemma parent_rel_add:
  "m (c_id c) = None \<Longrightarrow> parent_rel (m(c_id c \<mapsto> c)) =
     parent_rel m \<union> {(p, r). r = c_id c \<and> c_parent c = Some p}"
  by (auto simp: parent_rel_def split: if_splits)

lemma table_ok_add:
  assumes ok: "table_ok m" and fresh: "m (c_id c) = None"
    and parent: "\<And>p. c_parent c = Some p \<Longrightarrow> m p \<noteq> None"
  shows "table_ok (m(c_id c \<mapsto> c))"
proof -
  let ?i = "c_id c"
  have "wf (parent_rel (m(?i \<mapsto> c)))"
  proof (cases "c_parent c")
    case None
    then show ?thesis using ok parent_rel_add [of m c, OF fresh] by (simp add: table_ok_def)
  next
    case (Some p)
    then have "p \<noteq> ?i" using parent fresh by auto
    then have "(?i, p) \<notin> (parent_rel m)\<^sup>*"
      using fresh_not_parent [OF ok fresh] by (auto elim: converse_rtranclE)
    moreover have "parent_rel (m(?i \<mapsto> c)) = insert (p, ?i) (parent_rel m)"
      using parent_rel_add [of m c, OF fresh] Some by auto
    ultimately show ?thesis using ok by (simp add: table_ok_def)
  qed
  then show ?thesis using ok parent by (auto simp: table_ok_def)
qed

lemma add_cap_ok [inv_intros]:
  "caps_ok cs \<Longrightarrow> addable cs c \<Longrightarrow> caps_ok (AList.update (c_id c) c cs)"
  using table_ok_add [of "map_of cs" c]
  by (simp add: caps_ok_def addable_def distinct_update del: map_of_eq_Some_iff)

lemma alive_add:
  assumes ok: "table_ok m" and fresh: "m (c_id c) = None" and live: "\<not> c_revoked c"
    and parent: "\<And>p. c_parent c = Some p \<Longrightarrow> m p \<noteq> None"
  shows "alive (m(c_id c \<mapsto> c)) x \<longleftrightarrow>
    (if x = c_id c then (case c_parent c of None \<Rightarrow> True | Some p \<Rightarrow> alive m p) else alive m x)"
proof -
  let ?m' = "m(c_id c \<mapsto> c)"
  have up: "alive ?m' y" if "alive m y" for y
    using that
  proof (induction rule: alive.induct)
    case (alive_root r d)
    then have "?m' r = Some d" using fresh by auto
    then show ?case using alive_root by (metis alive.alive_root)
  next
    case (alive_child r d p)
    then have "?m' r = Some d" using fresh by auto
    then show ?case using alive_child by (metis alive.alive_child)
  qed
  have down: "y \<noteq> c_id c \<longrightarrow> alive m y" if "alive ?m' y" for y
    using that
  proof (induction rule: alive.induct)
    case (alive_root r d)
    then show ?case by (auto intro: alive.alive_root)
  next
    case (alive_child r d p)
    show ?case
    proof
      assume r: "r \<noteq> c_id c"
      then have "m r = Some d" using alive_child by simp
      moreover have "p \<noteq> c_id c"
        using fresh_not_parent [OF ok fresh, of r] calculation alive_child by (auto simp: parent_rel_def)
      ultimately show "alive m r" using alive_child by (metis alive.alive_child)
    qed
  qed
  have "p \<noteq> c_id c" if "c_parent c = Some p" for p using that parent fresh by auto
  then show ?thesis using up down live
    by (auto simp: alive_iff [of ?m' "c_id c"] split: option.split)
qed

section \<open>What the path check guarantees\<close>

lemma split_on_append: "split_on c (a @ c # b) = split_on c a @ split_on c b"
  by (induction a) (auto split: list.splits)

lemma path_parts_slash: "path_parts (a @ CHR ''/'' # b) = path_parts a @ path_parts b"
  by (simp add: path_parts_def split_on_append)

lemma path_parts_replicate: "path_parts (a @ replicate n (CHR ''/'')) = path_parts a"
proof (induction n)
  case (Suc n)
  have "path_parts (a @ replicate (Suc n) (CHR ''/'')) = path_parts ((a @ replicate n (CHR ''/'')) @ CHR ''/'' # [])"
    by (simp add: replicate_append_same)
  also have "\<dots> = path_parts a" unfolding path_parts_slash by (simp add: Suc) (simp add: path_parts_def)
  finally show ?case .
qed simp

lemma path_parts_trim: "path_parts (trim_end_char (CHR ''/'') a) = path_parts a"
proof -
  have "\<exists>n. a = trim_end_char (CHR ''/'') a @ replicate n (CHR ''/'')"
  proof (induction a rule: rev_induct)
    case (snoc x a)
    then obtain n where n: "a = trim_end_char (CHR ''/'') a @ replicate n (CHR ''/'')" ..
    show ?case
    proof (cases "x = CHR ''/''")
      case True
      then show ?thesis using n
        by (intro exI [of _ "Suc n"]) (simp add: trim_end_char_def replicate_append_same [symmetric])
    next
      case False
      then show ?thesis by (intro exI [of _ 0]) (simp add: trim_end_char_def)
    qed
  qed (simp add: trim_end_char_def)
  then show ?thesis by (metis path_parts_replicate)
qed

lemma path_parts_join:
  assumes "\<forall>q \<in> set ps. CHR ''/'' \<notin> set q \<and> q \<noteq> [] \<and> q \<noteq> ''.''"
  shows "path_parts (join ''/'' ps) = ps"
proof (cases "ps = []")
  case False
  then show ?thesis using assms by (simp add: path_parts_def split_on_join)
qed (simp add: path_parts_def)

lemma path_parts_pieces:
  "q \<in> set (path_parts rel) \<Longrightarrow> CHR ''/'' \<notin> set q \<and> q \<noteq> [] \<and> q \<noteq> ''.''"
  using split_on_pieces [of q "CHR ''/''" rel] by (auto simp: path_parts_def)

lemma safe_join_parts:
  assumes "safe_join root rel = Inr p"
  shows "path_parts p = path_parts root @ path_parts rel \<and> ''..'' \<notin> set (path_parts rel)
    \<and> \<not> prefix ''/'' rel"
proof (cases "path_parts rel = []")
  case True
  with assms show ?thesis by (auto simp: safe_join_def split: if_splits)
next
  case False
  with assms have p: "p = trim_end_char (CHR ''/'') root @ CHR ''/'' # join ''/'' (path_parts rel)"
    and rel: "''..'' \<notin> set (split_on (CHR ''/'') rel)" "\<not> prefix ''/'' rel"
    by (auto simp: safe_join_def split: if_splits)
  have "path_parts p = path_parts root @ path_parts rel"
    unfolding p path_parts_slash path_parts_trim
    using path_parts_join [of "path_parts rel"] path_parts_pieces by simp
  with rel show ?thesis by (auto simp: path_parts_def)
qed

text \<open>
  The string-level path check keeps a relative path below its root: when it accepts, the
  result's components are those of the root followed by those of the path, none of which is
  \<open>..\<close>, so that the result starts with the root.
\<close>

theorem safe_join_below_root:
  assumes "safe_join root rel = Inr p"
  shows "path_parts p = path_parts root @ path_parts rel \<and> ''..'' \<notin> set (path_parts rel)
    \<and> \<not> prefix ''/'' rel"
  by (rule safe_join_parts [OF assms])

lemma safe_join_below_root_witness:
  "path_parts ''/srv/ws/src/a.rs'' = path_parts ''/srv/ws/'' @ path_parts ''./src//a.rs''"
proof -
  have "safe_join ''/srv/ws/'' ''./src//a.rs'' = Inr ''/srv/ws/src/a.rs''"
    by (simp add: safe_join_def path_parts_def trim_end_char_def)
  from safe_join_below_root [OF this] show ?thesis by simp
qed

end
