(* ===== verification/Display.thy ===== *)
theory Display
  imports Caps
begin

text \<open>
  The text an approver sees (\<open>canon_list\<close>, \<open>safe_display\<close> of \<open>lib.rs\<close>): it carries no control byte,
  it is short, and when nothing had to be cut off it determines the words of the command. The first
  part shows that the decoder of \<open>Rust_Str\<close> undoes the encoder, so a text may be given by its
  scalar values.
\<close>

section \<open>Scalar values\<close>

definition scalar :: "nat \<Rightarrow> bool" where
  "scalar n \<longleftrightarrow> n < 0xD800 \<or> (0xE000 \<le> n \<and> n < 0x110000)"

lemma of_char_of: "(of_char (char_of (n :: nat) :: char) :: nat) = n mod 256"
  by simp

lemma byte_at_list:
  "byte_at (a # bs) 0 = a" "byte_at (a # b # bs) (Suc 0) = b" "byte_at (a # b # c # bs) 2 = c" "byte_at (a # b # c # d # bs) 3 = d"
  by (simp_all add: byte_at_def)

lemma dec_step_enc:
  assumes "scalar n"
  shows "dec_step (map of_char (enc_char n) @ rest) = (Some n, length (enc_char n))"
proof -
  define a b c d where abcd: "a = n div 0x40000" "b = n div 0x1000 mod 0x40" "c = n div 0x40 mod 0x40" "d = n mod 0x40"
  have lt: "b < 64" "c < 64" "d < 64" by (simp_all add: abcd)
  have q: "n div 64 = (n div 4096) * 64 + c" "n div 4096 = a * 64 + b" "n = n div 64 * 64 + d"
    using div_mult_mod_eq [of "n div 64" 64] div_mult_mod_eq [of "n div 4096" 64] div_mult_mod_eq [of n 64]
    by (simp_all add: abcd div_mult2_eq [symmetric])
  have n: "n = ((a * 64 + b) * 64 + c) * 64 + d" using q by simp
  consider "n < 0x80" | "0x80 \<le> n" "n < 0x800" | "0x800 \<le> n" "n < 0x10000" | "0x10000 \<le> n" "n < 0x110000"
    using assms unfolding scalar_def by linarith
  then show ?thesis
  proof cases
    case 1
    then show ?thesis by (simp add: enc_char_def dec_step_def byte_at_list)
  next
    case 2
    then have "n div 4096 = 0" by simp
    then have z: "a = 0" "b = 0" using q(2) by auto
    then have c: "2 \<le> c" "c < 32" using 2 n lt by auto
    have "map of_char (enc_char n) = [0xC0 + c, 0x80 + d]" "length (enc_char n) = 2"
      using 2 q z lt c by (simp_all add: enc_char_def abcd(4) [symmetric])
    then show ?thesis using z lt c by (simp add: dec_step_def byte_at_list is_cont_def Let_def n)
  next
    case 3
    then have z: "a = 0" "b < 16" using n lt by auto
    have c: "b = 0 \<Longrightarrow> 32 \<le> c" using 3 n z lt by auto
    have c': "b = 13 \<Longrightarrow> c < 32" using 3 n z assms lt unfolding scalar_def by auto
    have "map of_char (enc_char n) = [0xE0 + b, 0x80 + c, 0x80 + d]" "length (enc_char n) = 3"
      using 3 q(1,2) z lt by (simp_all add: enc_char_def abcd(3,4) [symmetric])
    moreover have "second_ok (0xE0 + b) (0x80 + c)" using z lt c c' by (auto simp: second_ok_def is_cont_def)
    ultimately show ?thesis using z lt by (simp add: dec_step_def byte_at_list is_cont_def Let_def n)
  next
    case 4
    then have z: "a \<le> 4" using n by auto
    have c: "a = 0 \<Longrightarrow> 16 \<le> b" using 4 n lt by auto
    have c': "a = 4 \<Longrightarrow> b < 16" using 4 n lt by auto
    have "map of_char (enc_char n) = [0xF0 + a, 0x80 + b, 0x80 + c,
      0x80 + d]" "length (enc_char n) = 4"
      using 4 z lt by (simp_all add: enc_char_def abcd [symmetric])
    moreover have "second_ok (0xF0 + a) (0x80 + b)" using z lt c c' by (auto simp: second_ok_def is_cont_def)
    ultimately show ?thesis using z lt by (simp add: dec_step_def byte_at_list is_cont_def Let_def n)
  qed
qed

lemma enc_char_ne [simp]: "enc_char n \<noteq> []"
  by (simp add: enc_char_def)

lemma decode_U: "list_all scalar cps \<Longrightarrow> decode (U cps) = map Some cps"
proof (induction cps)
  case Nil
  show ?case by (simp add: decode_def U_def dec_all.simps)
next
  case (Cons n cps)
  then have "dec_step (map of_char (enc_char n) @ map of_char (U cps)) = (Some n, length (enc_char n))"
    by (simp add: dec_step_enc)
  then show ?case using Cons
    by (simp add: decode_def U_def dec_all.simps [of "map of_char (enc_char n) @ map of_char (concat (map enc_char cps))"])
qed

lemma chars_U: "list_all scalar cps \<Longrightarrow> chars (U cps) = cps"
  using map_filter_id_Some [of "\<lambda>n. n" cps] by (simp add: chars_def decode_U comp_def)

section \<open>One quoted text\<close>

text \<open>What \<open>canon_list\<close> pushes for a character, as bytes and as scalar values.\<close>

definition esc :: "nat \<Rightarrow> string" where
  "esc ch = (if ch = 0x22 then [CHR 0x5C, CHR 0x22] else if ch = 0x5C then [CHR 0x5C, CHR 0x5C]
     else if is_control ch then hex_escape ch else enc_char ch)"

definition esc_cps :: "nat \<Rightarrow> nat list" where
  "esc_cps ch = (if ch = 0x22 then [0x5C, 0x22] else if ch = 0x5C then [0x5C, 0x5C]
     else if is_control ch then [0x5C, 0x78] @ map of_char (hex_fixed 2 (ch mod 256)) else [ch])"

definition quote :: "nat list \<Rightarrow> string" where
  "quote cs = CHR 0x22 # concat (map esc cs) @ [CHR 0x22]"

definition quote_list :: "nat list list \<Rightarrow> string" where
  "quote_list css = (if css = [] then ''('' @ U [0x7A7A] @ '')'' else join '' '' (map quote css))"

lemma U_append: "U (a @ b) = U a @ U b" and U_Cons: "U (n # a) = enc_char n @ U a" and U_Nil: "U [] = []"
  by (simp_all add: U_def)

lemma U_of_char: "is_ascii s \<Longrightarrow> U (map of_char s) = s"
  by (induction s) (auto simp: U_def is_ascii_Cons enc_char_ascii)

lemma esc_U: "esc ch = U (esc_cps ch)"
proof -
  have "enc_char 0x5C = [CHR 0x5C]" "enc_char 0x22 = [CHR 0x22]" "enc_char 0x78 = ''x''"
    by (simp_all add: enc_char_def) code_simp+
  then show ?thesis
    using U_of_char [OF is_hex_ascii [OF hex_fixed_hex [of 2 "ch mod 256"]]]
    by (simp add: esc_def esc_cps_def hex_escape_def U_append U_Cons U_Nil)
qed

lemma concat_esc_U: "concat (map esc cs) = U (concat (map esc_cps cs))"
  by (induction cs) (simp_all add: esc_U U_append U_Nil)

lemma hex_value_bound: "map of_char (hex_fixed 2 m) = (map of_char (hex_fixed 2 n) :: nat list) \<Longrightarrow> m < 256 \<Longrightarrow> n < 256 \<Longrightarrow> m = n"
  using hex_fixed_inject [of m 2 n] by (simp add: inj_map_eq_map inj_def of_char_inject)

lemma esc_cps_prefix:
  assumes "esc_cps c @ r = esc_cps d @ r'"
  shows "c = d \<and> r = r'"
proof -
  have short: "ch mod 256 = ch" if "is_control ch" for ch using that by (auto simp: is_control_def)
  have len: "length (map (of_char :: char \<Rightarrow> nat) (hex_fixed 2 n)) = 2" for n by simp
  consider "is_control c" "is_control d" | "\<not> (is_control c \<and> is_control d)" by blast
  then show ?thesis
  proof cases
    case 1
    then have "c \<noteq> 0x22" "d \<noteq> 0x22" "c \<noteq> 0x5C" "d \<noteq> 0x5C" by (auto simp: is_control_def)
    then have "map of_char (hex_fixed 2 c) @ r = (map of_char (hex_fixed 2 d) :: nat list) @ r'"
      using assms 1 short by (simp add: esc_cps_def)
    then show ?thesis using hex_value_bound [of c d] 1 by (auto simp: append_eq_append_conv len is_control_def)
  next
    case 2
    then show ?thesis using assms by (auto simp: esc_cps_def is_control_def split: if_splits)
  qed
qed

lemma esc_cps_hd: "\<exists>x xs. esc_cps c = x # xs \<and> x \<noteq> 0x22"
  by (simp add: esc_cps_def)

lemma body_inject:
  "concat (map esc_cps cs) @ 0x22 # r = concat (map esc_cps ds)
    @ 0x22 # r' \<Longrightarrow> cs = ds \<and> r = r'"
proof (induction cs arbitrary: ds)
  case Nil
  then show ?case using esc_cps_hd by (cases ds) (auto, metis append_Cons list.inject)
next
  case (Cons c cs)
  show ?case
  proof (cases ds)
    case Nil
    then show ?thesis using Cons.prems esc_cps_hd [of c] by auto
  next
    case (Cons d ds')
    then have "esc_cps c @ (concat (map esc_cps cs) @ 0x22 # r) = esc_cps d
      @ (concat (map esc_cps ds') @ 0x22 # r')"
      using Cons.prems by simp
    from esc_cps_prefix [OF this] Cons.IH Cons show ?thesis by blast
  qed
qed

section \<open>Lists of quoted texts\<close>

definition quote_cps :: "nat list \<Rightarrow> nat list" where
  "quote_cps cs = 0x22 # concat (map esc_cps cs) @ [0x22]"

lemma enc_quote: "enc_char 0x22 = [CHR 0x22]" "enc_char 0x20 = '' ''"
  by (simp_all add: enc_char_def) code_simp+

lemma quote_U: "quote cs = U (quote_cps cs)"
  by (simp add: quote_def quote_cps_def concat_esc_U U_append U_Cons U_Nil enc_quote)

lemma join_quote_U: "join '' '' (map quote css) = U (join [0x20] (map quote_cps css))"
proof (induction css)
  case (Cons c css)
  then show ?case by (cases css) (simp_all add: quote_U U_append U_Cons U_Nil enc_quote)
qed (simp add: U_Nil)

lemma join_quote_inject:
  "join [0x20] (map quote_cps xss) = join [0x20] (map quote_cps yss) \<Longrightarrow> xss = yss"
proof (induction xss arbitrary: yss)
  case Nil
  then show ?case by (cases "map quote_cps yss" rule: remdups_adj.cases) (auto simp: quote_cps_def)
next
  case (Cons xs xss)
  obtain ys yss' where yss: "yss = ys # yss'"
    using Cons.prems by (cases yss; cases xss) (auto simp: quote_cps_def)
  let ?tail = "\<lambda>zss. (if zss = [] then [] else 0x20 # join [0x20] (map quote_cps zss))"
  have tail: "join [0x20] (map quote_cps (zs # zss)) = 0x22 # concat (map esc_cps zs)
    @ 0x22 # ?tail zss" for zs zss
    by (cases zss) (simp_all add: quote_cps_def)
  have "xs = ys \<and> ?tail xss = ?tail yss'"
    using Cons.prems unfolding yss tail list.inject by (intro body_inject) simp
  then show ?case using Cons.IH [of yss'] yss by (auto split: if_splits)
qed

lemma scalar_small: "n < 0xD800 \<Longrightarrow> scalar n"
  by (simp add: scalar_def)

lemma scalar_of_char: "scalar (of_char c)"
  by (rule scalar_small, rule less_trans [OF of_char_less_256]) simp

lemma scalar_esc_cps: "scalar c \<Longrightarrow> list_all scalar (esc_cps c)"
  by (simp add: esc_cps_def scalar_small list_all_iff scalar_of_char)

lemma scalar_quote_cps: "list_all scalar cs \<Longrightarrow> list_all scalar (quote_cps cs)"
  by (induction cs) (auto simp: quote_cps_def scalar_small scalar_esc_cps)

lemma scalar_join: "list_all (list_all scalar) css \<Longrightarrow> list_all scalar (join [0x20] (map quote_cps css))"
proof (induction css)
  case (Cons cs css)
  then show ?case using scalar_quote_cps [of cs] by (cases css) (auto simp: scalar_small)
qed simp

lemma quote_list_inject:
  assumes "list_all (list_all scalar) xss" "list_all (list_all scalar) yss" "quote_list xss = quote_list yss"
  shows "xss = yss"
proof -
  have ends: "join '' '' (map quote css) \<noteq> ''('' @ U [0x7A7A]
    @ '')''" if "css \<noteq> []" for css
    using that by (cases css rule: remdups_adj.cases) (auto simp: quote_def)
  have "xss = [] \<longleftrightarrow> yss = []" using assms(3) ends by (auto simp: quote_list_def split: if_splits)
  moreover have "xss = yss" if "xss \<noteq> []" "yss \<noteq> []"
  proof -
    have "U (join [0x20] (map quote_cps xss)) = U (join [0x20] (map quote_cps yss))"
      using assms(3) that by (simp add: quote_list_def join_quote_U)
    then have "chars (U (join [0x20] (map quote_cps xss))) = chars (U (join [0x20] (map quote_cps yss)))" by simp
    then show ?thesis using assms(1,2) by (simp add: chars_U scalar_join join_quote_inject)
  qed
  ultimately show ?thesis by auto
qed

section \<open>The limit\<close>

lemma length_enc_char: "0 < length (enc_char n)" "length (enc_char n) \<le> 4"
  by (simp_all add: enc_char_def)

lemma length_esc: "0 < length (esc c)" "length (esc c) \<le> 4"
  using length_enc_char [of c] by (auto simp: esc_def hex_escape_def)

lemma canon_chars_Cons:
  "canon_chars lim out (ch # rest) = (if lim < length out + 5 then (True, out @ ellipsis
    @ [CHR 0x22])
     else canon_chars lim (out @ esc ch) rest)"
  by (simp add: esc_def)

declare canon_chars.simps(2) [simp del]

lemma canon_chars_fits:
  "length out + length (concat (map esc cs)) + 5 \<le> lim \<Longrightarrow> canon_chars lim out cs = (False, out @ concat (map esc cs))"
  by (induction cs arbitrary: out) (auto simp: canon_chars_Cons)

lemma canon_items_fits:
  assumes "list_all (list_all scalar) css"
  shows "length out + length (concat (map (\<lambda>cs. CHR '' '' # quote cs) css)) + 5 \<le> lim \<Longrightarrow>
    canon_items lim False out (map U css) = out @ concat (map (\<lambda>cs. CHR '' '' # quote cs) css)"
  using assms
proof (induction css arbitrary: out)
  case (Cons cs css)
  have "canon_chars lim (out @ '' '' @ [CHR 0x22]) cs = (False, out @ '' '' @ [CHR 0x22]
    @ concat (map esc cs))"
    using Cons.prems by (subst canon_chars_fits) (auto simp: quote_def)
  then show ?case using Cons.prems Cons.IH [of "out @ '' '' @ quote cs"]
    by (simp add: chars_U quote_def)
qed simp

lemma join_tail: "join '' '' (map quote (cs # css)) = quote cs @ concat (map (\<lambda>cs. CHR '' '' # quote cs) css)"
  by (induction css arbitrary: cs) auto

lemma canon_list_fits:
  assumes "list_all (list_all scalar) css" "length (quote_list css) + 5 \<le> lim"
  shows "canon_list (map U css) lim = quote_list css"
proof (cases css)
  case (Cons cs css')
  then have q: "quote_list css = quote cs @ concat (map (\<lambda>cs. CHR '' '' # quote cs) css')"
    using join_tail [of cs css'] by (simp add: quote_list_def)
  have "canon_chars lim [CHR 0x22] cs = (False, [CHR 0x22] @ concat (map esc cs))"
    using assms(2) q by (intro canon_chars_fits) (simp add: quote_def)
  then show ?thesis
    using assms q Cons canon_items_fits [of css' "quote cs" lim]
    by (simp add: canon_list_def chars_U quote_def)
qed (simp add: canon_list_def quote_list_def)

lemma canon_chars_length:
  "canon_chars lim out cs = (b, o') \<Longrightarrow> length out \<le> lim \<Longrightarrow> length o' \<le> (if b then lim + 4 else lim)"
proof (induction cs arbitrary: out)
  case (Cons c cs)
  have "length ellipsis = 3" by (simp add: ellipsis_def U_def enc_char_def)
  then show ?case
    using Cons.prems Cons.IH [of "out @ esc c"] length_esc [of c]
    by (auto simp: canon_chars_Cons split: if_splits)
qed auto

lemma canon_items_length:
  "length out \<le> lim + 1 \<Longrightarrow> (first \<Longrightarrow> out = []) \<Longrightarrow> length (canon_items lim first out items) \<le> lim + 5"
proof (induction items arbitrary: first out)
  case (Cons it items)
  let ?o1 = "if first then out else out @ '' ''"
  have e: "length ellipsis = 3" by (simp add: ellipsis_def U_def enc_char_def)
  show ?case
  proof (cases "lim \<le> length ?o1")
    case True
    then show ?thesis using Cons.prems e by (cases first) auto
  next
    case False
    obtain b o2 where o2: "canon_chars lim (?o1 @ [CHR 0x22]) (chars it) = (b, o2)" by fastforce
    then have "length o2 \<le> (if b then lim + 4 else lim)"
      using False by (intro canon_chars_length) auto
    then show ?thesis using False o2 Cons.IH [of "o2
      @ [CHR 0x22]" False] by (cases b) (auto simp: Let_def)
  qed
qed simp

lemma canon_list_length: "length (canon_list items lim) \<le> lim + 5"
  using canon_items_length [of "[]" lim True items] by (simp add: canon_list_def U_def enc_char_def)

text \<open>The source's comment promises strictly no more than the limit; an escape just before the end exceeds it.\<close>

lemma canon_list_exceeds: "length (canon_list (map U [[97, 97, 97, 97, 10, 98]]) 10) = 13"
proof -
  have "chars (U [97, 97, 97, 97, 10, 98]) = [97, 97, 97, 97, 10, 98]" by (rule chars_U) (simp add: scalar_def)
  then show ?thesis
    by (simp add: canon_list_def canon_chars_Cons esc_def enc_char_def is_control_def hex_escape_def
      ellipsis_def U_def)
qed

section \<open>No control bytes\<close>

definition printable :: "char \<Rightarrow> bool" where
  "printable c \<longleftrightarrow> 0x20 \<le> (of_char c :: nat) \<and> (of_char c :: nat) \<noteq> 0x7F"

lemma printable_char_of: "32 \<le> n mod 256 \<Longrightarrow> n mod 256 \<noteq> 127 \<Longrightarrow> printable (char_of (n :: nat))"
  by (simp add: printable_def)

lemma printable_blank: "printable (CHR '' '')" "printable (CHR 0x22)"
  by (simp_all add: printable_def)

lemma printable_cont: "printable (char_of (0x80 + n mod 0x40 :: nat))"
proof (rule printable_char_of)
  have "n mod 64 < 64" by simp
  then have "(128 + n mod 64) mod 256 = 128 + n mod 64" by simp
  then show "32 \<le> (128 + n mod 64) mod 256" "(128 + n mod 64) mod 256 \<noteq> 127" by linarith+
qed

lemma enc_char_printable:
  assumes "scalar n" "\<not> is_control n"
  shows "list_all printable (enc_char n)"
proof -
  have lead: "printable (char_of (m + k))" if "192 \<le> m" "m + k < 256" for m k :: nat
    using that by (intro printable_char_of) auto
  consider "n < 0x80" | "0x80 \<le> n" "n < 0x800" | "0x800 \<le> n" "n < 0x10000" | "0x10000 \<le> n" "n < 0x110000"
    using assms unfolding scalar_def by linarith
  then show ?thesis
  proof cases
    case 1
    then show ?thesis using assms(2) by (auto simp: enc_char_def is_control_def intro!: printable_char_of)
  next
    case 2
    then have "n div 64 < 32" by (simp add: less_mult_imp_div_less)
    then show ?thesis using 2 lead [of "0xC0" "n div 64"] by (simp add: enc_char_def printable_cont)
  next
    case 3
    then have "n div 4096 < 16" by (simp add: less_mult_imp_div_less)
    then show ?thesis using 3 lead [of "0xE0" "n div 4096"] by (simp add: enc_char_def printable_cont)
  next
    case 4
    then have "n div 262144 < 5" by (simp add: less_mult_imp_div_less)
    then show ?thesis using 4 lead [of "0xF0" "n div 262144"] by (simp add: enc_char_def printable_cont)
  qed
qed

lemma printable_hex: "list_all is_hex_digit s \<Longrightarrow> list_all printable s"
  by (auto simp: list_all_iff is_hex_digit_def is_digit_def printable_def)

lemma hex_escape_printable: "list_all printable (hex_escape n)"
  using printable_hex [OF hex_fixed_hex] by (auto simp: hex_escape_def printable_def)

lemma esc_printable: "scalar c \<Longrightarrow> list_all printable (esc c)"
  by (auto simp: esc_def hex_escape_printable enc_char_printable) (auto simp: printable_def)

lemma ellipsis_printable: "list_all printable ellipsis"
  using enc_char_printable [of "0x2026"] by (simp add: ellipsis_def U_def scalar_def is_control_def)

lemma canon_chars_printable:
  "canon_chars lim out cs = (b, o') \<Longrightarrow> list_all printable out \<Longrightarrow> list_all scalar cs \<Longrightarrow> list_all printable o'"
  by (induction cs arbitrary: out)
    (auto simp: canon_chars_Cons esc_printable ellipsis_printable split: if_splits, simp add: printable_def)

lemma canon_items_printable:
  "list_all printable out \<Longrightarrow> list_all (list_all scalar) css \<Longrightarrow> list_all printable (canon_items lim first out (map U css))"
proof (induction css arbitrary: first out)
  case (Cons cs css)
  let ?o1 = "if first then out else out @ '' ''"
  have o1: "list_all printable ?o1" "printable (CHR 0x22)" using Cons.prems printable_blank by auto
  obtain b o2 where o2: "canon_chars lim (?o1 @ [CHR 0x22]) cs = (b, o2)" by fastforce
  have "list_all printable o2" by (rule canon_chars_printable [OF o2]) (use o1 Cons.prems in auto)
  moreover have "chars (U cs) = cs" using Cons.prems by (simp add: chars_U)
  ultimately show ?case using Cons.IH [of "o2
    @ [CHR 0x22]" False] Cons.prems o1 o2 ellipsis_printable
    by (cases b) (simp_all add: Let_def)
qed simp

lemma canon_list_printable: "list_all (list_all scalar) css \<Longrightarrow> list_all printable (canon_list (map U css) lim)"
  using canon_items_printable [of "[]" css lim True] enc_char_printable [of "0x7A7A"]
  by (auto simp: canon_list_def U_def scalar_def is_control_def printable_def)

lemma display_loop_printable:
  "list_all printable out \<Longrightarrow> list_all scalar cs \<Longrightarrow> list_all printable (display_loop out cs)"
  by (induction cs arbitrary: out) (auto simp: Let_def hex_escape_printable enc_char_printable ellipsis_printable)

text \<open>
  C36: The approver sees the command. The rendering of a command's words has no control byte, no line
  break or tab among them, and at most five bytes more than its limit; and when two lists of words
  fit the limit, equal renderings come from equal lists, whatever blanks, quotes, backslashes and
  escapes the words contain. Paths shown beside it have no control byte either.
\<close>

theorem approval_text_unambiguous:
  assumes "list_all (list_all scalar) xss" "list_all (list_all scalar) yss" "list_all scalar cs"
  shows "list_all printable (canon_list (map U xss) lim) \<and> length (canon_list (map U xss) lim) \<le> lim + 5
    \<and> (length (quote_list xss) + 5 \<le> lim \<longrightarrow> length (quote_list yss) + 5 \<le> lim \<longrightarrow>
        canon_list (map U xss) lim = canon_list (map U yss) lim \<longrightarrow> xss = yss)
    \<and> list_all printable (safe_display (U cs))"
  using canon_list_printable [OF assms(1)] canon_list_length [of "map U xss" lim]
    canon_list_fits [OF assms(1)] canon_list_fits [OF assms(2)] quote_list_inject [OF assms(1,2)]
    display_loop_printable [of "[]" cs] assms(3)
  by (simp add: safe_display_def chars_U)

lemma approval_text_unambiguous_witness:
  "canon_list (map U [[97, 32, 98]]) 240 \<noteq> canon_list (map U [[97], [98]]) 240"
proof
  assume "canon_list (map U [[97, 32, 98]]) 240 = canon_list (map U [[97], [98]]) 240"
  moreover have "length (quote_list [[97, 32, 98]]) + 5 \<le> 240" "length (quote_list [[97], [98]]) + 5 \<le> 240"
    by (simp_all add: quote_list_def quote_def esc_def is_control_def enc_char_def)
  moreover have "list_all (list_all scalar) [[97, 32, 98]]" "list_all (list_all scalar) [[97], [98]]" "list_all scalar []"
    by (simp_all add: scalar_def)
  ultimately show False using approval_text_unambiguous [of "[[97, 32, 98]]" "[[97], [98]]" "[]" 240] by blast
qed

end
