(* ===== verification/State.thy ===== *)
theory State
  imports Audit_Log Caps Consent
begin

text \<open>
  \<open>lib.rs\<close>, the session's state and what its operations share: the errors, the in-memory audit
  chain, the L5 gate with the consent ledger, the lookup of an active capability. An operation
  takes the environment and the system state and gives \<^const>\<open>None\<close> when the call panics or does
  not return, and otherwise a result and the new state. The system is one session with what it
  shares with the others of its service: the audit sink and its files, the consent ledger, the
  entropy source and the outside world.
\<close>

section \<open>State\<close>

record audit_event =
  ev_seq :: u64
  ev_op :: string
  ev_detail :: string
  ev_decision :: string
  ev_prev :: string
  ev_hash :: string

record session =
  s_key :: string
  s_caps :: caps
  s_audit :: "audit_event list"
  s_sink :: bool
  s_bootstrap :: "string option"
  s_audit_broken :: bool
  s_exec_policy :: sandbox_policy
  s_mailboxes :: "(string \<times> posted_msg list) list"
  s_l5 :: policy_engine
  s_consent :: bool
  s_reduced :: bool

record 'w sys =
  ses :: session
  sink :: audit_sink
  disk :: disk
  ledger :: consent_ledger
  rng :: nat
  world :: 'w

abbreviation upd_ses :: "(session \<Rightarrow> session) \<Rightarrow> 'w sys \<Rightarrow> 'w sys" where
  "upd_ses f s \<equiv> s\<lparr>ses := f (ses s)\<rparr>"

section \<open>Errors\<close>

text \<open>References in an error are already shortened, as in the text.\<close>

datatype error =
    AuditBroken
  | NotCapable string
  | PolicyDenied string
  | NoConsentLedger
  | ConsentRefused string
  | ConsentRequired string string
  | NoLedger
  | UnknownConsent string
  | ConsentErr consent_error
  | BootstrapGone
  | NotMessage string
  | SubOnlyDir
  | DirNoRootFd
  | OsErr os_error
  | PathErr path_error
  | NetErr net_error
  | PostIntentFailed
  | LiteralForbidden string
  | IfcMessage string
  | SubjectOutside string string
  | MailboxGone
  | SendOnlyFacet string
  | MailboxReadUnaudited
  | CwdNotDir
  | MitigationReduced
  | HttpIntentFailed
  | NotHttp
  | GetNotAllowed
  | PathNotAllowed string
  | HttpsUnsupported
  | ReadUnaudited
  | NoRead string
  | RootFdMissing
  | ListUnaudited
  | NoList string
  | ExecIntentFailed
  | NoExec string
  | EmptyArgv
  | NoCwdFd
  | ExecFailed string
  | SendIntentFailed
  | NotSink string
  | IfcSink string string
  | UnknownCap string
  | Detached string

definition error_text :: "(nat \<Rightarrow> bool) \<Rightarrow> error \<Rightarrow> string" where
  "error_text esc e = (case e of
     AuditBroken \<Rightarrow> (U [0x5BA1, 0x8BA1] @ '' sink '' @ U [0x5199, 0x5931, 0x8D25]
       @ '',fail-closed '' @ U [0x62D2, 0x7EDD, 0x540E, 0x7EED, 0x654F, 0x611F, 0x64CD, 0x4F5C])
   | NotCapable r \<Rightarrow> ''cap '' @ r @ ('' '' @ U [0x65E0, 0x6548] @ ''/'' @ U [0x5DF2,
     0x64A4, 0x9500] @ ''(ENOTCAPABLE)'')
   | PolicyDenied v \<Rightarrow> (''L5 '' @ U [0x7B56, 0x7565, 0x62D2, 0x7EDD, 0x52A8, 0x4F5C]
     @ '' '') @ v
   | NoConsentLedger \<Rightarrow> (''L5 '' @ U [0x9700] @ '' JIT consent '' @ U [0x4F46, 0x65E0]
     @ '' consent '' @ U [0x8D26, 0x672C] @ '',fail-closed '' @ U [0x62D2, 0x7EDD])
   | ConsentRefused v \<Rightarrow> (''JIT consent '' @ U [0x88AB, 0x62D2] @ '':'') @ v
   | ConsentRequired i hint \<Rightarrow> ''__CONSENT__'' @ [tab] @ i @ [tab] @ hint
   | NoLedger \<Rightarrow> (U [0x65E0] @ '' consent '' @ U [0x8D26, 0x672C])
   | UnknownConsent i \<Rightarrow> ''consent '' @ i @ ('' '' @ U [0x4E0D, 0x5B58, 0x5728])
   | ConsentErr c \<Rightarrow> consent_error_text c
   | BootstrapGone \<Rightarrow> (''BOOTSTRAP '' @ U [0x5DF2, 0x88AB, 0x6D88, 0x8D39, 0x6216,
     0x4E0D, 0x53EF, 0x7528] @ ''(guest '' @ U [0x65E0, 0x9884, 0x6CE8, 0x5165, 0x6839] @ '')'')
   | NotMessage r \<Rightarrow> ''cap '' @ r @ ('' '' @ U [0x4E0D, 0x662F] @ '' message'')
   | SubOnlyDir \<Rightarrow> (''sub '' @ U [0x53EA, 0x9002, 0x7528, 0x4E8E] @ '' DirCap'')
   | DirNoRootFd \<Rightarrow> (''DirCap '' @ U [0x65E0] @ '' root fd'')
   | OsErr o' \<Rightarrow> os_error_text o'
   | PathErr p \<Rightarrow> path_error_text p
   | NetErr n \<Rightarrow> net_error_text esc n
   | PostIntentFailed \<Rightarrow> (''post '' @ U [0x524D, 0x7F6E, 0x5BA1, 0x8BA1, 0x5931,
     0x8D25] @ '',fail-closed '' @ U [0x4E0D, 0x6295, 0x9012])
   | LiteralForbidden r \<Rightarrow> (U [0x59D4, 0x6258] @ ''('' @ U [0x53EA, 0x6295, 0x9012]
     @ '')facet '') @ r
       @ ('' '' @ U [0x7981, 0x6B62, 0x5B57, 0x9762, 0x6295, 0x9012] @ ''('' @ U [0x9632]
         @ '' taint '' @ U [0x6D17, 0x767D] @ '');'' @ U [0x8BF7, 0x7528] @ '' post_from ''
           @ U [0x7531] @ '' broker '' @ U [0x5224, 0x5B9A] @ '' taint'')
   | IfcMessage r \<Rightarrow> (''IFC violation: secret '' @ U [0x6C61, 0x70B9, 0x6570, 0x636E,
     0x4E0D, 0x80FD, 0x7ECF] @ '' MessageCap '') @ r
       @ ('' '' @ U [0x5916, 0x53D1] @ ''. next: declassify.'')
   | SubjectOutside subj pre \<Rightarrow> (U [0x8870, 0x51CF, 0x8FDD, 0x89C4] @ '':subject '')
     @ debug_str esc subj
       @ ('' '' @ U [0x4E0D, 0x5728, 0x8BE5] @ '' facet '' @ U [0x7684, 0x4E3B, 0x9898, 0x547D,
         0x540D, 0x7A7A, 0x95F4] @ '' '') @ debug_str esc pre @ ('' '' @ U [0x5185])
   | MailboxGone \<Rightarrow> (''mailbox '' @ U [0x4E0D, 0x5B58, 0x5728] @ ''('' @ U [0x5DF2,
     0x88AB, 0x56DE, 0x6536] @ '')'')
   | SendOnlyFacet r \<Rightarrow> ''cap '' @ r @ ('' '' @ U [0x662F, 0x53EA, 0x6295, 0x9012]
     @ '' facet,'' @ U [0x65E0, 0x6536, 0x4EF6, 0x6743, 0x9650])
   | MailboxReadUnaudited \<Rightarrow> (''mailbox_read '' @ U [0x672A, 0x80FD, 0x6301, 0x4E45,
     0x5BA1, 0x8BA1] @ '',fail-closed '' @ U [0x62D2, 0x7EDD, 0x62AB, 0x9732, 0x6536, 0x4EF6,
       0x7BB1])
   | CwdNotDir \<Rightarrow> (''grant command '' @ U [0x7684] @ '' cwd '' @ U [0x5FC5, 0x987B,
     0x662F] @ '' DirCap'')
   | MitigationReduced \<Rightarrow> ''mitigation reduced: subject cannot hold network authority (E1)''
   | HttpIntentFailed \<Rightarrow> (''http '' @ U [0x524D, 0x7F6E, 0x5BA1, 0x8BA1, 0x5931,
     0x8D25] @ '',fail-closed '' @ U [0x4E0D, 0x8BF7, 0x6C42])
   | NotHttp \<Rightarrow> (''cap '' @ U [0x4E0D, 0x662F] @ '' HttpCap'')
   | GetNotAllowed \<Rightarrow> (''HttpCap '' @ U [0x672A, 0x6388, 0x6743] @ '' GET'')
   | PathNotAllowed p \<Rightarrow> ''canonical path '' @ p @ ('' '' @ U [0x4E0D, 0x5728]
     @ '' HttpCap allowlist'')
   | HttpsUnsupported \<Rightarrow> (U [0x76EE, 0x524D, 0x4EC5, 0x652F, 0x6301]
     @ '' http://(https '' @ U [0x9700] @ '' TLS,'' @ U [0x540E, 0x7EED] @ '')'')
   | ReadUnaudited \<Rightarrow> (''read '' @ U [0x7ED3, 0x679C, 0x672A, 0x80FD, 0x6301, 0x4E45,
     0x5BA1, 0x8BA1] @ '',fail-closed '' @ U [0x62D2, 0x7EDD, 0x8FD4, 0x56DE])
   | NoRead r \<Rightarrow> ''DirCap '' @ r @ ('' '' @ U [0x65E0] @ '' Read'')
   | RootFdMissing \<Rightarrow> (''DirCap '' @ U [0x65E0] @ '' root fd('' @ U [0x6253, 0x5F00,
     0x5931, 0x8D25] @ '')'')
   | ListUnaudited \<Rightarrow> (''list '' @ U [0x7ED3, 0x679C, 0x672A, 0x80FD, 0x6301, 0x4E45,
     0x5BA1, 0x8BA1] @ '',fail-closed '' @ U [0x62D2, 0x7EDD, 0x8FD4, 0x56DE])
   | NoList r \<Rightarrow> ''DirCap '' @ r @ ('' '' @ U [0x65E0] @ '' List'')
   | ExecIntentFailed \<Rightarrow> (''exec '' @ U [0x524D, 0x7F6E, 0x5BA1, 0x8BA1, 0x5931,
     0x8D25] @ '',fail-closed '' @ U [0x4E0D, 0x6267, 0x884C])
   | NoExec r \<Rightarrow> ''CommandCap '' @ r @ ('' '' @ U [0x65E0] @ '' Exec'')
   | EmptyArgv \<Rightarrow> (''CommandCap argv '' @ U [0x4E3A, 0x7A7A])
   | NoCwdFd \<Rightarrow> (''CommandCap '' @ U [0x65E0] @ '' cwd fd,fail-closed '' @ U [0x62D2,
     0x7EDD, 0x6267, 0x884C])
   | ExecFailed m \<Rightarrow> ''exec failed: '' @ m
   | SendIntentFailed \<Rightarrow> (''send '' @ U [0x524D, 0x7F6E, 0x5BA1, 0x8BA1, 0x5931,
     0x8D25] @ '',fail-closed '' @ U [0x4E0D, 0x53D1, 0x9001])
   | NotSink r \<Rightarrow> ''cap '' @ r @ ('' '' @ U [0x4E0D, 0x662F] @ '' sink'')
   | IfcSink r name \<Rightarrow> (''IFC violation: secret '' @ U [0x6C61, 0x70B9, 0x6570, 0x636E,
     0x4E0D, 0x80FD, 0x6D41, 0x5165, 0x5916, 0x53D1] @ '' sink '') @ r
       @ ''('' @ name @ ''). next: declassify.''
   | UnknownCap r \<Rightarrow> ''cap '' @ r @ ('' '' @ U [0x672A, 0x77E5])
   | Detached r \<Rightarrow> ''cap '' @ r @ ('' '' @ U [0x672A, 0x77E5] @ ''('' @ U [0x8131,
     0x79BB] @ '' registry ''
  @ U [0x4E0A, 0x4E0B, 0x6587, 0x4E0D, 0x53EF, 0x8C03, 0x7528] @ '')''))"

definition decision_text :: "'w env \<Rightarrow> error + 'a \<Rightarrow> string" where
  "decision_text E r = (case r of Inr _ \<Rightarrow> ''allow'' | Inl e \<Rightarrow> ''deny:'' @ error_text (uni_escaped E) e)"

section \<open>The in-memory audit chain\<close>

definition session_content :: "u64 \<Rightarrow> string \<Rightarrow> string \<Rightarrow> string \<Rightarrow> string \<Rightarrow> string" where
  "session_content n op detail dec prev =
     show_nat (unat n) @ ''|'' @ op @ ''|'' @ detail @ ''|'' @ dec @ ''|'' @ prev"

definition one_line :: "string \<Rightarrow> string" where
  "one_line s = replace_all [tab, nl] (CHR '' '') s"

definition next_event :: "audit_event list \<Rightarrow> string \<Rightarrow> string \<Rightarrow> string \<Rightarrow> audit_event" where
  "next_event log op detail dec =
     (let n = of_nat (length log);
          prev = (if log = [] then ''GENESIS'' else ev_hash (last log));
          o' = one_line op; d = one_line detail; c = one_line dec
      in \<lparr>ev_seq = n, ev_op = o', ev_detail = d, ev_decision = c, ev_prev = prev,
          ev_hash = sha256_hex (as_bytes (session_content n o' d c prev))\<rparr>)"

text \<open>
  \<open>audit\<close>: always kept in memory; with a sink also recorded there, and whether that worked is the
  result. A failure marks the session.
\<close>

definition audit :: "'w env \<Rightarrow> string \<Rightarrow> string \<Rightarrow> string \<Rightarrow> 'w sys \<Rightarrow> bool \<times> 'w sys" where
  "audit E op detail dec s =
     (let s1 = upd_ses (s_audit_update (\<lambda>log. log @ [next_event log op detail dec])) s in
      if s_sink (ses s) then
        (let (fault, w) = os_audit_fault E (world s1);
             (ok, sk, d) = sink_record fault (s_key (ses s)) (one_line op) (one_line detail)
                             (one_line dec) (sink s1) (disk s1);
             s2 = s1\<lparr>sink := sk, disk := d, world := w\<rparr>
         in if ok then (True, s2) else (False, upd_ses (s_audit_broken_update (\<lambda>_. True)) s2))
      else (True, s1))"

fun verify_from :: "nat \<Rightarrow> string \<Rightarrow> audit_event list \<Rightarrow> bool" where
  "verify_from i prev [] = True"
| "verify_from i prev (e # es) =
     (if ev_seq e \<noteq> of_nat i \<or> ev_prev e \<noteq> prev then False
      else if sha256_hex (as_bytes (session_content (ev_seq e) (ev_op e) (ev_detail e)
                (ev_decision e) (ev_prev e))) \<noteq> ev_hash e then False
      else verify_from (Suc i) (ev_hash e) es)"

definition verify_audit :: "session \<Rightarrow> bool" where
  "verify_audit ss = verify_from 0 ''GENESIS'' (s_audit ss)"

section \<open>Configuration\<close>

definition draw :: "'w env \<Rightarrow> 'w sys \<Rightarrow> (string \<times> 'w sys) option" where
  "draw E s = map_option (\<lambda>h. (h, s\<lparr>rng := Suc (rng s)\<rparr>)) (rand_hex E (rng s) 16)"

definition blank_session :: "string \<Rightarrow> session" where
  "blank_session key = \<lparr>s_key = key, s_caps = [], s_audit = [], s_sink = False, s_bootstrap = None,
     s_audit_broken = False, s_exec_policy = default_limits, s_mailboxes = [], s_l5 = allow_all,
     s_consent = False, s_reduced = False\<rparr>"

definition new_session :: "'w env \<Rightarrow> 'w sys \<Rightarrow> 'w sys option" where
  "new_session E s = do { (key, s1) \<leftarrow> draw E s; Some (s1\<lparr>ses := blank_session key\<rparr>) }"

definition with_sink :: "'w env \<Rightarrow> 'w sys \<Rightarrow> 'w sys option" where
  "with_sink E s = map_option (upd_ses (s_sink_update (\<lambda>_. True))) (new_session E s)"

definition set_policy :: "policy_engine \<Rightarrow> 'w sys \<Rightarrow> 'w sys" where
  "set_policy p s = upd_ses (s_l5_update (\<lambda>_. p)) s"

definition set_consent :: "'w sys \<Rightarrow> 'w sys" where
  "set_consent s = upd_ses (s_consent_update (\<lambda>_. True)) s"

definition set_exec_policy :: "sandbox_policy \<Rightarrow> 'w sys \<Rightarrow> 'w sys" where
  "set_exec_policy p s = upd_ses (s_exec_policy_update (\<lambda>_. p)) s"

section \<open>The L5 gate\<close>

definition action_sig :: "string list \<Rightarrow> string" where
  "action_sig parts = sha256_hex (as_bytes (''capsig:v1''
     @ concat (map (\<lambda>p. ''|'' @ show_nat (length p) @ '':'' @ p) parts)))"

definition gate ::
    "'w env \<Rightarrow> string \<Rightarrow> string \<Rightarrow> string \<Rightarrow> string \<Rightarrow> 'w sys \<Rightarrow> (error + unit) \<times> 'w sys" where
  "gate E verb sig hint detail s =
     (case decide (s_l5 (ses s)) verb of
        Allow \<Rightarrow> (Inr (), s)
      | Deny \<Rightarrow> (Inl (PolicyDenied verb), snd (audit E ''policy.deny'' sig ''deny'' s))
      | Prompt \<Rightarrow>
          if \<not> s_consent (ses s) then (Inl NoConsentLedger, s)
          else (case request_or_check sig (s_key (ses s)) detail (ledger s) of
              (Now_Approved, l) \<Rightarrow>
                (Inr (), snd (audit E ''policy.consent'' sig ''approved'' (s\<lparr>ledger := l\<rparr>)))
            | (Now_Denied, l) \<Rightarrow>
                (Inl (ConsentRefused verb),
                 snd (audit E ''policy.consent'' sig ''denied'' (s\<lparr>ledger := l\<rparr>)))
            | (Now_Pending i, l) \<Rightarrow>
                (Inl (ConsentRequired i hint),
                 snd (audit E ''policy.consent'' (sig @ '' id='' @ i) ''pending'' (s\<lparr>ledger := l\<rparr>)))))"

definition consent_describe :: "string \<Rightarrow> 'w sys \<Rightarrow> error + string" where
  "consent_describe i s =
     (if \<not> s_consent (ses s) then Inl NoLedger
      else case describe_request i (ledger s) of None \<Rightarrow> Inl (UnknownConsent i) | Some t \<Rightarrow> Inr t)"

definition consent_list :: "'w sys \<Rightarrow> (string \<times> string \<times> string) list" where
  "consent_list s = (if s_consent (ses s) then list_pending (ledger s) else [])"

definition consent_settle ::
    "'w env \<Rightarrow> string \<Rightarrow> (consent_ledger \<Rightarrow> (consent_error + string) \<times> consent_ledger)
      \<Rightarrow> string \<Rightarrow> 'w sys \<Rightarrow> (error + string) \<times> 'w sys" where
  "consent_settle E op f i s =
     (if \<not> s_consent (ses s) then (Inl NoLedger, s)
      else case f (ledger s) of (r, l) \<Rightarrow>
        (case r of Inl e \<Rightarrow> Inl (ConsentErr e) | Inr t \<Rightarrow> Inr t,
         snd (audit E op i (if is_ok r then ''allow'' else ''deny'') (s\<lparr>ledger := l\<rparr>))))"

definition consent_approve :: "'w env \<Rightarrow> string \<Rightarrow> 'w sys \<Rightarrow> (error + string) \<times> 'w sys" where
  "consent_approve E i = consent_settle E ''consent.approve'' (approve i) i"

definition consent_deny :: "'w env \<Rightarrow> string \<Rightarrow> 'w sys \<Rightarrow> (error + string) \<times> 'w sys" where
  "consent_deny E i = consent_settle E ''consent.deny'' (deny i) i"

section \<open>Capabilities in use\<close>

definition ensure_audit_ok :: "session \<Rightarrow> error + unit" where
  "ensure_audit_ok ss = (if s_audit_broken ss then Inl AuditBroken else Inr ())"

text \<open>The last lookup of the source cannot fail: an active capability is in the table.\<close>

definition get_active :: "session \<Rightarrow> string \<Rightarrow> (error + cap) option" where
  "get_active ss r =
     (if s_audit_broken ss then Some (Inl AuditBroken)
      else do {
        act \<leftarrow> is_active (s_caps ss) r;
        if \<not> act then do { sr \<leftarrow> short r; Some (Inl (NotCapable sr)) }
        else (case map_of (s_caps ss) r of
            Some c \<Rightarrow> Some (Inr c)
          | None \<Rightarrow> do { sr \<leftarrow> short r; Some (Inl (Detached sr)) })
      })"

definition insert_cap :: "cap \<Rightarrow> 'w sys \<Rightarrow> 'w sys" where
  "insert_cap c s = upd_ses (s_caps_update (AList.update (c_id c) c)) s"

definition cap_of_hex :: "string \<Rightarrow> string" where
  "cap_of_hex h = ''cap_'' @ h"

definition mbox_of_hex :: "string \<Rightarrow> string" where
  "mbox_of_hex h = ''mbox_'' @ h"

definition blank_cap :: "string \<Rightarrow> kind \<Rightarrow> cap" where
  "blank_cap i k = \<lparr>c_id = i, c_kind = k, c_revoked = False, c_root = [], c_ops = [],
     c_taint = Green, c_name = [], c_argv = [], c_env = [], c_dir_fd = None, c_http = None,
     c_msg = None, c_parent = None\<rparr>"

end
