(* ===== verification/Session.thy ===== *)
theory Session
  imports State
begin

text \<open>
  \<open>lib.rs\<close>, the session's operations: minting, attenuation, use, revocation. Each is the source's
  function with its guards in their order, the audit entries it writes, and the places where it
  gives up. The pure part of a use (\<open>read_i\<close>, \<open>exec_i\<close>, and so on) is a definition of its own.
\<close>

section \<open>Minting\<close>

definition grant_dir ::
    "'w env \<Rightarrow> string \<Rightarrow> op list \<Rightarrow> taint \<Rightarrow> 'w sys \<Rightarrow> ((error + string) \<times> 'w sys) option" where
  "grant_dir E root ops tnt s =
     (case open_dir_fd E root (world s) of
        (Inl e, w) \<Rightarrow> Some (Inl (OsErr e), s\<lparr>world := w\<rparr>)
      | (Inr fd, w) \<Rightarrow> do {
          (h, s1) \<leftarrow> draw E (s\<lparr>world := w\<rparr>);
          let c = (blank_cap (cap_of_hex h) Dir)\<lparr>c_root := root, c_ops := ops, c_taint := tnt,
                    c_dir_fd := Some fd\<rparr>;
          let s2 = insert_cap c s1;
          si \<leftarrow> short (c_id c);
          let s3 = snd (audit E ''grant_dir'' (si @ '' root='' @ root @ '' taint='' @ taint_str tnt)
                     ''allow'' s2);
          Some (Inr (c_id c), s3)
        })"

definition grant_sink :: "'w env \<Rightarrow> string \<Rightarrow> 'w sys \<Rightarrow> (string \<times> 'w sys) option" where
  "grant_sink E name s = do {
     (h, s1) \<leftarrow> draw E s;
     let c = (blank_cap (cap_of_hex h) Sink)\<lparr>c_name := name\<rparr>;
     let s2 = insert_cap c s1;
     si \<leftarrow> short (c_id c);
     Some (c_id c, snd (audit E ''grant_sink'' (si @ '' '' @ name) ''allow'' s2))
   }"

definition grant_message :: "'w env \<Rightarrow> string \<Rightarrow> 'w sys \<Rightarrow> (string \<times> 'w sys) option" where
  "grant_message E recipient s = do {
     (hm, s1) \<leftarrow> draw E s;
     let mailbox = mbox_of_hex hm;
     let s2 = upd_ses (s_mailboxes_update (AList.update mailbox [])) s1;
     (h, s3) \<leftarrow> draw E s2;
     let c = (blank_cap (cap_of_hex h) Message)\<lparr>c_name := recipient,
               c_msg := Some \<lparr>m_mailbox = mailbox, m_prefix = [], m_one_shot = False,
                             m_can_receive = True\<rparr>\<rparr>;
     let s4 = insert_cap c s3;
     si \<leftarrow> short (c_id c);
     Some (c_id c, snd (audit E ''grant_message'' (si @ '' to='' @ recipient) ''allow'' s4))
   }"

definition grant_command ::
    "'w env \<Rightarrow> string \<Rightarrow> string list \<Rightarrow> 'w sys \<Rightarrow> ((error + string) \<times> 'w sys) option" where
  "grant_command E cwd_ref argv s = do {
     d \<leftarrow> get_active (ses s) cwd_ref;
     (case d of
        Inl e \<Rightarrow> Some (Inl e, s)
      | Inr dc \<Rightarrow>
          if c_kind dc \<noteq> Dir then Some (Inl CwdNotDir, s)
          else do {
            (h, s1) \<leftarrow> draw E s;
            let c = (blank_cap (cap_of_hex h) Command)\<lparr>c_root := c_root dc, c_ops := [Exec],
                      c_taint := Yellow, c_name := join '' '' argv, c_argv := argv,
                      c_env := [''PATH=/usr/bin:/bin:/usr/local/bin''], c_dir_fd := c_dir_fd dc\<rparr>;
            let s2 = insert_cap c s1;
            si \<leftarrow> short (c_id c);
            Some (Inr (c_id c),
                  snd (audit E ''grant_cmd'' (si @ '' ['' @ join '' '' argv @ '']'') ''allow'' s2))
          })
   }"

definition grant_http ::
    "'w env \<Rightarrow> string \<Rightarrow> string \<Rightarrow> u16 \<Rightarrow> string list \<Rightarrow> string list \<Rightarrow> nat \<Rightarrow> 'w sys
      \<Rightarrow> ((error + string) \<times> 'w sys) option" where
  "grant_http E scheme host port methods paths max_bytes s =
     (if s_reduced (ses s) then
        Some (Inl MitigationReduced,
              snd (audit E ''grant_http'' host ''deny:mitigation_reduced'' s))
      else case valid_host host of
        Inl e \<Rightarrow> Some (Inl (NetErr e), s)
      | Inr _ \<Rightarrow> do {
          (h, s1) \<leftarrow> draw E s;
          let origin = scheme @ ''://'' @ host @ '':'' @ show_nat (unat port);
          let c = (blank_cap (cap_of_hex h) Http)\<lparr>c_root := origin, c_taint := External,
                    c_http := Some \<lparr>h_scheme = scheme, h_host = host, h_port = port,
                      h_methods = methods, h_paths = paths, h_max_bytes = max_bytes\<rparr>\<rparr>;
          let s2 = insert_cap c s1;
          si \<leftarrow> short (c_id c);
          Some (Inr (c_id c), snd (audit E ''grant_http'' (si @ '' '' @ origin) ''allow'' s2))
        })"

definition set_bootstrap :: "'w env \<Rightarrow> string \<Rightarrow> 'w sys \<Rightarrow> 'w sys option" where
  "set_bootstrap E workspace s = do {
     (r, s1) \<leftarrow> grant_dir E workspace [Read, List] Project s;
     Some (upd_ses (s_bootstrap_update (\<lambda>_. case r of Inr i \<Rightarrow> Some i | Inl _ \<Rightarrow> None)) s1)
   }"

definition take_bootstrap :: "'w sys \<Rightarrow> (error + string) \<times> 'w sys" where
  "take_bootstrap s =
     (case s_bootstrap (ses s) of
        None \<Rightarrow> (Inl BootstrapGone, s)
      | Some i \<Rightarrow> (Inr i, upd_ses (s_bootstrap_update (\<lambda>_. None)) s))"

section \<open>Attenuation\<close>

definition derive_sub ::
    "'w env \<Rightarrow> string \<Rightarrow> string \<Rightarrow> 'w sys \<Rightarrow> ((error + string) \<times> 'w sys) option" where
  "derive_sub E r seg s = do {
     g \<leftarrow> get_active (ses s) r;
     (case g of
        Inl e \<Rightarrow> Some (Inl e, s)
      | Inr c \<Rightarrow>
          if c_kind c \<noteq> Dir then Some (Inl SubOnlyDir, s)
          else case c_dir_fd c of
            None \<Rightarrow> Some (Inl DirNoRootFd, s)
          | Some pfd \<Rightarrow>
              (case derive_dir_at E pfd seg (world s) of
                 (Inl e, w) \<Rightarrow> Some (Inl (OsErr e), s\<lparr>world := w\<rparr>)
               | (Inr child, w) \<Rightarrow>
                   (case safe_join (c_root c) seg of
                      Inl e \<Rightarrow> Some (Inl (PathErr e), s\<lparr>world := w\<rparr>)
                    | Inr root \<Rightarrow> do {
                        (h, s1) \<leftarrow> draw E (s\<lparr>world := w\<rparr>);
                        let d = (blank_cap (cap_of_hex h) Dir)\<lparr>c_root := root, c_ops := c_ops c,
                                  c_taint := c_taint c, c_dir_fd := Some child, c_parent := Some r\<rparr>;
                        let s2 = insert_cap d s1;
                        si \<leftarrow> short (c_id d);
                        sr \<leftarrow> short r;
                        Some (Inr (c_id d),
                              snd (audit E ''derive_sub'' (si @ '' <- '' @ sr @ '' /'' @ seg) ''allow'' s2))
                      })))
   }"

definition derive_readonly ::
    "'w env \<Rightarrow> string \<Rightarrow> 'w sys \<Rightarrow> ((error + string) \<times> 'w sys) option" where
  "derive_readonly E r s = do {
     g \<leftarrow> get_active (ses s) r;
     (case g of
        Inl e \<Rightarrow> Some (Inl e, s)
      | Inr c \<Rightarrow> do {
          (h, s1) \<leftarrow> draw E s;
          let d = (blank_cap (cap_of_hex h) (c_kind c))\<lparr>c_root := c_root c, c_ops := [Read, List],
                    c_taint := c_taint c, c_dir_fd := c_dir_fd c, c_parent := Some r\<rparr>;
          let s2 = insert_cap d s1;
          si \<leftarrow> short (c_id d);
          sr \<leftarrow> short r;
          Some (Inr (c_id d), snd (audit E ''derive_readonly'' (si @ '' <- '' @ sr) ''allow'' s2))
        })
   }"

text \<open>The message spec of an active capability, with the error of the source.\<close>

definition get_msg :: "session \<Rightarrow> string \<Rightarrow> (error + msg_spec) option" where
  "get_msg ss r = do {
     g \<leftarrow> get_active ss r;
     (case g of
        Inl e \<Rightarrow> Some (Inl e)
      | Inr c \<Rightarrow> (case c_msg c of
            Some m \<Rightarrow> Some (Inr m)
          | None \<Rightarrow> do { sr \<leftarrow> short r; Some (Inl (NotMessage sr)) }))
   }"

definition insert_msg_facet ::
    "'w env \<Rightarrow> string \<Rightarrow> string \<Rightarrow> string \<Rightarrow> bool \<Rightarrow> 'w sys \<Rightarrow> (string \<times> 'w sys) option" where
  "insert_msg_facet E parent mailbox pre one_shot s = do {
     (h, s1) \<leftarrow> draw E s;
     let c = (blank_cap (cap_of_hex h) Message)\<lparr>
               c_msg := Some \<lparr>m_mailbox = mailbox, m_prefix = pre, m_one_shot = one_shot,
                             m_can_receive = False\<rparr>, c_parent := Some parent\<rparr>;
     let s2 = insert_cap c s1;
     si \<leftarrow> short (c_id c);
     Some (c_id c, snd (audit E ''derive_message'' si ''allow'' s2))
   }"

definition derive_msg_prefix ::
    "'w env \<Rightarrow> string \<Rightarrow> string \<Rightarrow> 'w sys \<Rightarrow> ((error + string) \<times> 'w sys) option" where
  "derive_msg_prefix E r add s = do {
     g \<leftarrow> get_msg (ses s) r;
     (case g of
        Inl e \<Rightarrow> Some (Inl e, s)
      | Inr m \<Rightarrow> map_option (\<lambda>(i, s'). (Inr i, s'))
          (insert_msg_facet E r (m_mailbox m) (m_prefix m @ add) False s))
   }"

definition derive_msg_oneshot ::
    "'w env \<Rightarrow> string \<Rightarrow> 'w sys \<Rightarrow> ((error + string) \<times> 'w sys) option" where
  "derive_msg_oneshot E r s = do {
     g \<leftarrow> get_msg (ses s) r;
     (case g of
        Inl e \<Rightarrow> Some (Inl e, s)
      | Inr m \<Rightarrow> map_option (\<lambda>(i, s'). (Inr i, s'))
          (insert_msg_facet E r (m_mailbox m) (m_prefix m) True s))
   }"

section \<open>Files\<close>

definition read_i ::
    "'w env \<Rightarrow> string \<Rightarrow> string \<Rightarrow> 'w sys \<Rightarrow> ((error + taint \<times> byte list) \<times> 'w sys) option" where
  "read_i E r rel s = do {
     g \<leftarrow> get_active (ses s) r;
     (case g of
        Inl e \<Rightarrow> Some (Inl e, s)
      | Inr c \<Rightarrow>
          if Read \<notin> set (c_ops c) then do { sr \<leftarrow> short r; Some (Inl (NoRead sr), s) }
          else case safe_join (c_root c) rel of
            Inl e \<Rightarrow> Some (Inl (PathErr e), s)
          | Inr _ \<Rightarrow>
              (case c_dir_fd c of
                 None \<Rightarrow> Some (Inl RootFdMissing, s)
               | Some fd \<Rightarrow>
                   (case read_at E fd rel (world s) of
                      (Inl e, w) \<Rightarrow> Some (Inl (OsErr e), s\<lparr>world := w\<rparr>)
                    | (Inr data, w) \<Rightarrow>
                        Some (Inr (if is_secret_path (c_root c @ ''/'' @ rel) then Secret else c_taint c,
                                   data), s\<lparr>world := w\<rparr>))))
   }"

definition read ::
    "'w env \<Rightarrow> string \<Rightarrow> string \<Rightarrow> 'w sys \<Rightarrow> ((error + taint \<times> byte list) \<times> 'w sys) option" where
  "read E r rel s = do {
     (res, s1) \<leftarrow> read_i E r rel s;
     sr \<leftarrow> short r;
     let (audited, s2) = audit E ''read'' (sr @ '' '' @ rel) (decision_text E res) s1;
     Some (if is_ok res \<and> \<not> audited then Inl ReadUnaudited else res, s2)
   }"

definition list_i ::
    "'w env \<Rightarrow> string \<Rightarrow> string \<Rightarrow> 'w sys \<Rightarrow> ((error + byte list) \<times> 'w sys) option" where
  "list_i E r rel s = do {
     g \<leftarrow> get_active (ses s) r;
     (case g of
        Inl e \<Rightarrow> Some (Inl e, s)
      | Inr c \<Rightarrow>
          if List \<notin> set (c_ops c) then do { sr \<leftarrow> short r; Some (Inl (NoList sr), s) }
          else case safe_join (c_root c) rel of
            Inl e \<Rightarrow> Some (Inl (PathErr e), s)
          | Inr _ \<Rightarrow>
              (case c_dir_fd c of
                 None \<Rightarrow> Some (Inl RootFdMissing, s)
               | Some fd \<Rightarrow> do {
                   (res, w) \<leftarrow> list_at E fd rel (world s);
                   Some (case res of
                           Inl e \<Rightarrow> (Inl (OsErr e), s\<lparr>world := w\<rparr>)
                         | Inr names \<Rightarrow> (Inr (as_bytes (join [nl] names)), s\<lparr>world := w\<rparr>))
                 }))
   }"

definition list_op ::
    "'w env \<Rightarrow> string \<Rightarrow> string \<Rightarrow> 'w sys \<Rightarrow> ((error + byte list) \<times> 'w sys) option" where
  "list_op E r rel s = do {
     (res, s1) \<leftarrow> list_i E r rel s;
     sr \<leftarrow> short r;
     let (audited, s2) = audit E ''list'' (sr @ '' '' @ rel) (decision_text E res) s1;
     Some (if is_ok res \<and> \<not> audited then Inl ListUnaudited else res, s2)
   }"

section \<open>Messages\<close>

text \<open>\<open>post_bytes\<close>: the facet, the flow check, the subject's namespace, delivery, one-shot.\<close>

definition post_bytes ::
    "string \<Rightarrow> string \<Rightarrow> taint \<Rightarrow> string \<Rightarrow> 'w sys \<Rightarrow> ((error + unit) \<times> 'w sys) option" where
  "post_bytes r subject tnt body s = do {
     g \<leftarrow> get_msg (ses s) r;
     (case g of
        Inl e \<Rightarrow> Some (Inl e, s)
      | Inr m \<Rightarrow>
          if is_sensitive tnt then do { sr \<leftarrow> short r; Some (Inl (IfcMessage sr), s) }
          else if \<not> prefix (m_prefix m) subject then
            Some (Inl (SubjectOutside subject (m_prefix m)), s)
          else case map_of (s_mailboxes (ses s)) (m_mailbox m) of
            None \<Rightarrow> Some (Inl MailboxGone, s)
          | Some box \<Rightarrow>
              let msg = \<lparr>p_subject = subject, p_body = body, p_taint = tnt, p_from = s_key (ses s)\<rparr>;
                  s1 = upd_ses (s_mailboxes_update (AList.update (m_mailbox m) (box @ [msg]))) s
              in Some (Inr (), if m_one_shot m then upd_ses (s_caps_update (revoke_entry r)) s1 else s1))
   }"

definition post_literal_owner_only ::
    "string \<Rightarrow> string \<Rightarrow> string \<Rightarrow> 'w sys \<Rightarrow> ((error + unit) \<times> 'w sys) option" where
  "post_literal_owner_only r subject body s = do {
     g \<leftarrow> get_msg (ses s) r;
     (case g of
        Inl e \<Rightarrow> Some (Inl e, s)
      | Inr m \<Rightarrow>
          if \<not> m_can_receive m then do { sr \<leftarrow> short r; Some (Inl (LiteralForbidden sr), s) }
          else post_bytes r subject Green body s)
   }"

definition approval_hint :: "string \<Rightarrow> string \<Rightarrow> string \<Rightarrow> string" where
  "approval_hint verb what sr =
     (U [0x9700, 0x5BA1, 0x6279] @ '' '') @ verb @ '' on '' @ what @ '' '' @ sr @ (''(''
       @ U [0x8BE6, 0x60C5, 0x89C1] @ '' control CONSENT_DESCRIBE)'')"

definition post ::
    "'w env \<Rightarrow> string \<Rightarrow> string \<Rightarrow> string \<Rightarrow> 'w sys \<Rightarrow> ((error + unit) \<times> 'w sys) option" where
  "post E r subject body s = do {
     let body_hash = sha256_hex (as_bytes body);
     sr \<leftarrow> short r;
     let hint = approval_hint ''post'' ''MessageCap'' sr;
     let detail = (U [0x6295, 0x9012] @ '' '') @ sr @ '' subj='' @ safe_display subject
       @ '' body#'' @ take 12 body_hash;
     let (g, s1) = gate E ''post'' (action_sig [''post'', r, subject, body_hash]) hint detail s;
     (case g of
        Inl e \<Rightarrow> Some (Inl e, s1)
      | Inr _ \<Rightarrow>
          let d = sr @ '' subj='' @ subject @ '' src=literal'';
              (ok, s2) = audit E ''post.intent'' d ''attempt'' s1
          in if \<not> ok then Some (Inl PostIntentFailed, s2)
             else do {
               (res, s3) \<leftarrow> post_literal_owner_only r subject body s2;
               Some (res, snd (audit E ''post.result'' d (decision_text E res) s3))
             })
   }"

definition post_from ::
    "'w env \<Rightarrow> string \<Rightarrow> string \<Rightarrow> string \<Rightarrow> string \<Rightarrow> 'w sys \<Rightarrow> ((error + unit) \<times> 'w sys) option" where
  "post_from E r subject src rel s = do {
     sr \<leftarrow> short r;
     ssrc \<leftarrow> short src;
     let hint = approval_hint ''post_from'' ''MessageCap'' sr;
     let detail = (U [0x8F6C, 0x53D1, 0x6295, 0x9012] @ '' '') @ sr @ '' subj=''
       @ safe_display subject @ '' <- '' @ ssrc @ '' ''
                    @ safe_display rel;
     let (g, s1) = gate E ''post_from'' (action_sig [''post_from'', r, subject, src, rel]) hint detail s;
     (case g of
        Inl e \<Rightarrow> Some (Inl e, s1)
      | Inr _ \<Rightarrow>
          let d = sr @ '' subj='' @ subject @ '' src='' @ ssrc @ '' '' @ rel;
              (ok, s2) = audit E ''post.intent'' d ''attempt'' s1
          in if \<not> ok then Some (Inl PostIntentFailed, s2)
             else do {
               (rd, s3) \<leftarrow> read_i E src rel s2;
               (res, s4) \<leftarrow> (case rd of
                   Inl e \<Rightarrow> Some (Inl e, s3)
                 | Inr (tnt, bytes) \<Rightarrow> post_bytes r subject tnt (from_utf8_lossy bytes) s3);
               Some (res, snd (audit E ''post.result'' d (decision_text E res) s4))
             })
   }"

definition mailbox_read ::
    "'w env \<Rightarrow> string \<Rightarrow> 'w sys
      \<Rightarrow> ((error + (string \<times> taint \<times> string) list) \<times> 'w sys) option" where
  "mailbox_read E r s = do {
     g \<leftarrow> get_msg (ses s) r;
     (case g of
        Inl e \<Rightarrow> Some (Inl e, s)
      | Inr m \<Rightarrow>
          if \<not> m_can_receive m then do { sr \<leftarrow> short r; Some (Inl (SendOnlyFacet sr), s) }
          else do {
            let out = (case map_of (s_mailboxes (ses s)) (m_mailbox m) of
                         None \<Rightarrow> []
                       | Some box \<Rightarrow> map (\<lambda>p. (p_subject p, p_taint p, p_body p)) box);
            sr \<leftarrow> short r;
            let (ok, s1) = audit E ''mailbox_read'' sr ''allow'' s;
            Some (if \<not> ok then Inl MailboxReadUnaudited else Inr out, s1)
          })
   }"

section \<open>Network\<close>

definition http_get_i ::
    "'w env \<Rightarrow> string \<Rightarrow> string \<Rightarrow> 'w sys \<Rightarrow> ((error + taint \<times> byte list) \<times> 'w sys) option" where
  "http_get_i E r path s = do {
     g \<leftarrow> get_active (ses s) r;
     (case g of
        Inl e \<Rightarrow> Some (Inl e, s)
      | Inr c \<Rightarrow>
        (case c_http c of
           None \<Rightarrow> Some (Inl NotHttp, s)
         | Some spec \<Rightarrow>
           (case canonical_request_target path of
              Inl e \<Rightarrow> Some (Inl (NetErr e), s)
            | Inr target \<Rightarrow>
                let match_path = hd (split_on (CHR ''?'') target) in
                if \<not> list_ex (\<lambda>m. m = ''GET'') (h_methods spec) then Some (Inl GetNotAllowed, s)
                else if \<not> list_ex (\<lambda>p. path_matches p match_path) (h_paths spec) then
                  Some (Inl (PathNotAllowed match_path), s)
                else if h_scheme spec \<noteq> ''http'' then Some (Inl HttpsUnsupported, s)
                else (case resolve_checked E (h_host spec) (h_port spec) (world s) of
                    (Inl e, w) \<Rightarrow> Some (Inl (NetErr e), s\<lparr>world := w\<rparr>)
                  | (Inr addrs, w) \<Rightarrow>
                      let hostpart = (if CHR '':'' \<in> set (h_host spec) \<and> \<not> prefix ''['' (h_host spec)
                                      then ''['' @ h_host spec @ '']'' else h_host spec);
                          authority = (if h_port spec = 80 then hostpart
                                       else hostpart @ '':'' @ show_nat (unat (h_port spec)))
                      in (case nth_opt addrs 0 of
                            None \<Rightarrow> None
                          | Some a \<Rightarrow>
                              (case fetch_get E a authority target (h_max_bytes spec) w of
                                 (Inl e, w') \<Rightarrow> Some (Inl (NetErr e), s\<lparr>world := w'\<rparr>)
                               | (Inr resp, w') \<Rightarrow>
                                   Some (Inr (External, hr_body resp), s\<lparr>world := w'\<rparr>)))))))
   }"

definition http_get ::
    "'w env \<Rightarrow> string \<Rightarrow> string \<Rightarrow> 'w sys \<Rightarrow> ((error + taint \<times> byte list) \<times> 'w sys) option" where
  "http_get E r path s = do {
     sr \<leftarrow> short r;
     let hint = approval_hint ''http_get'' ''HttpCap'' sr;
     let detail = ''HTTP GET '' @ sr @ '' path='' @ safe_display path;
     let (g, s1) = gate E ''http_get'' (action_sig [''http_get'', r, path]) hint detail s;
     (case g of
        Inl e \<Rightarrow> Some (Inl e, s1)
      | Inr _ \<Rightarrow>
          let d = sr @ '' GET '' @ path;
              (ok, s2) = audit E ''http.intent'' d ''attempt'' s1
          in if \<not> ok then Some (Inl HttpIntentFailed, s2)
             else do {
               (res, s3) \<leftarrow> http_get_i E r path s2;
               Some (res, snd (audit E ''http.result'' d (decision_text E res) s3))
             })
   }"

section \<open>Commands\<close>

text \<open>\<open>e.split_once('=')\<close>.\<close>

definition split_once_eq :: "string \<Rightarrow> (string \<times> string) option" where
  "split_once_eq e =
     (if CHR ''='' \<in> set e
      then Some (takeWhile (\<lambda>c. c \<noteq> CHR ''='') e, tl (dropWhile (\<lambda>c. c \<noteq> CHR ''='') e)) else None)"

definition exec_i ::
    "'w env \<Rightarrow> string \<Rightarrow> 'w sys \<Rightarrow> ((error + byte list) \<times> 'w sys) option" where
  "exec_i E r s = do {
     g \<leftarrow> get_active (ses s) r;
     (case g of
        Inl e \<Rightarrow> Some (Inl e, s)
      | Inr c \<Rightarrow>
          if Exec \<notin> set (c_ops c) then do { sr \<leftarrow> short r; Some (Inl (NoExec sr), s) }
          else if c_argv c = [] then Some (Inl EmptyArgv, s)
          else (case c_dir_fd c of
              None \<Rightarrow> Some (Inl NoCwdFd, s)
            | Some fd \<Rightarrow>
                (case os_command E (c_argv c) (List.map_filter split_once_eq (c_env c)) fd
                        (s_exec_policy (ses s)) (world s) of
                   (Inl m, w) \<Rightarrow> Some (Inl (ExecFailed m), s\<lparr>world := w\<rparr>)
                 | (Inr out, w) \<Rightarrow> Some (Inr out, s\<lparr>world := w\<rparr>))))
   }"

definition exec_detail :: "session \<Rightarrow> string \<Rightarrow> string \<Rightarrow> string" where
  "exec_detail ss r sr =
     (case map_of (s_caps ss) r of
        Some c \<Rightarrow> (U [0x6267, 0x884C, 0x547D, 0x4EE4] @ '' '') @ sr @ '' cwd=''
          @ safe_display (c_root c)
          @ '' argv=['' @ canon_list (c_argv c) 240 @ ''] env=['' @ canon_list (c_env c) 160 @ '']''
      | None \<Rightarrow> (U [0x6267, 0x884C, 0x547D, 0x4EE4] @ '' CommandCap '') @ sr)"

definition exec :: "'w env \<Rightarrow> string \<Rightarrow> 'w sys \<Rightarrow> ((error + byte list) \<times> 'w sys) option" where
  "exec E r s = do {
     sr \<leftarrow> short r;
     let hint = approval_hint ''exec'' ''CommandCap'' sr;
     let (g, s1) = gate E ''exec'' (action_sig [''exec'', r]) hint (exec_detail (ses s) r sr) s;
     (case g of
        Inl e \<Rightarrow> Some (Inl e, s1)
      | Inr _ \<Rightarrow>
          let (ok, s2) = audit E ''exec.intent'' sr ''attempt'' s1
          in if \<not> ok then Some (Inl ExecIntentFailed, s2)
             else do {
               (res, s3) \<leftarrow> exec_i E r s2;
               Some (res, snd (audit E ''exec.result'' sr (decision_text E res) s3))
             })
   }"

section \<open>Sinks and revocation\<close>

definition send_i :: "string \<Rightarrow> taint \<Rightarrow> 'w sys \<Rightarrow> (error + unit) option" where
  "send_i r tnt s = do {
     g \<leftarrow> get_active (ses s) r;
     (case g of
        Inl e \<Rightarrow> Some (Inl e)
      | Inr c \<Rightarrow>
          if c_kind c \<noteq> Sink then do { sr \<leftarrow> short r; Some (Inl (NotSink sr)) }
          else if is_sensitive tnt then do { sr \<leftarrow> short r; Some (Inl (IfcSink sr (c_name c))) }
          else Some (Inr ()))
   }"

definition send :: "'w env \<Rightarrow> string \<Rightarrow> taint \<Rightarrow> 'w sys \<Rightarrow> ((error + unit) \<times> 'w sys) option" where
  "send E r tnt s = do {
     sr \<leftarrow> short r;
     let d = sr @ '' taint='' @ taint_str tnt;
     let (ok, s1) = audit E ''send.intent'' d ''attempt'' s;
     if \<not> ok then Some (Inl SendIntentFailed, s1)
     else do {
       res \<leftarrow> send_i r tnt s1;
       Some (res, snd (audit E ''send.result'' d (decision_text E res) s1))
     }
   }"

definition revoke :: "'w env \<Rightarrow> string \<Rightarrow> 'w sys \<Rightarrow> ((error + unit) \<times> 'w sys) option" where
  "revoke E r s = do {
     sr \<leftarrow> short r;
     let res = (case map_of (s_caps (ses s)) r of Some _ \<Rightarrow> Inr () | None \<Rightarrow> Inl (UnknownCap sr));
     let s1 = upd_ses (s_caps_update (revoke_entry r)) s;
     Some (res, snd (audit E ''revoke'' sr (decision_text E res) s1))
   }"

definition describe :: "session \<Rightarrow> string \<Rightarrow> (error + string) option" where
  "describe ss r = do {
     sr \<leftarrow> short r;
     (case map_of (s_caps ss) r of
        None \<Rightarrow> Some (Inl (UnknownCap sr))
      | Some c \<Rightarrow> do {
          act \<leftarrow> is_active (s_caps ss) r;
          Some (Inr (''<'' @ sr @ '' '' @ kind_str (c_kind c) @ '' root='' @ c_root c @ '' taint=''
            @ taint_str (c_taint c) @ (if act then [] else '' REVOKED'') @ ''>''))
        })
   }"

fun revoke_all :: "'w env \<Rightarrow> string list \<Rightarrow> 'w sys \<Rightarrow> 'w sys option" where
  "revoke_all E [] s = Some s"
| "revoke_all E (r # rs) s = do { (_, s1) \<leftarrow> revoke E r s; revoke_all E rs s1 }"

definition egress_caps :: "session \<Rightarrow> string list" where
  "egress_caps ss =
     map fst (filter (\<lambda>(r, c). \<not> c_revoked c \<and> (c_kind c = Http \<or> c_kind c = Message)) (s_caps ss))"

definition set_mitigation_reduced :: "'w env \<Rightarrow> bool \<Rightarrow> 'w sys \<Rightarrow> 'w sys option" where
  "set_mitigation_reduced E reduced s =
     (let s1 = upd_ses (s_reduced_update (\<lambda>_. reduced)) s in
      if reduced then do {
        s2 \<leftarrow> revoke_all E (egress_caps (ses s1)) s1;
        Some (snd (audit E ''mitigation'' ''reduced: egress caps revoked'' ''allow'' s2))
      }
      else Some (snd (audit E ''mitigation'' ''full'' ''allow'' s1)))"

end
