(* ===== verification/Steps.thy ===== *)
theory Steps
  imports Session
begin

text \<open>
  The session's operations as sequences of primitive changes. A primitive change is one audit
  entry, one draw, one capability added or revoked, one message delivered, and so on, each under
  the condition the code establishes before it. Every operation is shown to be such a sequence;
  what all primitive changes keep, every operation keeps. The flag of the relation says whether
  minting is allowed: the operations a guest can reach are sequences without it.
\<close>

section \<open>What an audit entry leaves alone\<close>

lemma audit_frame [frame_simps, simp]:
  "s_key (ses (snd (audit E op d c s))) = s_key (ses s)"
  "s_caps (ses (snd (audit E op d c s))) = s_caps (ses s)"
  "s_sink (ses (snd (audit E op d c s))) = s_sink (ses s)"
  "s_bootstrap (ses (snd (audit E op d c s))) = s_bootstrap (ses s)"
  "s_exec_policy (ses (snd (audit E op d c s))) = s_exec_policy (ses s)"
  "s_mailboxes (ses (snd (audit E op d c s))) = s_mailboxes (ses s)"
  "s_l5 (ses (snd (audit E op d c s))) = s_l5 (ses s)"
  "s_consent (ses (snd (audit E op d c s))) = s_consent (ses s)"
  "s_reduced (ses (snd (audit E op d c s))) = s_reduced (ses s)"
  "s_audit (ses (snd (audit E op d c s))) = s_audit (ses s) @ [next_event (s_audit (ses s)) op d c]"
  "ledger (snd (audit E op d c s)) = ledger s"
  "rng (snd (audit E op d c s)) = rng s"
  by (simp_all add: audit_def Let_def split: prod.split)

lemma audit_broken [frame_simps]:
  "s_audit_broken (ses (snd (audit E op d c s))) \<longleftrightarrow>
     s_audit_broken (ses s) \<or> \<not> fst (audit E op d c s)"
  by (simp add: audit_def Let_def split: prod.split)

lemma draw_Some:
  "draw E s = Some (h, s') \<longleftrightarrow> rand_hex E (rng s) 16 = Some h \<and> s' = s\<lparr>rng := Suc (rng s)\<rparr>"
  by (auto simp: draw_def)

section \<open>Attenuation\<close>

text \<open>A path at or below another: its components and then some, none of them \<open>..\<close>.\<close>

definition root_below :: "string \<Rightarrow> string \<Rightarrow> bool" where
  "root_below a b \<longleftrightarrow> (\<exists>ps. path_parts b = path_parts a @ ps \<and> ''..'' \<notin> set ps)"

lemma root_below_refl [simp]: "root_below a a"
  by (simp add: root_below_def)

lemma root_below_trans: "root_below a b \<Longrightarrow> root_below b c \<Longrightarrow> root_below a c"
  unfolding root_below_def
proof (elim exE conjE)
  fix ps qs assume "path_parts b = path_parts a @ ps" "path_parts c = path_parts b @ qs" "''..'' \<notin> set ps" "''..'' \<notin> set qs"
  then show "\<exists>ps. path_parts c = path_parts a @ ps \<and> ''..'' \<notin> set ps" by (intro exI [of _ "ps @ qs"]) simp
qed

lemma root_below_prefix: "root_below a b \<Longrightarrow> prefix (path_parts a) (path_parts b)"
  by (auto simp: root_below_def)

lemma safe_join_below: "safe_join a seg = Inr b \<Longrightarrow> root_below a b"
  using safe_join_parts unfolding root_below_def by blast

text \<open>A descriptor the kernel gave for a name below another descriptor.\<close>

definition opens_beneath :: "'w env \<Rightarrow> nat \<Rightarrow> nat \<Rightarrow> bool" where
  "opens_beneath E p q \<longleftrightarrow> (\<exists>seg w w'. derive_dir_at E p seg w = (Inr q, w'))"

text \<open>
  The three derivations. A subdirectory: the segment opened below the parent's descriptor and joined
  to its root, with the operations and the taint of the parent. A read-only child: kind, root,
  descriptor and taint of the parent, and the operations \<open>Read\<close> and \<open>List\<close> whatever the parent's are.
  A facet: the parent's mailbox, at least its subject prefix, and no right to receive.
\<close>

definition sub_of :: "'w env \<Rightarrow> cap \<Rightarrow> cap \<Rightarrow> bool" where
  "sub_of E a b \<longleftrightarrow> c_kind a = Dir \<and> c_kind b = Dir \<and> c_msg b = None
     \<and> (\<exists>seg p q w w'. c_dir_fd a = Some p \<and> derive_dir_at E p seg w = (Inr q, w') \<and> c_dir_fd b = Some q
          \<and> safe_join (c_root a) seg = Inr (c_root b))
     \<and> c_ops b = c_ops a \<and> c_taint b = c_taint a"

definition readonly_of :: "cap \<Rightarrow> cap \<Rightarrow> bool" where
  "readonly_of a b \<longleftrightarrow> c_kind b = c_kind a \<and> c_root b = c_root a \<and> c_dir_fd b = c_dir_fd a
     \<and> c_taint b = c_taint a \<and> c_ops b = [Read, List] \<and> c_msg b = None"

definition facet_of :: "cap \<Rightarrow> cap \<Rightarrow> bool" where
  "facet_of a b \<longleftrightarrow> c_kind b = Message \<and> c_ops b = [] \<and> c_dir_fd b = None
     \<and> (\<exists>n m. c_msg a = Some n \<and> c_msg b = Some m \<and> m_mailbox m = m_mailbox n
          \<and> prefix (m_prefix n) (m_prefix m) \<and> \<not> m_can_receive m)"

definition derived_from :: "'w env \<Rightarrow> cap \<Rightarrow> cap \<Rightarrow> bool" where
  "derived_from E a b \<longleftrightarrow> c_http b = None \<and> c_argv b = [] \<and> c_env b = [] \<and> c_name b = []
     \<and> (sub_of E a b \<or> readonly_of a b \<or> facet_of a b)"

lemma derived_plain: "derived_from E a b \<Longrightarrow> c_http b = None \<and> c_argv b = [] \<and> c_env b = [] \<and> c_name b = []"
  by (simp add: derived_from_def)

lemma derived_kind: "derived_from E a b \<Longrightarrow> c_kind b = c_kind a \<or> c_kind b = Message \<and> c_msg a \<noteq> None"
  by (auto simp: derived_from_def sub_of_def readonly_of_def facet_of_def)

lemma derived_dir:
  "derived_from E a b \<Longrightarrow> c_kind b = Dir \<Longrightarrow> c_kind a = Dir \<and> root_below (c_root a) (c_root b)"
  by (auto simp: derived_from_def sub_of_def readonly_of_def facet_of_def dest: safe_join_below)

lemma derived_fd:
  "derived_from E a b \<Longrightarrow> c_dir_fd b = Some q \<Longrightarrow>
     \<exists>p. c_dir_fd a = Some p \<and> (p = q \<or> opens_beneath E p q) \<and> c_taint b = c_taint a"
  unfolding derived_from_def sub_of_def readonly_of_def facet_of_def opens_beneath_def
  by (elim conjE disjE exE) auto

text \<open>A mailbox and prefix within those of a capability.\<close>

definition msg_within :: "cap \<Rightarrow> msg_spec \<Rightarrow> bool" where
  "msg_within a m \<longleftrightarrow> (\<exists>n. c_msg a = Some n \<and> m_mailbox m = m_mailbox n
     \<and> prefix (m_prefix n) (m_prefix m) \<and> (m_can_receive m \<longrightarrow> m_can_receive n))"

lemma msg_within_self: "c_msg a = Some m \<Longrightarrow> msg_within a m"
  by (simp add: msg_within_def)

lemma msg_within_has: "msg_within a m \<Longrightarrow> \<exists>n. c_msg a = Some n"
  by (auto simp: msg_within_def)

lemma derived_msg: "derived_from E a b \<Longrightarrow> c_msg b = Some m \<Longrightarrow> msg_within a m"
  by (auto simp: derived_from_def sub_of_def readonly_of_def facet_of_def msg_within_def)

lemma msg_within_trans:
  "msg_within b m \<Longrightarrow> (\<And>n. c_msg b = Some n \<Longrightarrow> msg_within a n) \<Longrightarrow> msg_within a m"
  unfolding msg_within_def by (elim exE conjE) (auto intro: prefix_order.trans)

section \<open>The payload of a kind\<close>

text \<open>
  What each kind of capability carries when it is minted, and what a derived one carries: a
  subdirectory its own descriptor, a facet its mailbox, and a read-only child of any kind only its
  parent's descriptor, if that has one, beside the operations \<open>Read\<close> and \<open>List\<close>.
\<close>

definition minted_shape :: "cap \<Rightarrow> bool" where
  "minted_shape c \<longleftrightarrow>
     (c_dir_fd c \<noteq> None \<longleftrightarrow> c_kind c = Dir \<or> c_kind c = Command)
     \<and> (c_http c \<noteq> None \<longleftrightarrow> c_kind c = Http) \<and> (c_msg c \<noteq> None \<longleftrightarrow> c_kind c = Message)
     \<and> (c_argv c \<noteq> [] \<longrightarrow> c_kind c = Command)
     \<and> c_env c = (if c_kind c = Command then [''PATH=/usr/bin:/bin:/usr/local/bin''] else [])
     \<and> (c_kind c \<noteq> Dir \<longrightarrow> c_ops c = (if c_kind c = Command then [Exec] else []))
     \<and> (c_name c \<noteq> [] \<longrightarrow> c_kind c = Sink \<or> c_kind c = Message \<or> c_kind c = Command)"

definition child_shape :: "cap \<Rightarrow> bool" where
  "child_shape c \<longleftrightarrow> c_http c = None \<and> c_argv c = [] \<and> c_env c = [] \<and> c_name c = []
     \<and> (c_kind c = Dir \<and> c_dir_fd c \<noteq> None \<and> c_msg c = None
        \<or> c_kind c = Message \<and> c_dir_fd c = None \<and> c_ops c = [] \<and> (\<exists>m. c_msg c = Some m \<and> \<not> m_can_receive m)
        \<or> c_ops c = [Read, List] \<and> c_msg c = None \<and> (c_dir_fd c \<noteq> None \<longleftrightarrow> c_kind c = Dir \<or> c_kind c = Command))"

definition cap_shape :: "cap \<Rightarrow> bool" where
  "cap_shape c \<longleftrightarrow> (if c_parent c = None then minted_shape c else child_shape c)"

lemma shape_fd: "cap_shape c \<Longrightarrow> c_dir_fd c \<noteq> None \<longleftrightarrow> c_kind c = Dir \<or> c_kind c = Command"
  by (auto simp: cap_shape_def minted_shape_def child_shape_def split: if_splits)

lemma shape_argv: "cap_shape c \<Longrightarrow> c_argv c \<noteq> [] \<Longrightarrow> c_kind c = Command \<and> c_dir_fd c \<noteq> None"
  by (auto simp: cap_shape_def minted_shape_def child_shape_def split: if_splits)

definition shapes :: "session \<Rightarrow> bool" where
  "shapes ss \<longleftrightarrow> (\<forall>r c. map_of (s_caps ss) r = Some c \<longrightarrow> cap_shape c)"

section \<open>Primitive changes\<close>

inductive prim :: "'w env \<Rightarrow> bool \<Rightarrow> 'w sys \<Rightarrow> 'w sys \<Rightarrow> bool" for E mint where
  p_audit: "prim E mint s (snd (audit E op d c s))"
| p_world: "prim E mint s (s\<lparr>world := w\<rparr>)"
| p_ask: "prim E mint s (s\<lparr>ledger := snd (request_or_check sig (s_key (ses s)) detail (ledger s))\<rparr>)"
| p_settle: "mint \<Longrightarrow> prim E mint s (s\<lparr>ledger := snd (settle st i (ledger s))\<rparr>)"
| p_mint: "mint \<Longrightarrow> draw E s = Some (h, s1) \<Longrightarrow> c_id c = cap_of_hex h \<Longrightarrow> \<not> c_revoked c \<Longrightarrow>
     c_parent c = None \<Longrightarrow> (c_kind c = Http \<longrightarrow> \<not> s_reduced (ses s)) \<Longrightarrow>
     (c_http c \<noteq> None \<longrightarrow> c_kind c = Http) \<Longrightarrow>
     (\<forall>m. c_msg c = Some m \<longrightarrow> map_of (s_mailboxes (ses s)) (m_mailbox m) = Some []) \<Longrightarrow>
     (shapes (ses s) \<longrightarrow> cap_shape c) \<Longrightarrow> prim E mint s (insert_cap c s1)"
| p_derive: "draw E s = Some (h, s1) \<Longrightarrow> c_id c = cap_of_hex h \<Longrightarrow> \<not> c_revoked c \<Longrightarrow>
     c_parent c = Some r \<Longrightarrow> map_of (s_caps (ses s)) r = Some pc \<Longrightarrow> is_active (s_caps (ses s)) r = Some True \<Longrightarrow>
     derived_from E pc c \<Longrightarrow> (shapes (ses s) \<longrightarrow> cap_shape c) \<Longrightarrow> prim E mint s (insert_cap c s1)"
| p_revoke: "prim E mint s (upd_ses (s_caps_update (revoke_entry r)) s)"
| p_mailbox: "mint \<Longrightarrow> draw E s = Some (h, s1) \<Longrightarrow>
     prim E mint s (upd_ses (s_mailboxes_update (AList.update (mbox_of_hex h) [])) s1)"
| p_post: "is_active (s_caps (ses s)) r = Some True \<Longrightarrow> map_of (s_caps (ses s)) r = Some c \<Longrightarrow>
     c_msg c = Some m \<Longrightarrow> map_of (s_mailboxes (ses s)) (m_mailbox m) = Some box \<Longrightarrow>
     p_taint msg \<noteq> Secret \<Longrightarrow> prefix (m_prefix m) (p_subject msg) \<Longrightarrow> p_from msg = s_key (ses s) \<Longrightarrow>
     prim E mint s (upd_ses (s_mailboxes_update (AList.update (m_mailbox m) (box @ [msg]))) s)"
| p_bootstrap: "b = None \<or> mint \<Longrightarrow> prim E mint s (upd_ses (s_bootstrap_update (\<lambda>_. b)) s)"

abbreviation evolves :: "'w env \<Rightarrow> bool \<Rightarrow> 'w sys \<Rightarrow> 'w sys \<Rightarrow> bool" where
  "evolves E mint \<equiv> (prim E mint)\<^sup>*\<^sup>*"

lemma evolves_refl [intro, simp]: "evolves E mint s s"
  by simp

lemma evolves_audit: "evolves E mint s s' \<Longrightarrow> evolves E mint s (snd (audit E op d c s'))"
  by (meson p_audit rtranclp.rtrancl_into_rtrancl)

lemma evolves_audit_pair: "evolves E mint s s' \<Longrightarrow> audit E op d c s' = (ok, s2) \<Longrightarrow> evolves E mint s s2"
  by (metis evolves_audit snd_conv)

lemma evolves_pair_audit: "evolves E mint s s' \<Longrightarrow> (ok, s2) = audit E op d c s' \<Longrightarrow> evolves E mint s s2"
  by (rule evolves_audit_pair [OF _ sym])

lemma evolves_world: "evolves E mint s (s\<lparr>world := w\<rparr>)"
  by (rule r_into_rtranclp, rule p_world)

lemma evolves_step: "evolves E mint s s' \<Longrightarrow> prim E mint s' s'' \<Longrightarrow> evolves E mint s s''"
  by (rule rtranclp.rtrancl_into_rtrancl)

lemma prim_mono: "prim E False s s' \<Longrightarrow> prim E mint s s'"
  by (induction rule: prim.induct) (auto intro: prim.intros)

lemma evolves_mono: "evolves E False s s' \<Longrightarrow> evolves E mint s s'"
  by (induction rule: rtranclp_induct) (auto intro: evolves_step prim_mono)

section \<open>The form of an effect\<close>

text \<open>
  The four operations with an effect outside have one form: the gate, the intent on record, the
  effect, the result on record. What holds of the form is proved once.
\<close>

definition gated :: "'w env \<Rightarrow> string \<Rightarrow> string \<Rightarrow> string \<Rightarrow> string \<Rightarrow> string \<Rightarrow> string \<Rightarrow> string \<Rightarrow> error
    \<Rightarrow> ('w sys \<Rightarrow> ((error + 'a) \<times> 'w sys) option) \<Rightarrow> 'w sys \<Rightarrow> ((error + 'a) \<times> 'w sys) option" where
  "gated E verb sig hint detail iop rop d err effect s =
     (case gate E verb sig hint detail s of
        (Inl e, s1) \<Rightarrow> Some (Inl e, s1)
      | (Inr _, s1) \<Rightarrow>
          (case audit E iop d ''attempt'' s1 of
             (ok, s2) \<Rightarrow>
               if \<not> ok then Some (Inl err, s2)
               else do {
                 (res, s3) \<leftarrow> effect s2;
                 Some (res, snd (audit E rop d (decision_text E res) s3))
               }))"

definition post_detail :: "string \<Rightarrow> string \<Rightarrow> string \<Rightarrow> string" where
  "post_detail sr subject body_hash =
     (U [0x6295, 0x9012] @ '' '') @ sr @ '' subj='' @ safe_display subject @ '' body#''
       @ take 12 body_hash"

lemma post_gated:
  "post E r subject body s = do {
     sr \<leftarrow> short r;
     gated E ''post'' (action_sig [''post'', r, subject, sha256_hex (as_bytes body)])
       (approval_hint ''post'' ''MessageCap'' sr) (post_detail sr subject (sha256_hex (as_bytes body)))
       ''post.intent'' ''post.result'' (sr @ '' subj='' @ subject @ '' src=literal'') PostIntentFailed
       (post_literal_owner_only r subject body) s
   }"
  by (simp only: post_def gated_def post_detail_def Let_def case_prod_beta append_assoc)

definition post_from_detail :: "string \<Rightarrow> string \<Rightarrow> string \<Rightarrow> string \<Rightarrow> string" where
  "post_from_detail sr subject ssrc rel =
     (U [0x8F6C, 0x53D1, 0x6295, 0x9012] @ '' '') @ sr @ '' subj='' @ safe_display subject
       @ '' <- ''
       @ ssrc @ '' '' @ safe_display rel"

definition forward_read ::
    "'w env \<Rightarrow> string \<Rightarrow> string \<Rightarrow> string \<Rightarrow> string \<Rightarrow> 'w sys \<Rightarrow> ((error + unit) \<times> 'w sys) option" where
  "forward_read E r subject src rel s = do {
     (rd, s3) \<leftarrow> read_i E src rel s;
     (case rd of
        Inl e \<Rightarrow> Some (Inl e, s3)
      | Inr (tnt, bytes) \<Rightarrow> post_bytes r subject tnt (from_utf8_lossy bytes) s3)
   }"

lemma post_from_gated:
  "post_from E r subject src rel s = do {
     sr \<leftarrow> short r;
     ssrc \<leftarrow> short src;
     gated E ''post_from'' (action_sig [''post_from'', r, subject, src, rel])
       (approval_hint ''post_from'' ''MessageCap'' sr) (post_from_detail sr subject ssrc rel)
       ''post.intent'' ''post.result'' (sr @ '' subj='' @ subject @ '' src='' @ ssrc @ '' '' @ rel)
       PostIntentFailed (forward_read E r subject src rel) s
   }"
  by (simp only: post_from_def gated_def post_from_detail_def forward_read_def Let_def case_prod_unfold
      append_assoc Option.bind_assoc)

lemma http_get_gated:
  "http_get E r path s = do {
     sr \<leftarrow> short r;
     gated E ''http_get'' (action_sig [''http_get'', r, path])
       (approval_hint ''http_get'' ''HttpCap'' sr) (''HTTP GET '' @ sr @ '' path='' @ safe_display path)
       ''http.intent'' ''http.result'' (sr @ '' GET '' @ path) HttpIntentFailed (http_get_i E r path) s
   }"
  by (simp only: http_get_def gated_def Let_def case_prod_beta sum.case_eq_if)

lemma exec_gated:
  "exec E r s = do {
     sr \<leftarrow> short r;
     gated E ''exec'' (action_sig [''exec'', r]) (approval_hint ''exec'' ''CommandCap'' sr)
       (exec_detail (ses s) r sr) ''exec.intent'' ''exec.result'' sr ExecIntentFailed (exec_i E r) s
   }"
  by (simp only: exec_def gated_def Let_def case_prod_beta sum.case_eq_if)

section \<open>Every operation is a sequence of primitive changes\<close>

text \<open>
  Verification conditions. \<open>keeps\<close> says what holds of the state an operation leaves, when it
  returns; the rules follow the forms of the code.
\<close>

definition keeps :: "('s \<Rightarrow> bool) \<Rightarrow> ('r \<times> 's) option \<Rightarrow> bool" where
  "keeps P m \<longleftrightarrow> (\<forall>r s'. m = Some (r, s') \<longrightarrow> P s')"

lemma keepsD: "keeps P m \<Longrightarrow> m = Some (r, s') \<Longrightarrow> P s'"
  by (simp add: keeps_def)

lemma keeps_None: "keeps P None"
  by (simp add: keeps_def)

lemma keeps_Some: "P (snd p) \<Longrightarrow> keeps P (Some p)"
  by (cases p) (simp add: keeps_def)

lemma keeps_bind: "(\<And>v. m = Some v \<Longrightarrow> keeps P (f v)) \<Longrightarrow> keeps P (Option.bind m f)"
  by (auto simp: keeps_def bind_eq_Some_conv)

lemma keeps_map: "keeps P m \<Longrightarrow> keeps P (map_option (\<lambda>(i, s'). (g i, s')) m)"
  by (auto simp: keeps_def)

lemma keeps_sum:
  "(\<And>e. x = Inl e \<Longrightarrow> keeps P (A e)) \<Longrightarrow> (\<And>v. x = Inr v \<Longrightarrow> keeps P (B v)) \<Longrightarrow>
     keeps P (case x of Inl e \<Rightarrow> A e | Inr v \<Rightarrow> B v)"
  by (cases x) auto

lemma keeps_option:
  "(x = None \<Longrightarrow> keeps P A) \<Longrightarrow> (\<And>v. x = Some v \<Longrightarrow> keeps P (B v)) \<Longrightarrow>
     keeps P (case x of None \<Rightarrow> A | Some v \<Rightarrow> B v)"
  by (cases x) auto

lemma keeps_prod: "(\<And>a b. p = (a, b) \<Longrightarrow> keeps P (f a b)) \<Longrightarrow> keeps P (case p of (a, b) \<Rightarrow> f a b)"
  by (cases p) auto

lemma keeps_if: "(b \<Longrightarrow> keeps P m) \<Longrightarrow> (\<not> b \<Longrightarrow> keeps P n) \<Longrightarrow> keeps P (if b then m else n)"
  by simp

lemma keeps_let: "(\<And>x. x = v \<Longrightarrow> keeps P (f x)) \<Longrightarrow> keeps P (Let v f)"
  by simp

lemmas vc = keeps_None keeps_Some keeps_bind keeps_map keeps_sum keeps_option keeps_prod keeps_if keeps_let

lemma get_active_Inr:
  "get_active ss r = Some (Inr c) \<longleftrightarrow>
     \<not> s_audit_broken ss \<and> is_active (s_caps ss) r = Some True \<and> map_of (s_caps ss) r = Some c"
  by (auto simp: get_active_def bind_eq_Some_conv split: if_splits option.splits)

lemma get_msg_Inr:
  "get_msg ss r = Some (Inr m) \<longleftrightarrow>
     (\<exists>c. get_active ss r = Some (Inr c) \<and> c_msg c = Some m)"
proof (cases "get_active ss r")
  case (Some g)
  then show ?thesis
    by (cases g) (auto simp: get_msg_def bind_eq_Some_conv split: option.splits)
qed (simp add: get_msg_def)

lemma evolves_mint:
  "evolves E True s0 s \<Longrightarrow> draw E s = Some (h, s1) \<Longrightarrow> c_id c = cap_of_hex h \<Longrightarrow> \<not> c_revoked c \<Longrightarrow>
     c_parent c = None \<Longrightarrow> (c_kind c = Http \<Longrightarrow> \<not> s_reduced (ses s)) \<Longrightarrow>
     (c_http c \<noteq> None \<Longrightarrow> c_kind c = Http) \<Longrightarrow>
     (\<And>m. c_msg c = Some m \<Longrightarrow> map_of (s_mailboxes (ses s)) (m_mailbox m) = Some []) \<Longrightarrow>
     (shapes (ses s) \<Longrightarrow> cap_shape c) \<Longrightarrow> evolves E True s0 (insert_cap c s1)"
  by (rule evolves_step, assumption, rule p_mint) auto

lemma evolves_derive:
  "evolves E mint s0 s \<Longrightarrow> draw E s = Some (h, s1) \<Longrightarrow> c_id c = cap_of_hex h \<Longrightarrow> \<not> c_revoked c \<Longrightarrow>
     c_parent c = Some r \<Longrightarrow> get_active (ses s) r = Some (Inr pc) \<Longrightarrow> derived_from E pc c \<Longrightarrow>
     (shapes (ses s) \<Longrightarrow> cap_shape c) \<Longrightarrow> evolves E mint s0 (insert_cap c s1)"
  by (rule evolves_step, assumption, rule p_derive) (auto simp: get_active_Inr)

lemma evolves_world_after: "evolves E mint s0 s \<Longrightarrow> evolves E mint s0 (s\<lparr>world := w\<rparr>)"
  by (rule evolves_step, assumption, rule p_world)

lemma blank_cap_sel [simp]:
  "c_id (blank_cap i k) = i" "c_kind (blank_cap i k) = k" "\<not> c_revoked (blank_cap i k)"
  "c_parent (blank_cap i k) = None" "c_msg (blank_cap i k) = None" "c_http (blank_cap i k) = None"
  "c_argv (blank_cap i k) = []" "c_ops (blank_cap i k) = []" "c_env (blank_cap i k) = []"
  "c_dir_fd (blank_cap i k) = None" "c_name (blank_cap i k) = []"
  by (simp_all add: blank_cap_def)

lemma derived_sub:
  "c_kind c = Dir \<Longrightarrow> c_dir_fd c = Some p \<Longrightarrow> derive_dir_at E p seg w = (Inr q, w') \<Longrightarrow>
     safe_join (c_root c) seg = Inr root \<Longrightarrow>
     derived_from E c ((blank_cap i Dir)\<lparr>c_root := root, c_ops := c_ops c, c_taint := c_taint c,
       c_dir_fd := Some q, c_parent := Some r\<rparr>)"
  by (auto simp: derived_from_def sub_of_def)

lemma shapes_active: "get_active ss r = Some (Inr c) \<Longrightarrow> shapes ss \<Longrightarrow> cap_shape c"
  by (auto simp: get_active_Inr shapes_def)

lemma readonly_shape:
  "get_active ss r = Some (Inr c) \<Longrightarrow> shapes ss \<Longrightarrow>
     cap_shape ((blank_cap i (c_kind c))\<lparr>c_root := x, c_ops := [Read, List], c_taint := t, c_dir_fd := c_dir_fd c, c_parent := Some p\<rparr>)"
  using shape_fd [OF shapes_active [of ss r c]] by (simp add: cap_shape_def child_shape_def)

lemma command_shape:
  "get_active ss r = Some (Inr c) \<Longrightarrow> shapes ss \<Longrightarrow> c_kind c = Dir \<Longrightarrow> c_dir_fd c \<noteq> None"
  using shape_fd [OF shapes_active [of ss r c]] by simp

lemma grant_dir_evolves: "keeps (evolves E True s) (grant_dir E root ops tnt s)"
  unfolding grant_dir_def
  by (intro vc) (auto intro!: evolves_audit evolves_mint evolves_world simp: cap_shape_def minted_shape_def)

lemma grant_sink_evolves: "keeps (evolves E True s) (grant_sink E name s)"
  unfolding grant_sink_def
  by (intro vc) (auto intro!: evolves_audit evolves_mint simp: cap_shape_def minted_shape_def)

lemma grant_command_evolves: "keeps (evolves E True s) (grant_command E cwd argv s)"
  unfolding grant_command_def
  by (intro vc) (auto intro!: evolves_audit evolves_mint dest: command_shape simp: cap_shape_def minted_shape_def)

lemma grant_http_evolves: "keeps (evolves E True s) (grant_http E scheme host port ms ps n s)"
  unfolding grant_http_def
  by (intro vc) (auto intro!: evolves_audit evolves_mint simp: cap_shape_def minted_shape_def)

lemma evolves_mailbox:
  "draw E s = Some (h, s1) \<Longrightarrow>
     evolves E True s (upd_ses (s_mailboxes_update (AList.update (mbox_of_hex h) [])) s1)"
  by (rule r_into_rtranclp, rule p_mailbox) simp_all

lemma grant_message_evolves: "keeps (evolves E True s) (grant_message E recipient s)"
  unfolding grant_message_def
  by (intro vc) (auto intro!: evolves_audit evolves_mint [OF evolves_mailbox] simp: cap_shape_def minted_shape_def)

lemma take_bootstrap_evolves: "evolves E mint s (snd (take_bootstrap s))"
  by (auto simp: take_bootstrap_def split: option.splits intro: r_into_rtranclp p_bootstrap)

lemma derive_sub_evolves: "keeps (evolves E mint s) (derive_sub E r seg s)"
  unfolding derive_sub_def
  by (intro vc) (auto intro!: evolves_audit evolves_world evolves_derive [OF evolves_world]
      derived_sub simp: cap_shape_def child_shape_def)

lemma derive_readonly_evolves: "keeps (evolves E mint s) (derive_readonly E r s)"
  unfolding derive_readonly_def
  by (intro vc) (auto intro!: evolves_audit evolves_derive [OF evolves_refl] readonly_shape
      simp: derived_from_def readonly_of_def)

lemma read_i_evolves: "keeps (evolves E mint s) (read_i E r rel s)"
  unfolding read_i_def by (intro vc) (auto intro!: evolves_world)

lemma list_i_evolves: "keeps (evolves E mint s) (list_i E r rel s)"
  unfolding list_i_def by (intro vc) (auto intro!: evolves_world split: sum.split)

lemma read_evolves: "keeps (evolves E mint s) (read E r rel s)"
  unfolding read_def
  by (intro vc) (auto intro: evolves_pair_audit keepsD [OF read_i_evolves])

lemma list_op_evolves: "keeps (evolves E mint s) (list_op E r rel s)"
  unfolding list_op_def
  by (intro vc) (auto intro: evolves_pair_audit keepsD [OF list_i_evolves])

lemma msg_facet_evolves:
  assumes g: "get_msg (ses s) r = Some (Inr m)"
  shows "keeps (evolves E mint s) (insert_msg_facet E r (m_mailbox m) (m_prefix m @ add) one s)"
proof -
  obtain c where c: "get_active (ses s) r = Some (Inr c)" "c_msg c = Some m"
    using g by (auto simp: get_msg_Inr)
  show ?thesis
    unfolding insert_msg_facet_def
    by (intro vc) (auto intro!: evolves_audit evolves_derive [OF evolves_refl _ _ _ _ c(1)]
        simp: derived_from_def facet_of_def cap_shape_def child_shape_def c)
qed

lemma derive_msg_prefix_evolves: "keeps (evolves E mint s) (derive_msg_prefix E r add s)"
  unfolding derive_msg_prefix_def by (intro vc) (auto intro: msg_facet_evolves)

lemma derive_msg_oneshot_evolves: "keeps (evolves E mint s) (derive_msg_oneshot E r s)"
  unfolding derive_msg_oneshot_def
  by (intro vc) (auto intro: msg_facet_evolves [where add = "[]", simplified])

lemma evolves_ask_audit:
  "evolves E mint s (snd (audit E op d dec
     (s\<lparr>ledger := snd (request_or_check sig (s_key (ses s)) detail (ledger s))\<rparr>)))"
  by (intro evolves_audit r_into_rtranclp p_ask)

lemma gate_evolves: "evolves E mint s (snd (gate E verb sig hint detail s))"
proof -
  have "evolves E mint s (snd (audit E op d dec (s\<lparr>ledger := l\<rparr>)))"
    if "request_or_check sig (s_key (ses s)) detail (ledger s) = (out, l)" for op d dec out l
    using evolves_ask_audit [of E mint s op d dec sig detail] that by simp
  then show ?thesis
    by (auto simp: gate_def intro: evolves_audit split: decision.splits consent_outcome.splits prod.splits)
qed

lemma gate_evolves_pair: "(res, s1) = gate E verb sig hint detail s \<Longrightarrow> evolves E mint s s1"
  using gate_evolves [of E mint s verb sig hint detail] by (metis snd_conv)

lemma consent_settle_evolves: "evolves E True s (snd (consent_settle E op (settle st i) j s))"
proof -
  have "evolves E True s (s\<lparr>ledger := l\<rparr>)" if "settle st i (ledger s) = (r, l)" for r l
    using p_settle [of True E s st i] that by (auto intro: r_into_rtranclp)
  then show ?thesis
    by (auto simp: consent_settle_def intro!: evolves_audit split: if_splits prod.splits)
qed

lemma evolves_post:
  "get_msg (ses s) r = Some (Inr m) \<Longrightarrow> \<not> is_sensitive tnt \<Longrightarrow> prefix (m_prefix m) subject \<Longrightarrow>
     map_of (s_mailboxes (ses s)) (m_mailbox m) = Some box \<Longrightarrow>
     evolves E mint s (upd_ses (s_mailboxes_update (AList.update (m_mailbox m) (box @ [
       \<lparr>p_subject = subject, p_body = body, p_taint = tnt, p_from = s_key (ses s)\<rparr>]))) s)"
  by (auto simp: get_msg_Inr get_active_Inr is_sensitive_def intro!: r_into_rtranclp p_post)

lemma evolves_revoke:
  "evolves E mint s s1 \<Longrightarrow> evolves E mint s (upd_ses (s_caps_update (revoke_entry r)) s1)"
  by (rule evolves_step [OF _ p_revoke])

lemma evolves_post_revoke:
  "get_msg (ses s) r = Some (Inr m) \<Longrightarrow> \<not> is_sensitive tnt \<Longrightarrow> prefix (m_prefix m) subject \<Longrightarrow>
     map_of (s_mailboxes (ses s)) (m_mailbox m) = Some box \<Longrightarrow>
     evolves E mint s (s\<lparr>ses := s_caps_update (revoke_entry r)
       (s_mailboxes_update (AList.update (m_mailbox m) (box @ [
         \<lparr>p_subject = subject, p_body = body, p_taint = tnt, p_from = s_key (ses s)\<rparr>])) (ses s))\<rparr>)"
  using evolves_revoke [OF evolves_post [of s r m tnt subject box E mint body], of r] by simp

lemma post_bytes_evolves: "keeps (evolves E mint s) (post_bytes r subject tnt body s)"
  unfolding post_bytes_def
  by (intro vc) (auto simp: Let_def intro!: evolves_post evolves_post_revoke)

lemma post_literal_evolves: "keeps (evolves E mint s) (post_literal_owner_only r subject body s)"
  unfolding post_literal_owner_only_def
  by (intro vc) (auto intro: post_bytes_evolves)

lemma evolves_trans: "evolves E mint s s' \<Longrightarrow> evolves E mint s' s'' \<Longrightarrow> evolves E mint s s''"
  by (rule rtranclp_trans)

lemma keeps_evolves_trans:
  "evolves E mint s s' \<Longrightarrow> keeps (evolves E mint s') m \<Longrightarrow> keeps (evolves E mint s) m"
  by (auto simp: keeps_def intro: evolves_trans)

lemma forward_read_evolves: "keeps (evolves E mint s) (forward_read E r subject src rel s)"
  unfolding forward_read_def
  by (intro vc)
    (auto intro: keepsD [OF read_i_evolves] keeps_evolves_trans keepsD [OF read_i_evolves] post_bytes_evolves)

lemma gated_evolves:
  assumes "\<And>t. keeps (evolves E mint t) (effect t)"
  shows "keeps (evolves E mint s) (gated E verb sig hint detail iop rop d err effect s)"
proof -
  have run: "evolves E mint s (snd (audit E rop d dec s3))"
    if "evolves E mint s s2" "effect s2 = Some (res, s3)" for s2 s3 res dec
    using that keepsD [OF assms that(2)] by (intro evolves_audit) (rule evolves_trans)
  note pairs = evolves_pair_audit evolves_audit_pair gate_evolves_pair [OF sym]
  show ?thesis
    unfolding gated_def by (intro vc) (auto intro: pairs run)
qed

lemma post_evolves: "keeps (evolves E mint s) (post E r subject body s)"
  unfolding post_gated by (intro keeps_bind gated_evolves post_literal_evolves)

lemma post_from_evolves: "keeps (evolves E mint s) (post_from E r subject src rel s)"
  unfolding post_from_gated by (intro keeps_bind gated_evolves forward_read_evolves)

lemma mailbox_read_evolves: "keeps (evolves E mint s) (mailbox_read E r s)"
  unfolding mailbox_read_def
  by (intro vc) (auto intro: evolves_pair_audit)

lemma http_get_i_evolves: "keeps (evolves E mint s) (http_get_i E r path s)"
  unfolding http_get_i_def
  by (intro vc) (auto intro: evolves_world)

lemma http_get_evolves: "keeps (evolves E mint s) (http_get E r path s)"
  unfolding http_get_gated by (intro keeps_bind gated_evolves http_get_i_evolves)

lemma exec_i_evolves: "keeps (evolves E mint s) (exec_i E r s)"
  unfolding exec_i_def
  by (intro vc) (auto intro: evolves_world)

lemma exec_evolves: "keeps (evolves E mint s) (exec E r s)"
  unfolding exec_gated by (intro keeps_bind gated_evolves exec_i_evolves)

lemma send_evolves: "keeps (evolves E mint s) (send E r tnt s)"
  unfolding send_def
  by (intro vc) (auto intro!: evolves_audit intro: evolves_pair_audit)

lemma revoke_evolves: "keeps (evolves E mint s) (revoke E r s)"
  unfolding revoke_def
  by (intro vc) (auto intro!: evolves_audit evolves_revoke)

end
