(* ===== verification/Session_Inv.thy ===== *)
theory Session_Inv
  imports Chain Steps
begin

text \<open>
  What every session keeps: a table of capabilities without cycles and dangling parents, names
  that come from the entropy source, mailboxes that exist and hold nothing secret, an audit chain
  that verifies and only grows. Each is proved of the primitive changes, and so of every sequence
  of operations. The entropy source is only asked not to repeat a draw.
\<close>

section \<open>Draws\<close>

definition draws_distinct :: "'w env \<Rightarrow> nat \<Rightarrow> bool" where
  "draws_distinct E n \<longleftrightarrow>
     (\<forall>i < n. \<forall>j < n. rand_hex E i 16 \<noteq> None \<longrightarrow> rand_hex E i 16 = rand_hex E j 16 \<longrightarrow> i = j)"

definition drawn :: "'w env \<Rightarrow> nat \<Rightarrow> string \<Rightarrow> bool" where
  "drawn E n h \<longleftrightarrow> (\<exists>i < n. rand_hex E i 16 = Some h)"

lemma draws_distinct_le: "draws_distinct E n \<Longrightarrow> m \<le> n \<Longrightarrow> draws_distinct E m"
  by (auto simp: draws_distinct_def)

lemma drawn_le: "drawn E m h \<Longrightarrow> m \<le> n \<Longrightarrow> drawn E n h"
  by (auto simp: drawn_def intro: less_le_trans)

lemma draw_fresh: "draws_distinct E (Suc n) \<Longrightarrow> rand_hex E n 16 = Some h \<Longrightarrow> \<not> drawn E n h"
  unfolding draws_distinct_def drawn_def by (metis less_Suc_eq less_irrefl option.distinct(1))

lemma draw_drawn: "rand_hex E n 16 = Some h \<Longrightarrow> drawn E (Suc n) h"
  by (auto simp: drawn_def)

lemma id_inject [simp]:
  "cap_of_hex h = cap_of_hex h' \<longleftrightarrow> h = h'" "mbox_of_hex h = mbox_of_hex h' \<longleftrightarrow> h = h'"
  by (simp_all add: cap_of_hex_def mbox_of_hex_def)

lemma prim_rng: "prim E mint s s' \<Longrightarrow> rng s \<le> rng s'"
  by (induction rule: prim.induct) (auto simp: draw_Some insert_cap_def)

lemma evolves_rng: "evolves E mint s s' \<Longrightarrow> rng s \<le> rng s'"
  by (induction rule: rtranclp_induct) (auto dest: prim_rng)

section \<open>The table\<close>

definition caps_drawn :: "'w env \<Rightarrow> 'w sys \<Rightarrow> bool" where
  "caps_drawn E s \<longleftrightarrow>
     (\<forall>r. map_of (s_caps (ses s)) r \<noteq> None \<longrightarrow> (\<exists>h. drawn E (rng s) h \<and> r = cap_of_hex h))"

definition table_inv :: "'w env \<Rightarrow> 'w sys \<Rightarrow> bool" where
  "table_inv E s \<longleftrightarrow> caps_ok (s_caps (ses s)) \<and> caps_drawn E s"

lemma insert_cap_sel [frame_simps, simp]:
  "s_caps (ses (insert_cap c s)) = AList.update (c_id c) c (s_caps (ses s))"
  "s_key (ses (insert_cap c s)) = s_key (ses s)"
  "s_audit (ses (insert_cap c s)) = s_audit (ses s)"
  "s_mailboxes (ses (insert_cap c s)) = s_mailboxes (ses s)"
  "s_reduced (ses (insert_cap c s)) = s_reduced (ses s)"
  "s_audit_broken (ses (insert_cap c s)) = s_audit_broken (ses s)"
  "s_l5 (ses (insert_cap c s)) = s_l5 (ses s)"
  "s_consent (ses (insert_cap c s)) = s_consent (ses s)"
  "ledger (insert_cap c s) = ledger s"
  "rng (insert_cap c s) = rng s"
  by (simp_all add: insert_cap_def)

lemma draw_id_unused:
  assumes "table_inv E s" "draw E s = Some (h, s1)" "draws_distinct E (rng s1)"
  shows "map_of (s_caps (ses s)) (cap_of_hex h) = None"
proof (rule ccontr)
  assume "map_of (s_caps (ses s)) (cap_of_hex h) \<noteq> None"
  then have "drawn E (rng s) h" using assms(1) by (auto simp: table_inv_def caps_drawn_def)
  then show False using assms(2,3) draw_fresh by (auto simp: draw_Some)
qed

lemma insert_table_inv:
  assumes inv: "table_inv E s" and d: "draw E s = Some (h, s1)" "draws_distinct E (rng s1)"
    and c: "c_id c = cap_of_hex h" "\<not> c_revoked c"
      "\<And>p. c_parent c = Some p \<Longrightarrow> map_of (s_caps (ses s)) p \<noteq> None"
  shows "table_inv E (insert_cap c s1)"
proof -
  have s1: "ses s1 = ses s" "rng s1 = Suc (rng s)" using d by (auto simp: draw_Some)
  have "addable (s_caps (ses s)) c"
    unfolding addable_def c(1) using draw_id_unused [OF inv d] c(2,3) by blast
  then have "caps_ok (s_caps (ses (insert_cap c s1)))"
    using inv add_cap_ok by (simp add: table_inv_def s1)
  moreover have "caps_drawn E (insert_cap c s1)"
    unfolding caps_drawn_def
  proof (intro allI impI)
    fix r assume "map_of (s_caps (ses (insert_cap c s1))) r \<noteq> None"
    then consider "r = cap_of_hex h" | "map_of (s_caps (ses s)) r \<noteq> None"
      using c(1) by (auto simp: s1 split: if_splits)
    then show "\<exists>h. drawn E (rng (insert_cap c s1)) h \<and> r = cap_of_hex h"
    proof cases
      case 1
      have "rand_hex E (rng s) 16 = Some h" using d(1) by (simp add: draw_Some)
      then show ?thesis using 1 draw_drawn by (auto simp: s1)
    next
      case 2
      then obtain h' where "drawn E (rng s) h'" "r = cap_of_hex h'"
        using inv by (auto simp: table_inv_def caps_drawn_def)
      then show ?thesis using drawn_le [of E "rng s" h' "Suc (rng s)"] by (auto simp: s1)
    qed
  qed
  ultimately show ?thesis by (simp add: table_inv_def)
qed

lemma table_inv_cong:
  "s_caps (ses s') = s_caps (ses s) \<Longrightarrow> rng s \<le> rng s' \<Longrightarrow> table_inv E s \<Longrightarrow> table_inv E s'"
  by (auto simp: table_inv_def caps_drawn_def dest: drawn_le)

lemma prim_table_inv:
  "prim E mint s s' \<Longrightarrow> table_inv E s \<Longrightarrow> draws_distinct E (rng s') \<Longrightarrow> table_inv E s'"
proof (induction rule: prim.induct)
  case (p_mint s h s1 c)
  then show ?case by (intro insert_table_inv) auto
next
  case (p_derive s h s1 c r pc)
  then show ?case by (intro insert_table_inv) auto
next
  case (p_revoke s r)
  then have "caps_ok (revoke_entry r (s_caps (ses s)))"
    by (simp add: table_inv_def revoke_entry_ok)
  moreover have "map_of (revoke_entry r (s_caps (ses s))) x \<noteq> None \<longleftrightarrow> map_of (s_caps (ses s)) x \<noteq> None" for x
    by (auto simp: map_of_revoke_entry split: option.splits)
  ultimately show ?case using p_revoke by (simp add: table_inv_def caps_drawn_def)
next
  case (p_mailbox s h s1)
  then show ?case by (elim table_inv_cong [rotated 2]) (auto simp: draw_Some)
qed (auto elim!: table_inv_cong [rotated 2])

lemma evolves_table_inv:
  "evolves E mint s s' \<Longrightarrow> table_inv E s \<Longrightarrow> draws_distinct E (rng s') \<Longrightarrow> table_inv E s'"
proof (induction rule: rtranclp_induct)
  case (step s1 s2)
  then show ?case using prim_table_inv draws_distinct_le prim_rng by blast
qed simp

section \<open>Lineage\<close>

text \<open>A capability is never forgotten, and only its revocation flag ever changes, in one direction.\<close>

definition same_cap :: "cap \<Rightarrow> cap \<Rightarrow> bool" where
  "same_cap c d \<longleftrightarrow> d = c\<lparr>c_revoked := c_revoked d\<rparr> \<and> (c_revoked c \<longrightarrow> c_revoked d)"

lemma same_cap_refl [simp]: "same_cap c c"
  by (simp add: same_cap_def)

lemma same_cap_revoke [simp]: "same_cap c (c\<lparr>c_revoked := True\<rparr>)"
  by (simp add: same_cap_def)

lemma same_cap_trans: "same_cap a b \<Longrightarrow> same_cap b c \<Longrightarrow> same_cap a c"
  by (cases a; cases b; cases c) (auto simp: same_cap_def)

lemma same_cap_fields:
  assumes "same_cap c d"
  shows "c_id d = c_id c" "c_kind d = c_kind c" "c_root d = c_root c" "c_ops d = c_ops c"
    "c_msg d = c_msg c" "c_parent d = c_parent c" "c_http d = c_http c" "c_argv d = c_argv c"
    "c_dir_fd d = c_dir_fd c" "c_taint d = c_taint c" "c_env d = c_env c" "c_name d = c_name c"
proof -
  have d: "d = c\<lparr>c_revoked := c_revoked d\<rparr>" using assms by (simp add: same_cap_def)
  show "c_id d = c_id c" by (subst d) simp
  show "c_kind d = c_kind c" by (subst d) simp
  show "c_root d = c_root c" by (subst d) simp
  show "c_ops d = c_ops c" by (subst d) simp
  show "c_msg d = c_msg c" by (subst d) simp
  show "c_parent d = c_parent c" by (subst d) simp
  show "c_http d = c_http c" by (subst d) simp
  show "c_argv d = c_argv c" by (subst d) simp
  show "c_dir_fd d = c_dir_fd c" by (subst d) simp
  show "c_taint d = c_taint c" by (subst d) simp
  show "c_env d = c_env c" by (subst d) simp
  show "c_name d = c_name c" by (subst d) simp
qed

lemma same_cap_live: "same_cap c d \<Longrightarrow> \<not> c_revoked d \<Longrightarrow> \<not> c_revoked c"
  unfolding same_cap_def by blast

abbreviation cap_at :: "'w sys \<Rightarrow> string \<Rightarrow> cap option" where
  "cap_at s \<equiv> map_of (s_caps (ses s))"

definition grows :: "(string \<rightharpoonup> cap) \<Rightarrow> (string \<rightharpoonup> cap) \<Rightarrow> bool" where
  "grows m n \<longleftrightarrow> (\<forall>r c. m r = Some c \<longrightarrow> (\<exists>d. n r = Some d \<and> same_cap c d))"

lemma grows_refl [simp]: "grows m m"
  by (auto simp: grows_def)

lemma grows_trans: "grows m n \<Longrightarrow> grows n k \<Longrightarrow> grows m k"
  unfolding grows_def by (meson same_cap_trans)

lemma grows_revoke: "grows (map_of cs) (map_of (revoke_entry r cs))"
  unfolding grows_def map_of_revoke_entry
  by (cases "map_of cs r") (auto simp del: map_of_eq_Some_iff)

lemma draw_caps: "draw E s = Some (h, s1) \<Longrightarrow> ses s1 = ses s"
  by (auto simp: draw_Some)

lemma insert_at: "draw E s = Some (h, s1) \<Longrightarrow> cap_at (insert_cap c s1) = (cap_at s)(c_id c \<mapsto> c)"
  unfolding insert_cap_sel map_of_update by (simp only: draw_caps)

lemma prim_grows:
  "prim E mint s s' \<Longrightarrow> table_inv E s \<Longrightarrow> draws_distinct E (rng s') \<Longrightarrow> grows (cap_at s) (cap_at s')"
proof (induction rule: prim.induct)
  case (p_mint s h s1 c)
  then show ?case
    using draw_id_unused [OF p_mint.prems(1) p_mint.hyps(2)] by (auto simp: grows_def draw_caps)
next
  case (p_derive s h s1 c r pc)
  then show ?case
    using draw_id_unused [OF p_derive.prems(1) p_derive.hyps(1)] by (auto simp: grows_def draw_caps)
qed (auto simp: grows_revoke draw_caps)

lemma evolves_grows:
  "evolves E mint s s' \<Longrightarrow> table_inv E s \<Longrightarrow> draws_distinct E (rng s') \<Longrightarrow> grows (cap_at s) (cap_at s')"
proof (induction rule: rtranclp_induct)
  case (step s1 s2)
  have d: "draws_distinct E (rng s1)" using step draws_distinct_le prim_rng by blast
  then have "table_inv E s1" using evolves_table_inv step by blast
  then show ?case using step d prim_grows grows_trans by blast
qed simp

lemma grows_parent_rel: "grows m n \<Longrightarrow> parent_rel m \<subseteq> parent_rel n"
  unfolding grows_def parent_rel_def by (auto dest!: same_cap_fields(6)) (metis same_cap_fields(6))

lemma alive_ancestor: "(r, x) \<in> (parent_rel m)\<^sup>* \<Longrightarrow> alive m x \<Longrightarrow> alive m r"
proof (induction rule: rtrancl_induct)
  case (step y z)
  from step.hyps(2) obtain c where "m z = Some c" "c_parent c = Some y"
    by (auto simp: parent_rel_def)
  with step.prems have "alive m y" by (auto elim: aliveE)
  then show ?case by (rule step.IH)
qed

text \<open>What is dead stays dead.\<close>

lemma grows_alive: "alive n r \<Longrightarrow> grows m n \<Longrightarrow> table_ok m \<Longrightarrow> m r \<noteq> None \<Longrightarrow> alive m r"
proof (induction rule: alive.induct)
  case (alive_root r c)
  then obtain d where "m r = Some d" "same_cap d c" unfolding grows_def by fastforce
  then show ?case using alive_root.hyps same_cap_live same_cap_fields(6)
    by (intro alive.alive_root [of m r d]) metis+
next
  case (alive_child r c p)
  then obtain d where d: "m r = Some d" "same_cap d c" unfolding grows_def by fastforce
  then have "c_parent d = Some p" using alive_child same_cap_fields by metis
  moreover have "m p \<noteq> None" using calculation d alive_child.prems by (auto simp: table_ok_def)
  ultimately show ?case using alive_child d same_cap_live
    by (intro alive.alive_child [of m r d p]) blast+
qed

text \<open>A child is derived from its parent, whatever was revoked since.\<close>

definition lineage_inv :: "'w env \<Rightarrow> (string \<rightharpoonup> cap) \<Rightarrow> bool" where
  "lineage_inv E m \<longleftrightarrow>
     (\<forall>r c p a. m r = Some c \<longrightarrow> c_parent c = Some p \<longrightarrow> m p = Some a \<longrightarrow> derived_from E a c)"

lemma derived_from_same: "derived_from E a c \<Longrightarrow> same_cap a a' \<Longrightarrow> same_cap c c' \<Longrightarrow> derived_from E a' c'"
  unfolding derived_from_def sub_of_def readonly_of_def facet_of_def by (simp only: same_cap_fields)

lemma lineage_revoke: "lineage_inv E (map_of cs) \<Longrightarrow> lineage_inv E (map_of (revoke_entry r cs))"
proof -
  assume l: "lineage_inv E (map_of cs)"
  have old: "\<exists>c. map_of cs x = Some c \<and> same_cap c d" if "map_of (revoke_entry r cs) x = Some d" for x d
    using that by (cases "map_of cs r") (auto simp: map_of_revoke_entry split: if_splits)
  show ?thesis
    unfolding lineage_inv_def
  proof (intro allI impI)
    fix x d p b
    assume h: "map_of (revoke_entry r cs) x = Some d" "c_parent d = Some p"
      "map_of (revoke_entry r cs) p = Some b"
    obtain c where c: "map_of cs x = Some c" "same_cap c d" using old [OF h(1)] by blast
    obtain a where a: "map_of cs p = Some a" "same_cap a b" using old [OF h(3)] by blast
    have "c_parent c = Some p" using same_cap_fields(6) [OF c(2)] h(2) by simp
    then have "derived_from E a c" using l c(1) a(1) unfolding lineage_inv_def by blast
    then show "derived_from E b d" using a(2) c(2) by (rule derived_from_same)
  qed
qed

lemma lineage_add:
  assumes "lineage_inv E m" "table_ok m" "m (c_id c) = None"
    and "\<And>p. c_parent c = Some p \<Longrightarrow> \<exists>a. m p = Some a \<and> derived_from E a c"
  shows "lineage_inv E (m(c_id c \<mapsto> c))"
  unfolding lineage_inv_def
proof (intro allI impI)
  fix r d p a
  assume h: "(m(c_id c \<mapsto> c)) r = Some d" "c_parent d = Some p" "(m(c_id c \<mapsto> c)) p = Some a"
  show "derived_from E a d"
  proof (cases "r = c_id c")
    case True
    then have "d = c" using h by simp
    then obtain b where "m p = Some b" "derived_from E b c" using assms(4) h by blast
    then show ?thesis using h assms(3) \<open>d = c\<close> by (auto split: if_splits)
  next
    case False
    then have r: "m r = Some d" using h by simp
    then have "m p \<noteq> None" using assms(2) h unfolding table_ok_def by blast
    then have "m p = Some a" using h assms(3) by (auto split: if_splits)
    then show ?thesis using assms(1) r h unfolding lineage_inv_def by blast
  qed
qed

lemma prim_lineage:
  "prim E mint s s' \<Longrightarrow> table_inv E s \<Longrightarrow> draws_distinct E (rng s') \<Longrightarrow> lineage_inv E (cap_at s) \<Longrightarrow>
     lineage_inv E (cap_at s')"
proof (induction rule: prim.induct)
  case (p_mint s h s1 c)
  have "table_ok (cap_at s)" using p_mint.prems(1) by (simp add: table_inv_def caps_ok_def)
  then show ?case
    using draw_id_unused [OF p_mint.prems(1) p_mint.hyps(2)] p_mint
    unfolding insert_at [OF p_mint.hyps(2)] by (intro lineage_add) simp_all
next
  case (p_derive s h s1 c r pc)
  have "table_ok (cap_at s)" using p_derive.prems(1) by (simp add: table_inv_def caps_ok_def)
  then show ?case
    using draw_id_unused [OF p_derive.prems(1) p_derive.hyps(1)] p_derive
    unfolding insert_at [OF p_derive.hyps(1)] by (intro lineage_add) simp_all
qed (auto simp: lineage_revoke draw_caps)

lemma evolves_inv:
  "evolves E mint s s' \<Longrightarrow> table_inv E s \<and> lineage_inv E (cap_at s) \<Longrightarrow> draws_distinct E (rng s') \<Longrightarrow>
     table_inv E s' \<and> lineage_inv E (cap_at s')"
proof (induction rule: rtranclp_induct)
  case (step s1 s2)
  then show ?case using prim_table_inv prim_lineage draws_distinct_le prim_rng by blast
qed simp

text \<open>
  What a descendant has of its ancestor's authority: no other kind but a facet of the ancestor's
  mailbox, a directory only at or below the ancestor's, a descriptor only as opened step by step
  below the ancestor's and with its taint, a mailbox with at least the ancestor's prefix and rights,
  an origin or a command only the ancestor's own.
\<close>

definition within :: "'w env \<Rightarrow> cap \<Rightarrow> cap \<Rightarrow> bool" where
  "within E a c \<longleftrightarrow> (c_kind c = c_kind a \<or> c_kind c = Message \<and> c_msg a \<noteq> None)
     \<and> (c_kind c = Dir \<longrightarrow> root_below (c_root a) (c_root c))
     \<and> (\<forall>q. c_dir_fd c = Some q \<longrightarrow>
          (\<exists>p. c_dir_fd a = Some p \<and> (opens_beneath E)\<^sup>*\<^sup>* p q) \<and> c_taint c = c_taint a)
     \<and> (\<forall>m. c_msg c = Some m \<longrightarrow> msg_within a m)
     \<and> (c_http c \<noteq> None \<longrightarrow> c_http c = c_http a) \<and> (c_argv c \<noteq> [] \<longrightarrow> c_argv c = c_argv a)"

lemma within_refl [simp]: "within E a a"
  by (auto simp: within_def msg_within_self)

lemma within_derived:
  assumes "within E a b" "derived_from E b c" shows "within E a c"
  unfolding within_def
proof (intro conjI allI impI)
  show "c_kind c = c_kind a \<or> c_kind c = Message \<and> c_msg a \<noteq> None"
    using derived_kind [OF assms(2)] assms(1) msg_within_has [of a] by (auto simp: within_def)
  show "root_below (c_root a) (c_root c)" if "c_kind c = Dir"
    using derived_dir [OF assms(2) that] assms(1) root_below_trans by (auto simp: within_def)
  show "\<exists>p. c_dir_fd a = Some p \<and> (opens_beneath E)\<^sup>*\<^sup>* p q" "c_taint c = c_taint a" if q: "c_dir_fd c = Some q" for q
  proof -
    obtain p where p: "c_dir_fd b = Some p" "p = q \<or> opens_beneath E p q" "c_taint c = c_taint b"
      using derived_fd [OF assms(2) q] by blast
    obtain o' where "c_dir_fd a = Some o'" "(opens_beneath E)\<^sup>*\<^sup>* o' p" "c_taint b = c_taint a"
      using assms(1) p(1) by (auto simp: within_def)
    then show "\<exists>p. c_dir_fd a = Some p \<and> (opens_beneath E)\<^sup>*\<^sup>* p q" "c_taint c = c_taint a"
      using p by (auto intro: rtranclp.rtrancl_into_rtrancl)
  qed
  show "msg_within a m" if "c_msg c = Some m" for m
    using derived_msg [OF assms(2) that] assms(1) msg_within_trans [of b m a] by (auto simp: within_def)
qed (use derived_plain [OF assms(2)] in simp_all)

text \<open>
  The operations of a descendant: the ancestor's, or none, or \<open>Read\<close> and \<open>List\<close> where a read-only
  child was derived on the way.
\<close>

definition read_only_between :: "(string \<rightharpoonup> cap) \<Rightarrow> string \<Rightarrow> string \<Rightarrow> bool" where
  "read_only_between m y x \<longleftrightarrow> (\<exists>p q b d. (y, p) \<in> (parent_rel m)\<^sup>* \<and> (p, q) \<in> parent_rel m
     \<and> (q, x) \<in> (parent_rel m)\<^sup>* \<and> m p = Some b \<and> m q = Some d \<and> readonly_of b d)"

lemma read_only_later:
  "read_only_between m y x \<Longrightarrow> (x, z) \<in> parent_rel m \<Longrightarrow> read_only_between m y z"
  unfolding read_only_between_def by (meson rtrancl.rtrancl_into_rtrancl)

lemma read_only_now:
  "(y, p) \<in> (parent_rel m)\<^sup>* \<Longrightarrow> (p, q) \<in> parent_rel m \<Longrightarrow> m p = Some b \<Longrightarrow> m q = Some d \<Longrightarrow> readonly_of b d \<Longrightarrow>
     read_only_between m y q"
  unfolding read_only_between_def by blast

definition authority_from :: "'w env \<Rightarrow> (string \<rightharpoonup> cap) \<Rightarrow> string \<Rightarrow> string \<Rightarrow> bool" where
  "authority_from E m y x \<longleftrightarrow> (y, x) \<in> (parent_rel m)\<^sup>*
     \<and> (\<exists>a c. m y = Some a \<and> m x = Some c \<and> within E a c
          \<and> (c_ops c = c_ops a \<or> c_ops c = [] \<or> c_ops c = [Read, List] \<and> read_only_between m y x))"

lemma derived_ops: "derived_from E b c \<Longrightarrow> c_ops c = c_ops b \<or> c_ops c = [] \<or> c_ops c = [Read, List] \<and> readonly_of b c"
  by (auto simp: derived_from_def sub_of_def readonly_of_def facet_of_def)

lemma derived_ops_list:
  "derived_from E b c \<Longrightarrow> c_ops c = c_ops b \<or> c_ops c = [] \<or> c_ops c = [Read, List]"
  using derived_ops by blast

lemma descendant_authority:
  assumes "(y, x) \<in> (parent_rel m)\<^sup>*" "table_ok m" "lineage_inv E m" "m x = Some c"
  shows "authority_from E m y x"
  using assms(1,4)
proof (induction arbitrary: c rule: rtrancl_induct)
  case base
  then show ?case by (simp add: authority_from_def)
next
  case (step x z)
  from step.hyps(2) step.prems have p: "c_parent c = Some x" by (simp add: parent_rel_def)
  then obtain b where b: "m x = Some b" using assms(2) step.prems by (fastforce simp: table_ok_def)
  then have d: "derived_from E b c" using assms(3) step.prems p by (auto simp: lineage_inv_def)
  obtain a where a: "m y = Some a" "within E a b"
    and ops: "c_ops b = c_ops a \<or> c_ops b = [] \<or> c_ops b = [Read, List] \<and> read_only_between m y x"
    using step.IH [OF b] b by (auto simp: authority_from_def)
  have "c_ops c = c_ops a \<or> c_ops c = [] \<or> c_ops c = [Read, List] \<and> read_only_between m y z"
    using derived_ops [OF d] ops read_only_later [OF _ step.hyps(2)]
      read_only_now [OF step.hyps(1,2) b step.prems] by metis
  moreover have "(y, z) \<in> (parent_rel m)\<^sup>*" using step.hyps by (rule rtrancl.rtrancl_into_rtrancl)
  ultimately show ?case using a(1) step.prems within_derived [OF a(2) d] unfolding authority_from_def by blast
qed

text \<open>Where every link is a subdirectory, nothing but the directory and its descriptor differs.\<close>

definition sub_rel :: "'w env \<Rightarrow> (string \<rightharpoonup> cap) \<Rightarrow> (string \<times> string) set" where
  "sub_rel E m = {(p, r). \<exists>a c. m p = Some a \<and> m r = Some c \<and> c_parent c = Some p \<and> sub_of E a c \<and> derived_from E a c}"

definition subdirectory :: "'w env \<Rightarrow> cap \<Rightarrow> cap \<Rightarrow> bool" where
  "subdirectory E a c \<longleftrightarrow> c_kind a = Dir \<and> c_kind c = Dir \<and> root_below (c_root a) (c_root c)
     \<and> c_ops c = c_ops a \<and> c_taint c = c_taint a \<and> c_http c = None \<and> c_argv c = [] \<and> c_msg c = None
     \<and> (\<exists>p q. c_dir_fd a = Some p \<and> c_dir_fd c = Some q \<and> (opens_beneath E)\<^sup>*\<^sup>* p q)"

lemma opens_beneathI: "derive_dir_at E p seg w = (Inr q, w') \<Longrightarrow> opens_beneath E p q"
  unfolding opens_beneath_def by blast

lemma sub_of_subdirectory: "sub_of E a c \<Longrightarrow> derived_from E a c \<Longrightarrow> subdirectory E a c"
  using opens_beneathI [of E] derived_plain [of E a c] unfolding sub_of_def subdirectory_def
  by (blast intro: r_into_rtranclp dest: safe_join_below)

lemma subdirectory_trans: "subdirectory E a b \<Longrightarrow> subdirectory E b c \<Longrightarrow> subdirectory E a c"
  unfolding subdirectory_def by (auto intro: root_below_trans rtranclp_trans)

lemma sub_rel_parent: "sub_rel E m \<subseteq> parent_rel m"
  by (auto simp: sub_rel_def parent_rel_def)

lemma sub_chain:
  "(y, x) \<in> (sub_rel E m)\<^sup>* \<Longrightarrow> m x = Some c \<Longrightarrow> \<exists>a. m y = Some a \<and> (x = y \<and> c = a \<or> subdirectory E a c)"
proof (induction arbitrary: c rule: rtrancl_induct)
  case (step x z)
  then obtain b where b: "m x = Some b" "subdirectory E b c"
    by (auto simp: sub_rel_def intro: sub_of_subdirectory)
  with step.IH [OF b(1)] show ?case using subdirectory_trans by blast
qed auto

lemma sub_of_same: "sub_of E a c \<Longrightarrow> same_cap a a' \<Longrightarrow> same_cap c c' \<Longrightarrow> sub_of E a' c'"
  unfolding sub_of_def by (simp only: same_cap_fields)

lemma grows_sub_rel: "grows m n \<Longrightarrow> sub_rel E m \<subseteq> sub_rel E n"
proof
  fix e assume g: "grows m n" and e: "e \<in> sub_rel E m"
  then obtain p r a c where h: "e = (p, r)" "m p = Some a" "m r = Some c" "c_parent c = Some p" "sub_of E a c" "derived_from E a c"
    by (auto simp: sub_rel_def)
  obtain a' c' where "n p = Some a'" "same_cap a a'" "n r = Some c'" "same_cap c c'"
    using g h(2,3) unfolding grows_def by blast
  then show "e \<in> sub_rel E n"
    using h sub_of_same derived_from_same same_cap_fields(6) unfolding sub_rel_def by fastforce
qed

section \<open>Where authority comes from\<close>

lemma prim_alive_back:
  "prim E mint s s' \<Longrightarrow> \<not> mint \<Longrightarrow> table_inv E s \<Longrightarrow> draws_distinct E (rng s') \<Longrightarrow> alive (cap_at s') x \<Longrightarrow>
     \<exists>y. alive (cap_at s) y \<and> (y, x) \<in> (parent_rel (cap_at s'))\<^sup>*"
proof (induction rule: prim.induct)
  case (p_derive s h s1 c r pc)
  have ok: "table_ok (cap_at s)" using p_derive.prems(2) by (simp add: table_inv_def caps_ok_def)
  have free: "cap_at s (c_id c) = None"
    using draw_id_unused [OF p_derive.prems(2) p_derive.hyps(1)] p_derive by simp
  note ins = insert_at [OF p_derive.hyps(1), of c]
  have live: "alive (cap_at s) r"
    using p_derive.hyps(6) p_derive.prems(2) caps_ok_active by (simp add: table_inv_def)
  show ?case
  proof (cases "x = c_id c")
    case True
    have "(r, x) \<in> parent_rel (cap_at (insert_cap c s1))"
      unfolding ins using True p_derive.hyps(4) by (simp add: parent_rel_def)
    then show ?thesis using live by blast
  next
    case False
    then have "alive (cap_at s) x"
      using p_derive.prems(4) [unfolded ins] alive_add [OF ok free p_derive.hyps(3), of x]
        p_derive.hyps(4,5) by (simp del: fun_upd_apply)
    then show ?thesis by blast
  qed
next
  case (p_revoke s r)
  then have "alive (cap_at s) x" by (simp add: alive_revoke_entry)
  then show ?case by blast
qed (auto simp: draw_caps)

lemma evolves_alive_back:
  "evolves E False s s' \<Longrightarrow> table_inv E s \<Longrightarrow> draws_distinct E (rng s') \<Longrightarrow> alive (cap_at s') x \<Longrightarrow>
     \<exists>y. alive (cap_at s) y \<and> (y, x) \<in> (parent_rel (cap_at s'))\<^sup>*"
proof (induction arbitrary: x rule: rtranclp_induct)
  case (step s1 s2)
  have d: "draws_distinct E (rng s1)" using step draws_distinct_le prim_rng by blast
  have t: "table_inv E s1" using evolves_table_inv [OF step.hyps(1) step.prems(1) d] .
  obtain y where y: "alive (cap_at s1) y" "(y, x) \<in> (parent_rel (cap_at s2))\<^sup>*"
    using prim_alive_back [OF step.hyps(2) _ t step.prems(2,3)] by auto
  obtain z where "alive (cap_at s) z" "(z, y) \<in> (parent_rel (cap_at s1))\<^sup>*"
    using step.IH [OF step.prems(1) d y(1)] by blast
  moreover have "parent_rel (cap_at s1) \<subseteq> parent_rel (cap_at s2)"
    using prim_grows [OF step.hyps(2) t step.prems(2)] by (rule grows_parent_rel)
  ultimately have "(z, y) \<in> (parent_rel (cap_at s2))\<^sup>*" using rtrancl_mono by blast
  with y(2) \<open>alive (cap_at s) z\<close> show ?case by (meson rtrancl_trans)
qed blast

end
