(* ===== verification/Session_Data.thy ===== *)
theory Session_Data
  imports Session_Inv
begin

text \<open>
  The session's data beside its capabilities: mailboxes exist for every facet, hold nothing
  secret and only grow; the in-memory audit is an instance of the hash chain, verifies after every
  operation and only grows.
\<close>

section \<open>Mailboxes\<close>

abbreviation box_at :: "'w sys \<Rightarrow> string \<Rightarrow> posted_msg list option" where
  "box_at s \<equiv> map_of (s_mailboxes (ses s))"

definition mail_inv :: "'w env \<Rightarrow> 'w sys \<Rightarrow> bool" where
  "mail_inv E s \<longleftrightarrow>
     (\<forall>b. box_at s b \<noteq> None \<longrightarrow> (\<exists>h. drawn E (rng s) h \<and> b = mbox_of_hex h))
     \<and> (\<forall>r c m. cap_at s r = Some c \<longrightarrow> c_msg c = Some m \<longrightarrow> box_at s (m_mailbox m) \<noteq> None)"

text \<open>A message of a mailbox carries the session's own key and a taint that may leave.\<close>

definition box_clean :: "string \<Rightarrow> posted_msg list \<Rightarrow> bool" where
  "box_clean key box \<longleftrightarrow> (\<forall>p \<in> set box. p_taint p \<noteq> Secret \<and> p_from p = key)"

definition mail_clean :: "session \<Rightarrow> bool" where
  "mail_clean ss \<longleftrightarrow> (\<forall>b box. map_of (s_mailboxes ss) b = Some box \<longrightarrow> box_clean (s_key ss) box)"

lemma prim_key: "prim E mint s s' \<Longrightarrow> s_key (ses s') = s_key (ses s)"
  by (induction rule: prim.induct) (auto simp: draw_Some)

lemma prim_mail_clean: "prim E mint s s' \<Longrightarrow> mail_clean (ses s) \<Longrightarrow> mail_clean (ses s')"
proof (induction rule: prim.induct)
  case (p_mailbox s h s1)
  then show ?case by (auto simp: mail_clean_def box_clean_def draw_caps)
next
  case (p_post s r c m box msg)
  then show ?case by (fastforce simp: mail_clean_def box_clean_def)
qed (auto simp: mail_clean_def draw_caps)

lemma evolves_mail_clean: "evolves E mint s s' \<Longrightarrow> mail_clean (ses s) \<Longrightarrow> mail_clean (ses s')"
  by (induction rule: rtranclp_induct) (auto dest: prim_mail_clean)

text \<open>A mailbox keeps its messages; posts are appended.\<close>

definition mail_grows :: "'w sys \<Rightarrow> 'w sys \<Rightarrow> bool" where
  "mail_grows s s' \<longleftrightarrow> (\<forall>b box. box_at s b = Some box \<longrightarrow> (\<exists>box'. box_at s' b = Some box' \<and> prefix box box'))"

lemma mail_grows_refl [simp]: "mail_grows s s"
  by (auto simp: mail_grows_def)

lemma mail_grows_same: "s_mailboxes (ses s') = s_mailboxes (ses s) \<Longrightarrow> mail_grows s s'"
  by (simp add: mail_grows_def)

lemma mail_grows_trans: "mail_grows s t \<Longrightarrow> mail_grows t u \<Longrightarrow> mail_grows s u"
  unfolding mail_grows_def by (meson prefix_order.trans)

lemma box_id_unused:
  assumes "mail_inv E s" "draw E s = Some (h, s1)" "draws_distinct E (rng s1)"
  shows "box_at s (mbox_of_hex h) = None"
proof (rule ccontr)
  assume "box_at s (mbox_of_hex h) \<noteq> None"
  then have "drawn E (rng s) h" using assms(1) unfolding mail_inv_def by fastforce
  then show False using assms(2,3) draw_fresh by (auto simp: draw_Some)
qed

lemma prim_mail_grows:
  "prim E mint s s' \<Longrightarrow> mail_inv E s \<Longrightarrow> draws_distinct E (rng s') \<Longrightarrow> mail_grows s s'"
proof (induction rule: prim.induct)
  case (p_mailbox s h s1)
  then have "box_at s (mbox_of_hex h) = None" using box_id_unused [OF _ p_mailbox.hyps(2)] by simp
  then show ?case by (auto simp: mail_grows_def draw_caps [OF p_mailbox.hyps(2)])
next
  case (p_post s r c m box msg)
  then show ?case by (auto simp: mail_grows_def)
qed (auto intro!: mail_grows_same simp: draw_caps)

lemma prim_mail_inv:
  "prim E mint s s' \<Longrightarrow> mail_inv E s \<Longrightarrow> draws_distinct E (rng s') \<Longrightarrow> mail_inv E s'"
proof (induction rule: prim.induct)
  case (p_mint s h s1 c)
  note d = p_mint.hyps(2)
  have r: "rng s1 = Suc (rng s)" using d by (simp add: draw_Some)
  have "box_at s (m_mailbox m) \<noteq> None" if "c_msg c = Some m" for m using that p_mint.hyps by auto
  then show ?case
    using p_mint.prems drawn_le [of E "rng s" _ "Suc (rng s)"]
    unfolding mail_inv_def insert_at [OF d] insert_cap_sel draw_caps [OF d] r
    by (auto split: if_splits)
next
  case (p_derive s h s1 c r pc)
  note d = p_derive.hyps(1)
  have r: "rng s1 = Suc (rng s)" using d by (simp add: draw_Some)
  have "box_at s (m_mailbox m) \<noteq> None" if m: "c_msg c = Some m" for m
  proof -
    obtain n where "c_msg pc = Some n" "m_mailbox m = m_mailbox n"
      using derived_msg [OF p_derive.hyps(7) m] by (auto simp: msg_within_def)
    then show ?thesis using p_derive.hyps(5) p_derive.prems(1) unfolding mail_inv_def by auto
  qed
  then show ?case
    using p_derive.prems drawn_le [of E "rng s" _ "Suc (rng s)"]
    unfolding mail_inv_def insert_at [OF d] insert_cap_sel draw_caps [OF d] r
    by (auto split: if_splits)
next
  case (p_mailbox s h s1)
  have "rand_hex E (rng s) 16 = Some h" "rng s1 = Suc (rng s)" using p_mailbox.hyps(2) by (auto simp: draw_Some)
  then show ?case
    using p_mailbox.prems drawn_le [of E "rng s" _ "Suc (rng s)"] draw_drawn [of E "rng s" h]
    unfolding mail_inv_def by (auto simp: draw_caps [OF p_mailbox.hyps(2)])
next
  case (p_revoke s r)
  have same: "\<exists>d. cap_at s x = Some d \<and> c_msg d = c_msg c"
    if "map_of (revoke_entry r (s_caps (ses s))) x = Some c" for x c
    using that by (cases "cap_at s r") (auto simp: map_of_revoke_entry split: if_splits)
  have "box_at s (m_mailbox m) \<noteq> None"
    if "map_of (revoke_entry r (s_caps (ses s))) x = Some c" "c_msg c = Some m" for x c m
    using same [OF that(1)] that(2) p_revoke.prems(1) unfolding mail_inv_def by metis
  then show ?case using p_revoke.prems(1) unfolding mail_inv_def by simp
next
  case (p_post s r c m box msg)
  then show ?case unfolding mail_inv_def by auto
qed (auto simp: mail_inv_def)

section \<open>The audit chain\<close>

abbreviation ev_text :: "audit_event \<Rightarrow> string" where
  "ev_text e \<equiv> session_content (ev_seq e) (ev_op e) (ev_detail e) (ev_decision e) (ev_prev e)"

lemma session_content_split:
  "session_content n op d c h =
     (show_nat (unat n) @ ''|'' @ op @ ''|'' @ d @ ''|'' @ c) @ CHR ''|'' # h"
  by (simp only: session_content_def append_assoc append.simps)

lemma session_content_binds:
  "ev_text e = ev_text f \<Longrightarrow> CHR ''|'' \<notin> set (ev_prev e) \<Longrightarrow> CHR ''|'' \<notin> set (ev_prev f) \<Longrightarrow>
     ev_prev e = ev_prev f"
  unfolding session_content_split by (rule last_field)

interpretation trail: hash_chain "\<lambda>e. Some (ev_seq e)" ev_prev ev_hash ev_text
  by unfold_locales (rule session_content_binds)

abbreviation trail_chain :: "nat \<Rightarrow> string \<Rightarrow> audit_event list \<Rightarrow> bool" where
  "trail_chain \<equiv> chain (\<lambda>e. Some (ev_seq e)) ev_prev ev_hash ev_text"

lemma verify_from_chain: "verify_from i h es \<longleftrightarrow> trail_chain i h es"
proof (induction i h es rule: verify_from.induct)
  case (2 i h e es)
  show ?case
  proof (cases "ev_seq e = of_nat i \<and> ev_prev e = h \<and> sha256_hex (as_bytes (ev_text e)) = ev_hash e")
    case True
    then show ?thesis using 2 unfolding verify_from.simps chain.simps option.inject by presburger
  next
    case False
    then show ?thesis unfolding verify_from.simps chain.simps option.inject by metis
  qed
qed simp

lemma verify_audit_chain: "verify_audit ss \<longleftrightarrow> trail_chain 0 genesis (s_audit ss)"
  by (simp add: verify_audit_def verify_from_chain genesis_def)

lemma verify_next_event:
  "trail_chain 0 genesis log \<Longrightarrow> trail_chain 0 genesis (log @ [next_event log op d c])"
  by (rule trail.chain_extend) (simp_all add: next_event_def Let_def head_of_def genesis_def)

lemma prim_audit_kept: "prim E mint s s' \<Longrightarrow> s_audit (ses s') = s_audit (ses s)
    \<or> (\<exists>op d c. s_audit (ses s') = s_audit (ses s) @ [next_event (s_audit (ses s)) op d c])"
  by (induction rule: prim.induct) (auto simp: draw_caps)

lemma evolves_audit_kept:
  "evolves E mint s s' \<Longrightarrow> prefix (s_audit (ses s)) (s_audit (ses s'))
     \<and> (verify_audit (ses s) \<longrightarrow> verify_audit (ses s'))"
proof (induction rule: rtranclp_induct)
  case (step t u)
  from prim_audit_kept [OF step.hyps(2)] step.IH verify_next_event show ?case
    unfolding verify_audit_chain by (auto intro: prefix_order.trans)
qed simp

end
