(* ===== verification/Wire.thy ===== *)
theory Wire
  imports Sha256
begin

text \<open>
  \<open>proto.rs\<close>, the wire: length-prefixed frames over a byte stream, and base64. A stream is what
  the successive calls of \<open>Read::read\<close> meet: bytes that have arrived, an interruption, an error;
  after the last event the peer has closed. A call takes at most what it asks for and leaves the
  rest for the next.
\<close>

unbundle bit_operations_syntax

section \<open>The stream\<close>

datatype stream_event = Arrived byte "byte list" | Interrupted | Broken string

type_synonym stream = "stream_event list"

datatype io_error = Io string | UnexpectedEof | Truncated_Header | Frame_Too_Big nat

definition io_error_text :: "io_error \<Rightarrow> string" where
  "io_error_text e = (case e of
     Io m \<Rightarrow> m
   | UnexpectedEof \<Rightarrow> ''failed to fill whole buffer''
   | Truncated_Header \<Rightarrow> (U [0x5E27, 0x5934, 0x622A, 0x65AD] @ ''('' @ U [0x534F,
     0x8BAE, 0x9519, 0x8BEF] @ '')'')
   | Frame_Too_Big n \<Rightarrow> (U [0x5E27, 0x8FC7, 0x5927] @ '': '') @ show_nat n
     @ '' > MAX_FRAME('' @ show_nat (8 * 1024 * 1024) @ '')'')"

definition requeue :: "byte list \<Rightarrow> stream \<Rightarrow> stream" where
  "requeue bs es = (case bs of [] \<Rightarrow> es | b # r \<Rightarrow> Arrived b r # es)"

fun stream_bytes :: "stream \<Rightarrow> byte list" where
  "stream_bytes [] = []"
| "stream_bytes (Arrived b bs # es) = b # bs @ stream_bytes es"
| "stream_bytes (_ # es) = stream_bytes es"

section \<open>Reading\<close>

text \<open>
  The loop of \<open>read_frame\<close>'s header, and of \<open>read_exact\<close>: read until \<open>n\<close> bytes are there, over
  interruptions. \<^const>\<open>None\<close> for the bytes says that the stream ended first.
\<close>

function fill :: "nat \<Rightarrow> byte list \<Rightarrow> stream \<Rightarrow> (string + byte list \<times> bool) \<times> stream" where
  "fill n got es =
     (if n \<le> length got then (Inr (got, True), es)
      else case es of
        [] \<Rightarrow> (Inr (got, False), [])
      | Interrupted # r \<Rightarrow> fill n got r
      | Broken m # r \<Rightarrow> (Inl m, r)
      | Arrived b bs # r \<Rightarrow>
          let k = n - length got in
          fill n (got @ take k (b # bs)) (requeue (drop k (b # bs)) r))"
  by pat_completeness auto
termination
  by (relation "measure (\<lambda>(n, got, es). length (stream_bytes es) + length es)")
    (auto simp: requeue_def dest!: arg_cong [where f = length] split: list.splits)

declare fill.simps [simp del]

definition MAX_FRAME :: nat where
  "MAX_FRAME = 8 * 1024 * 1024"

definition header_value :: "byte list \<Rightarrow> nat" where
  "header_value hdr = unat (from_be32 (hdr ! 0) (hdr ! 1) (hdr ! 2) (hdr ! 3))"

definition read_frame :: "stream \<Rightarrow> (io_error + byte list option) \<times> stream" where
  "read_frame es =
     (case fill 4 [] es of
        (Inl m, r) \<Rightarrow> (Inl (Io m), r)
      | (Inr (hdr, full), r) \<Rightarrow>
          if \<not> full then (if hdr = [] then Inr None else Inl Truncated_Header, r)
          else
            let n = header_value hdr in
            if MAX_FRAME < n then (Inl (Frame_Too_Big n), r)
            else (case fill n [] r of
                (Inl m, r') \<Rightarrow> (Inl (Io m), r')
              | (Inr (buf, ok), r') \<Rightarrow> (if ok then Inr (Some buf) else Inl UnexpectedEof, r')))"

section \<open>Writing\<close>

text \<open>\<open>body.len() as u32\<close> keeps the low 32 bits; the header is big-endian.\<close>

definition frame_header :: "nat \<Rightarrow> byte list" where
  "frame_header n = (let len = word_of_nat n :: u32 in
     [ucast (drop_bit 24 len), ucast (drop_bit 16 len), ucast (drop_bit 8 len), ucast len])"

definition frame_bytes :: "byte list \<Rightarrow> byte list" where
  "frame_bytes payload = frame_header (length payload) @ payload"

text \<open>\<open>wr\<close> writes all of a piece or fails; \<open>fl\<close> flushes.\<close>

definition write_frame ::
    "(byte list \<Rightarrow> 'o \<Rightarrow> (string + unit) \<times> 'o) \<Rightarrow> ('o \<Rightarrow> (string + unit) \<times> 'o)
      \<Rightarrow> byte list \<Rightarrow> 'o \<Rightarrow> (string + unit) \<times> 'o" where
  "write_frame wr fl payload w =
     (case wr (frame_header (length payload)) w of
        (Inl e, w1) \<Rightarrow> (Inl e, w1)
      | (Inr _, w1) \<Rightarrow>
          (case wr payload w1 of
             (Inl e, w2) \<Rightarrow> (Inl e, w2)
           | (Inr _, w2) \<Rightarrow> fl w2))"

section \<open>Base64\<close>

definition B64 :: string where
  "B64 = ''ABCDEFGHIJKLMNOPQRSTUVWXYZabcdefghijklmnopqrstuvwxyz0123456789+/''"

definition b64_char :: "u32 \<Rightarrow> char" where
  "b64_char n = B64 ! unat (n AND 63)"

fun b64_encode :: "byte list \<Rightarrow> string" where
  "b64_encode [] = []"
| "b64_encode [a] =
     (let n = push_bit 16 (ucast a) :: u32 in
      [b64_char (drop_bit 18 n), b64_char (drop_bit 12 n), CHR ''='', CHR ''=''])"
| "b64_encode [a, b] =
     (let n = push_bit 16 (ucast a) OR push_bit 8 (ucast b) :: u32 in
      [b64_char (drop_bit 18 n), b64_char (drop_bit 12 n), b64_char (drop_bit 6 n), CHR ''=''])"
| "b64_encode (a # b # c # r) =
     (let n = push_bit 16 (ucast a) OR push_bit 8 (ucast b) OR ucast c :: u32 in
      [b64_char (drop_bit 18 n), b64_char (drop_bit 12 n), b64_char (drop_bit 6 n), b64_char n]
      @ b64_encode r)"

definition b64_val :: "char \<Rightarrow> u32 option" where
  "b64_val ch = (let n = of_char ch :: nat in
     if 65 \<le> n \<and> n \<le> 90 then Some (word_of_nat (n - 65))
     else if 97 \<le> n \<and> n \<le> 122 then Some (word_of_nat (n - 97 + 26))
     else if 48 \<le> n \<and> n \<le> 57 then Some (word_of_nat (n - 48 + 52))
     else if n = 43 then Some 62
     else if n = 47 then Some 63
     else None)"

text \<open>The accumulated number and the count of its bits, over one chunk.\<close>

fun b64_chunk :: "u32 \<Rightarrow> nat \<Rightarrow> string \<Rightarrow> u32 \<times> nat" where
  "b64_chunk n bits [] = (n, bits)"
| "b64_chunk n bits (ch # r) =
     (case b64_val ch of
        Some v \<Rightarrow> b64_chunk (push_bit 6 n OR v) (bits + 6) r
      | None \<Rightarrow> b64_chunk n bits r)"

definition b64_bytes :: "string \<Rightarrow> byte list" where
  "b64_bytes ch =
     (let (n, bits) = b64_chunk 0 0 ch; n' = push_bit (24 - bits) n in
      map (\<lambda>i. ucast (drop_bit (16 - i * 8) n' AND 0xff)) [0..<bits div 8])"

definition b64_decode :: "string \<Rightarrow> byte list" where
  "b64_decode s = concat (map b64_bytes (chunks 4 (filter (\<lambda>c. c \<noteq> CHR ''='') s)))"

section \<open>Base64 round trip\<close>

lemma B64_values: "list_all2 (\<lambda>c i. b64_val c = Some (word_of_nat i)) B64 [0..<64]"
  by (simp add: B64_def b64_val_def upt_conv_Cons)

lemma b64_val_char: "b64_val (b64_char n) = Some (n AND 63)"
proof -
  have "\<forall>i < 64. b64_val (B64 ! i) = Some (word_of_nat i)"
    using B64_values by (simp add: list_all2_conv_all_nth)
  moreover have "unat (n AND 63) < 64"
  proof -
    have "n AND 63 = take_bit 6 n" by (simp add: take_bit_eq_mask mask_eq_exp_minus_1)
    then show ?thesis
      using take_bit_nat_less_exp [of 6 "unat n"] by (simp add: unsigned_take_bit_eq)
  qed
  ultimately show ?thesis by (simp add: b64_char_def)
qed

lemma b64_char_not_pad: "b64_char n \<noteq> CHR ''=''"
proof
  assume "b64_char n = CHR ''=''"
  then have "b64_val (b64_char n) = None" by (simp add: b64_val_def)
  then show False by (simp add: b64_val_char)
qed

lemma byte_eqI:
  assumes "bit a 0 = bit b 0" "bit a 1 = bit b 1" "bit a 2 = bit b 2" "bit a 3 = bit b 3"
    "bit a 4 = bit b 4" "bit a 5 = bit b 5" "bit a 6 = bit b 6" "bit a 7 = bit b 7"
  shows "a = (b :: byte)"
proof (rule bit_word_eqI)
  fix n assume "n < LENGTH(8)"
  then have "n = 0 \<or> n = 1 \<or> n = 2 \<or> n = 3 \<or> n = 4 \<or> n = 5 \<or> n = 6 \<or> n = 7" by simp arith
  then show "bit a n = bit b n" using assms by blast
qed

lemma bit_byte_beyond: "8 \<le> n \<Longrightarrow> \<not> bit (b :: byte) n"
  using bit_imp_le_length [of b n] by auto

text \<open>One group of the encoding, of three bytes, and the shorter last ones.\<close>

lemma b64_bytes_3:
  assumes "n = (push_bit 16 (ucast a) OR push_bit 8 (ucast b) OR ucast c :: u32)"
  shows "b64_bytes [b64_char (drop_bit 18 n), b64_char (drop_bit 12 n), b64_char (drop_bit 6 n), b64_char n]
    = [a, b, c]"
proof -
  let ?m = "push_bit 6 (push_bit 6 (push_bit 6 (drop_bit 18 n AND 63) OR drop_bit 12 n AND 63)
      OR drop_bit 6 n AND 63) OR n AND 63"
  have "ucast (drop_bit 16 ?m AND 0xff) = a" "ucast (drop_bit 8 ?m AND 0xff) = b"
    "ucast (?m AND 0xff) = c"
    unfolding assms by (rule byte_eqI; simp add: bit_simps bit_byte_beyond)+
  then show ?thesis by (simp add: b64_bytes_def b64_val_char upt_conv_Cons)
qed

lemma b64_bytes_2:
  assumes "n = (push_bit 16 (ucast a) OR push_bit 8 (ucast b) :: u32)"
  shows "b64_bytes [b64_char (drop_bit 18 n), b64_char (drop_bit 12 n), b64_char (drop_bit 6 n)] = [a, b]"
proof -
  let ?m = "push_bit 6 (push_bit 6 (push_bit 6 (drop_bit 18 n AND 63) OR drop_bit 12 n AND 63)
      OR drop_bit 6 n AND 63)"
  have "ucast (drop_bit 16 ?m AND 0xff) = a" "ucast (drop_bit 8 ?m AND 0xff) = b"
    unfolding assms by (rule byte_eqI; simp add: bit_simps bit_byte_beyond)+
  then show ?thesis by (simp add: b64_bytes_def b64_val_char upt_conv_Cons)
qed

lemma b64_bytes_1:
  assumes "n = (push_bit 16 (ucast a) :: u32)"
  shows "b64_bytes [b64_char (drop_bit 18 n), b64_char (drop_bit 12 n)] = [a]"
proof -
  let ?m = "push_bit 12 (push_bit 6 (drop_bit 18 n AND 63) OR drop_bit 12 n AND 63)"
  have "ucast (drop_bit 16 ?m AND 0xff) = a"
    unfolding assms by (rule byte_eqI; simp add: bit_simps bit_byte_beyond)
  then show ?thesis by (simp add: b64_bytes_def b64_val_char upt_conv_Cons)
qed

lemma chunks_Nil [simp]: "chunks n [] = []"
  by (simp add: chunks.simps)

lemma chunks_append: "0 < length xs \<Longrightarrow> chunks (length xs) (xs @ ys) = xs # chunks (length xs) ys"
  by (subst chunks.simps) simp

lemma chunks_short: "xs \<noteq> [] \<Longrightarrow> length xs \<le> n \<Longrightarrow> chunks n xs = [xs]"
  by (cases xs) (auto simp: chunks.simps [of n])

lemma chunks_4: "chunks 4 (a # b # c # d # r) = [a, b, c, d] # chunks 4 r"
  using chunks_append [of "[a, b, c, d]" r] by (simp add: numeral_eq_Suc)

lemma b64_decode_encode: "b64_decode (b64_encode d) = d"
proof (induction d rule: b64_encode.induct)
  case (2 a)
  show ?case
    using b64_bytes_1 [OF refl, of a]
    by (simp add: b64_decode_def Let_def b64_char_not_pad chunks_short)
next
  case (3 a b)
  show ?case
    using b64_bytes_2 [OF refl, of a b]
    by (simp add: b64_decode_def Let_def b64_char_not_pad chunks_short)
next
  case (4 a b c r)
  then show ?case
    using b64_bytes_3 [OF refl, of a b c]
    by (simp add: b64_decode_def Let_def b64_char_not_pad chunks_4)
qed (simp add: b64_decode_def)

text \<open>The encoding never has a tab or a line break: it is one field of a reply.\<close>

lemma b64_char_ascii: "b64_char n \<in> set B64"
proof -
  have "n AND 63 = take_bit 6 n" by (simp add: take_bit_eq_mask mask_eq_exp_minus_1)
  then have "unat (n AND 63) < length B64"
    using take_bit_nat_less_exp [of 6 "unat n"] by (simp add: unsigned_take_bit_eq B64_def)
  then show ?thesis by (simp add: b64_char_def)
qed

lemma b64_encode_chars: "set (b64_encode d) \<subseteq> insert (CHR ''='') (set B64)"
  by (induction d rule: b64_encode.induct) (auto simp: Let_def b64_char_ascii)

lemma length_b64_encode: "length (b64_encode d) = 4 * ((length d + 2) div 3)"
proof (induction d rule: b64_encode.induct)
  case (4 a b c r)
  then show ?case by (simp add: Let_def) presburger
qed (auto simp: Let_def)

section \<open>Frames\<close>

lemma frame_header_value:
  assumes "n < 2 ^ 32"
  shows "header_value (frame_header n) = n"
proof -
  have word: "from_be32 (ucast (drop_bit 24 w)) (ucast (drop_bit 16 w)) (ucast (drop_bit 8 w)) (ucast w) = w"
    for w :: u32
  proof (rule bit_word_eqI)
    fix i assume "i < LENGTH(32)"
    then show "bit (from_be32 (ucast (drop_bit 24 w)) (ucast (drop_bit 16 w)) (ucast (drop_bit 8 w))
        (ucast w)) i = bit w i"
      by (cases "i < 8"; cases "i < 16"; cases "i < 24")
        (auto simp: from_be32_def bit_simps bit_byte_beyond not_less)
  qed
  show ?thesis
    using assms word [of "word_of_nat n"] by (simp add: header_value_def frame_header_def Let_def unat_of_nat take_bit_eq_mod)
qed

lemma length_frame_header [simp]: "length (frame_header n) = 4"
  by (simp add: frame_header_def Let_def)

text \<open>What filling does to a stream: it takes exactly the bytes asked for, or all there are.\<close>

fun calm :: "stream \<Rightarrow> bool" where
  "calm [] = True"
| "calm (Broken m # es) = False"
| "calm (_ # es) = calm es"

lemma stream_bytes_requeue [simp]: "stream_bytes (requeue bs es) = bs @ stream_bytes es"
  by (simp add: requeue_def split: list.split)

lemma calm_requeue [simp]: "calm (requeue bs es) = calm es"
  by (simp add: requeue_def split: list.split)

lemma take_rest: "take k xs @ take (k - length (take k xs)) (drop k xs @ ys) = take k (xs @ ys)"
  by (cases "k \<le> length xs") auto

lemma drop_rest: "drop (k - length (take k xs)) (drop k xs @ ys) = drop k (xs @ ys)"
  by (cases "k \<le> length xs") auto

lemma fill_exact:
  assumes "length got \<le> n" "n \<le> length got + length (stream_bytes es)" "calm es"
  shows "\<exists>r. fill n got es = (Inr (got @ take (n - length got) (stream_bytes es), True), r)
    \<and> stream_bytes r = drop (n - length got) (stream_bytes es) \<and> calm r"
  using assms
proof (induction n got es rule: fill.induct)
  case (1 n got es)
  show ?case
  proof (cases "n = length got")
    case True
    then show ?thesis using 1 by (subst fill.simps) simp
  next
    case False
    then have lt: "\<not> n \<le> length got" using 1 by simp
    show ?thesis
    proof (cases es)
      case Nil
      then show ?thesis using 1 lt by simp
    next
      case (Cons e r)
      show ?thesis
      proof (cases e)
        case (Arrived b bs)
        define xs k where "xs = b # bs" and "k = n - length got"
        define g d where "g = got @ take k xs" and "d = drop k xs"
        have len: "length g \<le> n" "n \<le> length g + length (stream_bytes (requeue d r))"
          using 1(3,4) lt Cons Arrived by (auto simp: g_def d_def k_def xs_def min_def)
        have eq: "g @ take (n - length g) (d @ stream_bytes r) = got @ take k (stream_bytes es)"
          "drop (n - length g) (d @ stream_bytes r) = drop k (stream_bytes es)"
          using take_rest [of k xs "stream_bytes r"] drop_rest [of k xs "stream_bytes r"] Cons Arrived
          by (simp_all add: g_def d_def k_def xs_def)
        have "fill n got es = fill n g (requeue d r)"
          using lt Cons Arrived by (subst fill.simps) (simp add: Let_def g_def d_def k_def xs_def)
        moreover obtain r' where "fill n g (requeue d r)
            = (Inr (g @ take (n - length g) (stream_bytes (requeue d r)), True), r')"
          "stream_bytes r' = drop (n - length g) (stream_bytes (requeue d r))" "calm r'"
          using 1(1) [OF lt Cons Arrived refl] len 1(5) Cons Arrived
          unfolding g_def d_def k_def xs_def by auto
        ultimately show ?thesis using eq by (simp add: k_def)
      next
        case Interrupted
        then show ?thesis using 1 lt Cons by (subst fill.simps) auto
      next
        case (Broken m)
        then show ?thesis using 1 Cons by simp
      qed
    qed
  qed
qed

lemma fill_length:
  "fill n got es = (Inr (bs, True), r) \<Longrightarrow> length got \<le> n \<Longrightarrow> length bs = n"
proof (induction n got es arbitrary: bs r rule: fill.induct)
  case (1 n got es)
  note eq = 1(3) [unfolded fill.simps [of n got es]]
  show ?case
  proof (cases "n \<le> length got")
    case True
    then show ?thesis using eq 1(4) by simp
  next
    case False
    show ?thesis
    proof (cases es)
      case Nil
      then show ?thesis using eq False by simp
    next
      case (Cons e r')
      show ?thesis
      proof (cases e)
        case (Arrived b xs)
        then show ?thesis
          using eq False Cons 1(1) [OF False Cons Arrived refl, of bs r] by (simp add: Let_def)
      next
        case Interrupted
        then show ?thesis using eq False Cons 1(2) [OF False Cons Interrupted, of bs r] 1(4) by simp
      next
        case (Broken m)
        then show ?thesis using eq False Cons by simp
      qed
    qed
  qed
qed

lemma read_frame_header:
  assumes "calm es" "stream_bytes es = frame_bytes p @ rest" "length p < 2 ^ 32"
  shows "\<exists>r. fill 4 [] es = (Inr (frame_header (length p), True), r) \<and> stream_bytes r = p @ rest \<and> calm r"
proof -
  have "4 \<le> length (stream_bytes es)" using assms(2) by (simp add: frame_bytes_def)
  then obtain r where "fill 4 [] es = (Inr (take 4 (stream_bytes es), True), r)"
    "stream_bytes r = drop 4 (stream_bytes es)" "calm r"
    using fill_exact [of "[]" 4 es] assms(1) by auto
  moreover have "take 4 (stream_bytes es) = frame_header (length p)"
    "drop 4 (stream_bytes es) = p @ rest"
    using assms(2) by (simp_all add: frame_bytes_def)
  ultimately show ?thesis by metis
qed

lemma frame_reads:
  assumes "calm es" "stream_bytes es = frame_bytes p @ rest" "length p \<le> MAX_FRAME"
  shows "\<exists>r. read_frame es = (Inr (Some p), r) \<and> stream_bytes r = rest \<and> calm r"
proof -
  have small: "length p < 2 ^ 32" using assms(3) by (simp add: MAX_FRAME_def)
  obtain r where r: "fill 4 [] es = (Inr (frame_header (length p), True), r)"
    "stream_bytes r = p @ rest" "calm r"
    using read_frame_header [OF assms(1,2) small] by blast
  obtain r' where "fill (length p) [] r = (Inr (p, True), r')" "stream_bytes r' = rest" "calm r'"
    using fill_exact [of "[]" "length p" r] r by auto
  then show ?thesis
    using r assms(3) by (simp add: read_frame_def frame_header_value [OF small])
qed

text \<open>
  C22: A frame of at most 8 MiB that was written comes back as it was, however the stream delivers
  its bytes and however often it is interrupted, and the rest of the stream is left for the next
  frame.
\<close>

theorem frame_roundtrip:
  assumes "calm es" "stream_bytes es = frame_bytes p @ rest" "length p \<le> MAX_FRAME"
  shows "\<exists>r. read_frame es = (Inr (Some p), r) \<and> stream_bytes r = rest \<and> calm r"
  by (rule frame_reads [OF assms])

lemma frame_roundtrip_witness:
  "\<exists>r. read_frame [Arrived 0 [0], Interrupted, Arrived 0 [2, 7], Arrived 8 [9]] = (Inr (Some [7, 8]), r)
     \<and> stream_bytes r = [9] \<and> calm r"
proof (rule frame_roundtrip)
  show "stream_bytes [Arrived 0 [0], Interrupted, Arrived 0 [2, 7], Arrived 8 [9]]
      = frame_bytes [7, 8] @ [9]"
    by (simp add: frame_bytes_def frame_header_def)
qed (simp_all add: MAX_FRAME_def)

text \<open>
  C23: No frame above the limit is accepted: a returned frame is at most 8 MiB, and when the header
  announces more, the reader gives the error at once and takes nothing of the payload.
  (\<open>write_frame\<close> has no such check, so its own peer refuses what it wrote.)
\<close>

theorem frame_limit:
  "(read_frame es = (Inr (Some p), r) \<longrightarrow> length p \<le> MAX_FRAME) \<and>
   (calm es \<longrightarrow> stream_bytes es = frame_bytes big @ rest \<longrightarrow> MAX_FRAME < length big \<longrightarrow> length big < 2 ^ 32 \<longrightarrow>
      (\<exists>r. read_frame es = (Inl (Frame_Too_Big (length big)), r) \<and> stream_bytes r = big @ rest))"
proof (intro conjI impI)
  assume "read_frame es = (Inr (Some p), r)"
  then show "length p \<le> MAX_FRAME"
    by (auto simp: read_frame_def Let_def split: prod.splits sum.splits if_splits dest!: fill_length)
next
  assume h: "calm es" "stream_bytes es = frame_bytes big @ rest" "MAX_FRAME < length big" "length big < 2 ^ 32"
  then obtain r where "fill 4 [] es = (Inr (frame_header (length big), True), r)" "stream_bytes r = big @ rest"
    using read_frame_header by blast
  then show "\<exists>r. read_frame es = (Inl (Frame_Too_Big (length big)), r) \<and> stream_bytes r = big @ rest"
    using h by (simp add: read_frame_def frame_header_value)
qed

lemma frame_limit_witness:
  "\<exists>r. read_frame (map (\<lambda>b. Arrived b []) (frame_bytes (replicate (MAX_FRAME + 1) 0)))
     = (Inl (Frame_Too_Big (MAX_FRAME + 1)), r)"
proof -
  let ?big = "replicate (MAX_FRAME + 1) (0 :: byte)"
  let ?es = "map (\<lambda>b. Arrived b []) (frame_bytes ?big)"
  have "stream_bytes (map (\<lambda>b. Arrived b []) bs) = bs" "calm (map (\<lambda>b. Arrived b []) bs)" for bs
    by (induction bs) auto
  moreover have "length ?big = MAX_FRAME + 1" "MAX_FRAME + 1 < 2 ^ 32"
    by (simp_all add: MAX_FRAME_def)
  ultimately show ?thesis
    using frame_limit [of ?es _ _ ?big "[]"] by (metis append_Nil2 less_add_one)
qed

text \<open>
  C24: Base64 is undone by the decoder, its length is four characters for every three bytes begun,
  and it is one field of a reply: no tab or line break.
\<close>

theorem b64_roundtrip:
  "b64_decode (b64_encode d) = d \<and> length (b64_encode d) = 4 * ((length d + 2) div 3)
   \<and> tab \<notin> set (b64_encode d) \<and> nl \<notin> set (b64_encode d)"
proof -
  have "tab \<notin> insert (CHR ''='') (set B64)" "nl \<notin> insert (CHR ''='') (set B64)" by (simp_all add: B64_def)
  then show ?thesis using b64_encode_chars [of d] by (auto simp: b64_decode_encode length_b64_encode)
qed

end
