(* ===== verification/Proto.thy ===== *)
theory Proto
  imports Session Wire
begin

text \<open>
  \<open>proto.rs\<close>, the request handler: one frame's text in, one reply out, over the session's
  operations. An arm of the source is a definition; an error is its text, as on the wire.
\<close>

section \<open>Fields\<close>

definition US :: char where
  "US = CHR 0x1F"

text \<open>\<open>f.get(i).ok_or(err)?\<close> and \<open>f.get(i).unwrap_or(&d)\<close>.\<close>

definition need :: "string list \<Rightarrow> nat \<Rightarrow> string \<Rightarrow> (string \<Rightarrow> ((string + string) \<times> 's) option) \<Rightarrow> 's
    \<Rightarrow> ((string + string) \<times> 's) option" where
  "need f i err k s = (case nth_opt f i of None \<Rightarrow> Some (Inl err, s) | Some x \<Rightarrow> k x)"

definition field_or :: "string list \<Rightarrow> nat \<Rightarrow> string \<Rightarrow> string" where
  "field_or f i d = (case nth_opt f i of None \<Rightarrow> d | Some x \<Rightarrow> x)"

text \<open>An operation's result as a reply, with its error as text.\<close>

definition reply_as :: "'w env \<Rightarrow> ('a \<Rightarrow> string) \<Rightarrow> ((error + 'a) \<times> 'w sys) option
    \<Rightarrow> ((string + string) \<times> 'w sys) option" where
  "reply_as E g m = map_option (\<lambda>(r, s). (case r of
      Inl e \<Rightarrow> Inl (error_text (uni_escaped E) e) | Inr v \<Rightarrow> Inr (g v), s)) m"

definition fresh_cap :: "(string \<times> 'w sys) option \<Rightarrow> ((error + string) \<times> 'w sys) option" where
  "fresh_cap m = map_option (\<lambda>(i, s). (Inr i, s)) m"

definition cap_reply :: "string \<Rightarrow> string" where
  "cap_reply r = ''CAP'' @ [tab] @ r"

definition ok_reply :: "string \<Rightarrow> string \<Rightarrow> string" where
  "ok_reply label b64 = ''OK'' @ [tab] @ label @ [tab] @ b64"

definition data_reply :: "taint \<times> byte list \<Rightarrow> string" where
  "data_reply td = ok_reply (taint_str (fst td)) (b64_encode (snd td))"

definition text_reply :: "string \<Rightarrow> string" where
  "text_reply t = ok_reply [] (b64_encode (as_bytes t))"

section \<open>Minting verbs\<close>

definition deny_guest_mint :: "policy \<Rightarrow> string \<Rightarrow> ((string + string) \<times> 's) option \<Rightarrow> 's
    \<Rightarrow> ((string + string) \<times> 's) option" where
  "deny_guest_mint pol verb k s =
     (if po_role pol = Guest then
        Some (Inl (verb @ ('':guest '' @ U [0x4E0D, 0x80FD, 0x94F8, 0x9020, 0x80FD, 0x529B, 0x3002,
          0x7528] @ '' BOOTSTRAP '' @ U [0x53D6, 0x9884, 0x6CE8, 0x5165, 0x6839]
            @ '' + DERIVE;mint '' @ U [0x4EC5] @ '' control '' @ U [0x9762, 0x3002])), s)
      else k)"

definition to_uppercase :: "'w env \<Rightarrow> string \<Rightarrow> string" where
  "to_uppercase E s = U (concat (map (uni_upper E) (chars s)))"

definition handle_grant_dir where
  "handle_grant_dir E f s =
     need f 1 (''GRANT_DIR '' @ U [0x7F3A] @ '' root'') (\<lambda>root.
       reply_as E cap_reply (grant_dir E root (parse_ops (field_or f 2 ''read''))
         (taint_parse (field_or f 3 ''project'')) s)) s"

definition handle_grant_sink where
  "handle_grant_sink E f s =
     need f 1 (''GRANT_SINK '' @ U [0x7F3A]
       @ '' name'') (\<lambda>name. reply_as E cap_reply (fresh_cap (grant_sink E name s))) s"

definition handle_grant_http where
  "handle_grant_http E f s =
     need f 1 (''GRANT_HTTP '' @ U [0x7F3A] @ '' scheme'') (\<lambda>scheme.
     need f 2 (''GRANT_HTTP '' @ U [0x7F3A] @ '' host'') (\<lambda>host.
       (case Option.bind (nth_opt f 3) (parse_uint (2 ^ 16)) of
          None \<Rightarrow> Some (Inl (''GRANT_HTTP '' @ U [0x7F3A] @ ''/'' @ U [0x574F]
            @ '' port''), s)
        | Some port \<Rightarrow>
            let methods = map (\<lambda>m. to_uppercase E (trim m)) (split_on (CHR '','') (field_or f 4 ''GET''));
                paths = split_on US (field_or f 5 ''/**'');
                max_bytes = (case Option.bind (nth_opt f 6) (parse_uint (2 ^ 64)) of
                               None \<Rightarrow> 1048576 | Some n \<Rightarrow> n)
            in reply_as E cap_reply
                 (grant_http E scheme host (word_of_nat port) methods paths max_bytes s))) s) s"

definition handle_grant_msg where
  "handle_grant_msg E f s =
     need f 1 (''GRANT_MSG '' @ U [0x7F3A] @ '' recipient'') (\<lambda>rcpt.
       reply_as E cap_reply (fresh_cap (grant_message E rcpt s))) s"

definition handle_grant_cmd where
  "handle_grant_cmd E f s =
     need f 1 (''GRANT_CMD '' @ U [0x7F3A] @ '' cwd_ref'') (\<lambda>cwd.
       reply_as E cap_reply
         (grant_command E cwd (filter (\<lambda>a. a \<noteq> []) (split_on US (field_or f 2 []))) s)) s"

section \<open>Attenuation and use\<close>

definition handle_derive where
  "handle_derive E f s =
     need f 1 (''DERIVE '' @ U [0x7F3A] @ '' ref'') (\<lambda>r. need f 2 (''DERIVE ''
       @ U [0x7F3A] @ '' how'') (\<lambda>how.
       if how = ''sub'' then
         need f 3 (''sub '' @ U [0x7F3A]
           @ '' seg'') (\<lambda>seg. reply_as E cap_reply (derive_sub E r seg s)) s
       else if how = ''readonly'' then reply_as E cap_reply (derive_readonly E r s)
       else if how = ''msg_prefix'' then
         need f 3 (''msg_prefix '' @ U [0x7F3A] @ '' '' @ U [0x524D,
           0x7F00]) (\<lambda>p. reply_as E cap_reply (derive_msg_prefix E r p s)) s
       else if how = ''msg_oneshot'' then reply_as E cap_reply (derive_msg_oneshot E r s)
       else Some (Inl ((U [0x672A, 0x77E5] @ '' DERIVE '') @ how), s)) s) s"

definition mailbox_dump :: "(string \<times> taint \<times> string) list \<Rightarrow> string" where
  "mailbox_dump msgs =
     join [nl] (map (\<lambda>(subject, t, body). taint_str t @ [tab] @ subject @ [tab] @ body) msgs)"

definition handle_invoke where
  "handle_invoke E f s =
     need f 1 (''INVOKE '' @ U [0x7F3A] @ '' ref'') (\<lambda>r. need f 2 (''INVOKE ''
       @ U [0x7F3A] @ '' verb'') (\<lambda>verb.
       if verb = ''read'' then reply_as E data_reply (read E r (field_or f 3 []) s)
       else if verb = ''list'' then
         reply_as E (\<lambda>d. ok_reply ''project'' (b64_encode d)) (list_op E r (field_or f 3 []) s)
       else if verb = ''exec'' then
         reply_as E (\<lambda>d. ok_reply ''yellow'' (b64_encode d)) (exec E r s)
       else if verb = ''http_get'' then reply_as E data_reply (http_get E r (field_or f 3 ''/'') s)
       else if verb = ''send'' then
         reply_as E (\<lambda>_. ok_reply [] []) (send E r (taint_parse (field_or f 3 ''green'')) s)
       else if verb = ''post'' then
         need f 3 (''post '' @ U [0x7F3A] @ '' subject'') (\<lambda>subject.
           reply_as E (\<lambda>_. ok_reply [] [])
             (post E r subject (from_utf8_lossy (b64_decode (field_or f 4 []))) s)) s
       else if verb = ''post_from'' then
         need f 3 (''post_from '' @ U [0x7F3A]
           @ '' subject'') (\<lambda>subject. need f 4 (''post_from '' @ U [0x7F3A]
             @ '' src_ref'') (\<lambda>src.
           reply_as E (\<lambda>_. ok_reply [] []) (post_from E r subject src (field_or f 5 []) s)) s) s
       else if verb = ''mailbox_read'' then
         reply_as E (\<lambda>ms. text_reply (mailbox_dump ms)) (mailbox_read E r s)
       else Some (Inl ((U [0x672A, 0x77E5] @ '' INVOKE verb '') @ verb), s)) s) s"

section \<open>Approval and inspection\<close>

definition handle_consent_settle where
  "handle_consent_settle E pol missing op f s =
     (if po_role pol = Guest then Some (Inl (''consent '' @ U [0x5BA1, 0x6279, 0x4EC5]
       @ '' control '' @ U [0x9762]), s)
      else need f 1 missing (\<lambda>i. reply_as E text_reply (Some (op i s))) s)"

definition handle_consent_describe where
  "handle_consent_describe E pol f s =
     (if po_role pol = Guest then Some (Inl (''consent '' @ U [0x8BE6, 0x60C5, 0x4EC5]
       @ '' control '' @ U [0x9762] @ ''('' @ U [0x542B, 0x654F, 0x611F] @ '' env)''), s)
      else need f 1 (''CONSENT_DESCRIBE '' @ U [0x7F3A]
        @ '' id'') (\<lambda>i. reply_as E text_reply (Some (consent_describe i s, s))) s)"

definition handle_consent_list :: "policy \<Rightarrow> 'w sys \<Rightarrow> ((string + string) \<times> 'w sys) option" where
  "handle_consent_list pol s =
     (if po_role pol = Guest then Some (Inl (''consent '' @ U [0x5217, 0x8868, 0x4EC5]
       @ '' control '' @ U [0x9762]), s)
      else Some (Inr (text_reply (join [nl]
             (map (\<lambda>(i, key, detail). i @ [tab] @ key @ [tab] @ detail) (consent_list s)))), s))"

definition audit_line :: "audit_event \<Rightarrow> string option" where
  "audit_line e = map_option (\<lambda>h12.
     ''#'' @ pad_right 3 (show_nat (unat (ev_seq e))) @ '' '' @ pad_right 14 (ev_op e) @ '' ['' @ ev_decision e
       @ ''] '' @ ev_detail e @ ''  '' @ h12 @ [nl]) (slice_to (ev_hash e) 12)"

fun audit_lines :: "audit_event list \<Rightarrow> string option" where
  "audit_lines [] = Some []"
| "audit_lines (e # es) = do { l \<leftarrow> audit_line e; r \<leftarrow> audit_lines es; Some (l @ r) }"

definition handle_audit :: "'w sys \<Rightarrow> ((string + string) \<times> 'w sys) option" where
  "handle_audit s = do {
     ls \<leftarrow> audit_lines (s_audit (ses s));
     Some (Inr (text_reply (ls @ ''in_process_chain_verify: ''
       @ (if verify_audit (ses s) then ''ok'' else ''BROKEN'')
       @ (''('' @ U [0x4EC5, 0x8FDB, 0x7A0B, 0x5185, 0x5B8C, 0x6574, 0x6027] @ '';'' @ U [0x6301,
         0x4E45, 0x5316] @ ''+'' @ U [0x951A, 0x70B9, 0x89C1] @ '' --audit-log)'') @ [nl])), s)
   }"

section \<open>Dispatch\<close>

definition handle_verb ::
    "'w env \<Rightarrow> policy \<Rightarrow> string list \<Rightarrow> 'w sys \<Rightarrow> ((string + string) \<times> 'w sys) option" where
  "handle_verb E pol f s =
     (let verb = hd f in
      if verb = ''BOOTSTRAP'' then reply_as E cap_reply (Some (take_bootstrap s))
      else if verb = ''GRANT_DIR'' then deny_guest_mint pol verb (handle_grant_dir E f s) s
      else if verb = ''GRANT_SINK'' then deny_guest_mint pol verb (handle_grant_sink E f s) s
      else if verb = ''GRANT_HTTP'' then deny_guest_mint pol verb (handle_grant_http E f s) s
      else if verb = ''GRANT_MSG'' then deny_guest_mint pol verb (handle_grant_msg E f s) s
      else if verb = ''GRANT_CMD'' then deny_guest_mint pol verb (handle_grant_cmd E f s) s
      else if verb = ''DERIVE'' then handle_derive E f s
      else if verb = ''INVOKE'' then handle_invoke E f s
      else if verb = ''REVOKE'' then
        need f 1 (''REVOKE '' @ U [0x7F3A]
          @ '' ref'') (\<lambda>r. reply_as E (\<lambda>_. ok_reply [] []) (revoke E r s)) s
      else if verb = ''CONSENT_APPROVE'' then
        handle_consent_settle E pol (''CONSENT_APPROVE '' @ U [0x7F3A]
          @ '' id'') (consent_approve E) f s
      else if verb = ''CONSENT_DENY'' then
        handle_consent_settle E pol (''CONSENT_DENY '' @ U [0x7F3A] @ '' id'') (consent_deny E) f s
      else if verb = ''CONSENT_DESCRIBE'' then handle_consent_describe E pol f s
      else if verb = ''CONSENT_LIST'' then handle_consent_list pol s
      else if verb = ''DESCRIBE'' then
        need f 1 (U [0x7F3A] @ '' ref'') (\<lambda>r. reply_as E (ok_reply [])
          (map_option (\<lambda>d. (d, s)) (describe (ses s) r))) s
      else if verb = ''AUDIT'' then handle_audit s
      else Some (Inl ((U [0x672A, 0x77E5] @ '' verb '') @ verb), s))"

definition CONSENT_REQUIRED :: string where
  "CONSENT_REQUIRED = ''__CONSENT__''"

definition reply_text :: "string + string \<Rightarrow> string" where
  "reply_text r = (case r of
     Inr t \<Rightarrow> t
   | Inl e \<Rightarrow> if prefix CONSENT_REQUIRED e then ''CONSENT'' @ drop (length CONSENT_REQUIRED) e
             else ''ERR'' @ [tab] @ e)"

definition handle :: "'w env \<Rightarrow> policy \<Rightarrow> string \<Rightarrow> 'w sys \<Rightarrow> (string \<times> 'w sys) option" where
  "handle E pol body s =
     map_option (\<lambda>(r, s'). (reply_text r, s')) (handle_verb E pol (split_on tab body) s)"

end
