(* ===== verification/Authority.thy ===== *)
theory Authority
  imports Proto Session_Data
begin

text \<open>
  What the wire can do to a session. Every request is a sequence of the primitive changes, and a
  guest's request is one without minting; the invariants and the lineage of capabilities then give
  what a peer can and cannot obtain.
\<close>

section \<open>Requests as primitive changes\<close>

lemma keeps_reply: "keeps P m \<Longrightarrow> keeps P (reply_as E g m)"
  unfolding reply_as_def by (rule keeps_map)

lemma keeps_fresh: "keeps P m \<Longrightarrow> keeps P (fresh_cap m)"
  unfolding fresh_cap_def by (rule keeps_map)

lemma keeps_need: "P s \<Longrightarrow> (\<And>x. keeps P (k x)) \<Longrightarrow> keeps P (need f i err k s)"
  unfolding need_def by (simp add: keeps_Some split: option.split)

lemma keeps_deny_guest:
  "P s \<Longrightarrow> (po_role pol \<noteq> Guest \<Longrightarrow> keeps P k) \<Longrightarrow> keeps P (deny_guest_mint pol verb k s)"
  unfolding deny_guest_mint_def by (simp add: keeps_Some)

lemmas wire_vc = keeps_reply keeps_need keeps_if keeps_option keeps_let evolves_refl
lemmas op_evolves = derive_sub_evolves derive_readonly_evolves derive_msg_prefix_evolves
  derive_msg_oneshot_evolves read_evolves list_op_evolves exec_evolves http_get_evolves send_evolves
  post_evolves post_from_evolves mailbox_read_evolves revoke_evolves

lemma handle_derive_evolves: "keeps (evolves E mint s) (handle_derive E f s)"
  unfolding handle_derive_def by (intro wire_vc op_evolves) (simp add: keeps_Some)

lemma handle_invoke_evolves: "keeps (evolves E mint s) (handle_invoke E f s)"
  unfolding handle_invoke_def by (intro wire_vc op_evolves) (simp add: keeps_Some)

lemma handle_mint_evolves:
  "keeps (evolves E True s) (handle_grant_dir E f s)"
  "keeps (evolves E True s) (handle_grant_sink E f s)"
  "keeps (evolves E True s) (handle_grant_http E f s)"
  "keeps (evolves E True s) (handle_grant_msg E f s)"
  "keeps (evolves E True s) (handle_grant_cmd E f s)"
  unfolding handle_grant_dir_def handle_grant_sink_def handle_grant_http_def handle_grant_msg_def
    handle_grant_cmd_def
  by (intro wire_vc keeps_fresh grant_dir_evolves grant_sink_evolves grant_http_evolves
      grant_message_evolves grant_command_evolves; simp add: keeps_Some)+

lemma handle_settle_evolves:
  "(\<And>i. evolves E True s (snd (opn i s))) \<Longrightarrow> po_role pol \<noteq> Guest \<longrightarrow> mint \<Longrightarrow>
     keeps (evolves E mint s) (handle_consent_settle E pol missing opn f s)"
  unfolding handle_consent_settle_def
  by (cases mint) (auto intro!: wire_vc keeps_Some)

lemma keeps_same: "P s \<Longrightarrow> keeps P (map_option (\<lambda>r. (r, s)) m)"
  by (cases m) (auto simp: keeps_def)

lemma handle_view_evolves:
  "keeps (evolves E mint s) (handle_consent_describe E pol f s)"
  "keeps (evolves E mint s) (handle_consent_list pol s)"
  "keeps (evolves E mint s) (handle_audit s)"
  unfolding handle_consent_describe_def handle_consent_list_def handle_audit_def
  by (auto intro!: wire_vc keeps_Some keeps_bind)

lemma keeps_either: "keeps P m \<Longrightarrow> keeps P n \<Longrightarrow> keeps P (if b then m else n)"
  by simp

lemma handle_verb_evolves:
  "keeps (evolves E (po_role pol \<noteq> Guest) s) (handle_verb E pol f s)"
proof -
  have boot: "keeps (evolves E mint s) (Some (take_bootstrap s))" for mint
    by (rule keeps_Some) (rule take_bootstrap_evolves)
  have approve: "evolves E True s (snd (consent_approve E i s))"
    and deny: "evolves E True s (snd (consent_deny E i s))" for i
    by (simp_all add: consent_approve_def consent_deny_def approve_def deny_def consent_settle_evolves)
  have mint: "keeps (evolves E (po_role pol \<noteq> Guest) s) (deny_guest_mint pol verb k s)"
    if "keeps (evolves E True s) k" for verb k
    using that by (auto intro!: keeps_deny_guest)
  show ?thesis
    unfolding handle_verb_def Let_def
    by (intro keeps_either mint handle_mint_evolves handle_derive_evolves handle_invoke_evolves
        keeps_reply keeps_need boot revoke_evolves handle_settle_evolves approve deny impI
        handle_view_evolves keeps_same evolves_refl)
      (assumption | rule keeps_Some | simp)+
qed

lemma handle_evolves: "handle E pol body s = Some (reply, s') \<Longrightarrow> evolves E (po_role pol \<noteq> Guest) s s'"
  using keepsD [OF handle_verb_evolves] by (auto simp: handle_def)

section \<open>A served session\<close>

text \<open>
  What becomes of a session between two moments: frames are handled, and in between the other
  sessions of the service use what they share with it, the ledger, the sink and its files, the
  entropy source, the world.
\<close>

inductive served :: "'w env \<Rightarrow> policy \<Rightarrow> 'w sys \<Rightarrow> 'w sys \<Rightarrow> bool" for E pol where
  served_refl: "served E pol s s"
| served_frame: "served E pol s s1 \<Longrightarrow> handle E pol payload s1 = Some (reply, s2) \<Longrightarrow> served E pol s s2"
| served_others: "served E pol s s1 \<Longrightarrow> ses s2 = ses s1 \<Longrightarrow> rng s1 \<le> rng s2 \<Longrightarrow> served E pol s s2"

lemma served_rng: "served E pol s s' \<Longrightarrow> rng s \<le> rng s'"
  by (induction rule: served.induct) (auto dest!: handle_evolves evolves_rng)

text \<open>A property of sessions that primitive changes keep is kept while a session is served.\<close>

lemma served_keeps:
  assumes served: "served E pol s s'" and start: "P s"
    and step: "\<And>t u. P t \<Longrightarrow> evolves E (po_role pol \<noteq> Guest) t u \<Longrightarrow> draws_distinct E (rng u) \<Longrightarrow> P u"
    and others: "\<And>t u. P t \<Longrightarrow> ses u = ses t \<Longrightarrow> rng t \<le> rng u \<Longrightarrow> P u"
    and draws: "draws_distinct E (rng s')"
  shows "P s'"
  using served start draws
proof (induction rule: served.induct)
  case (served_frame s s1 payload reply s2)
  have ev: "evolves E (po_role pol \<noteq> Guest) s1 s2" by (rule handle_evolves [OF served_frame.hyps(2)])
  then have "draws_distinct E (rng s1)" using draws_distinct_le [OF served_frame.prems(2) evolves_rng] by blast
  then show ?case using step ev served_frame by blast
next
  case (served_others s s1 s2)
  then show ?case using others draws_distinct_le by blast
qed blast

text \<open>Only a capability for HTTP has an origin.\<close>

definition http_kinds :: "(string \<rightharpoonup> cap) \<Rightarrow> bool" where
  "http_kinds m \<longleftrightarrow> (\<forall>r c. m r = Some c \<longrightarrow> c_http c \<noteq> None \<longrightarrow> c_kind c = Http)"

lemma prim_http_kinds: "prim E mint s s' \<Longrightarrow> http_kinds (cap_at s) \<Longrightarrow> http_kinds (cap_at s')"
proof (induction rule: prim.induct)
  case (p_mint s h s1 c)
  then show ?case unfolding http_kinds_def insert_at [OF p_mint.hyps(2)] by auto
next
  case (p_derive s h s1 c r pc)
  then show ?case unfolding http_kinds_def insert_at [OF p_derive.hyps(1)] by (auto dest: derived_plain)
next
  case (p_revoke s r)
  have "c_http c \<noteq> None \<longrightarrow> c_kind c = Http" if "map_of (revoke_entry r (s_caps (ses s))) x = Some c" for x c
    using that p_revoke unfolding http_kinds_def
    by (cases "cap_at s r") (auto simp: map_of_revoke_entry split: if_splits)
  then show ?case by (simp add: http_kinds_def)
qed (auto simp: draw_caps)

lemma evolves_http_kinds: "evolves E mint s s' \<Longrightarrow> http_kinds (cap_at s) \<Longrightarrow> http_kinds (cap_at s')"
  by (induction rule: rtranclp_induct) (auto dest: prim_http_kinds)

definition conn_inv :: "'w env \<Rightarrow> 'w sys \<Rightarrow> bool" where
  "conn_inv E s \<longleftrightarrow> table_inv E s \<and> lineage_inv E (cap_at s) \<and> mail_inv E s \<and> mail_clean (ses s)
     \<and> http_kinds (cap_at s) \<and> verify_audit (ses s)"

lemma active_alive: "conn_inv E s \<Longrightarrow> is_active (s_caps (ses s)) r = Some (alive (cap_at s) r)"
  by (simp add: conn_inv_def table_inv_def caps_ok_active)

lemma conn_inv_new: "new_session E s0 = Some s \<Longrightarrow> conn_inv E s"
  by (auto simp: new_session_def bind_eq_Some_conv conn_inv_def blank_session_def table_inv_def
      caps_drawn_def lineage_inv_def mail_inv_def mail_clean_def verify_audit_def http_kinds_def)

lemma evolves_mail_inv:
  "evolves E mint s s' \<Longrightarrow> mail_inv E s \<Longrightarrow> draws_distinct E (rng s') \<Longrightarrow> mail_inv E s' \<and> mail_grows s s'"
proof (induction rule: rtranclp_induct)
  case (step t u)
  have "draws_distinct E (rng t)" using step draws_distinct_le prim_rng by blast
  then show ?case using step prim_mail_inv prim_mail_grows mail_grows_trans by blast
qed simp

lemma evolves_conn_inv:
  "evolves E mint s s' \<Longrightarrow> conn_inv E s \<Longrightarrow> draws_distinct E (rng s') \<Longrightarrow> conn_inv E s'"
  using evolves_inv [of E mint s s'] evolves_mail_inv [of E mint s s'] evolves_mail_clean [of E mint s s']
    evolves_audit_kept [of E mint s s'] evolves_http_kinds [of E mint s s']
  unfolding conn_inv_def by blast

lemma conn_inv_others: "conn_inv E s \<Longrightarrow> ses s' = ses s \<Longrightarrow> rng s \<le> rng s' \<Longrightarrow> conn_inv E s'"
  using drawn_le [of E "rng s" _ "rng s'"] table_inv_cong [of s' s E]
  unfolding conn_inv_def mail_inv_def by auto

lemma served_conn_inv:
  "served E pol s s' \<Longrightarrow> conn_inv E s \<Longrightarrow> draws_distinct E (rng s') \<Longrightarrow> conn_inv E s'"
  by (erule served_keeps) (auto intro: evolves_conn_inv conn_inv_others)

lemma served_trail:
  "served E pol s s' \<Longrightarrow> prefix (s_audit (ses s)) (s_audit (ses s'))
     \<and> (verify_audit (ses s) \<longrightarrow> verify_audit (ses s'))"
proof (induction rule: served.induct)
  case (served_frame s s1 payload reply s2)
  then show ?case
    using evolves_audit_kept [OF handle_evolves [OF served_frame.hyps(2)]]
    by (auto intro: prefix_order.trans)
qed auto

lemma served_grows:
  assumes "served E pol s s'" "conn_inv E s" "draws_distinct E (rng s')"
  shows "grows (cap_at s) (cap_at s')"
proof -
  have "conn_inv E s' \<and> grows (cap_at s) (cap_at s')"
    using assms(1)
  proof (rule served_keeps [where P = "\<lambda>t. conn_inv E t \<and> grows (cap_at s) (cap_at t)"])
    fix t u
    assume t: "conn_inv E t \<and> grows (cap_at s) (cap_at t)"
      and ev: "evolves E (po_role pol \<noteq> Guest) t u" "draws_distinct E (rng u)"
    have "grows (cap_at t) (cap_at u)" using evolves_grows ev t by (auto simp: conn_inv_def)
    then show "conn_inv E u \<and> grows (cap_at s) (cap_at u)"
      using t evolves_conn_inv ev grows_trans by blast
  qed (use assms conn_inv_others in auto)
  then show ?thesis ..
qed

section \<open>Guests do not mint\<close>

lemma served_guest_back:
  assumes "served E pol s s'" "po_role pol = Guest" "conn_inv E s" "draws_distinct E (rng s')"
    and "alive (cap_at s') x"
  shows "\<exists>y. alive (cap_at s) y \<and> (y, x) \<in> (parent_rel (cap_at s'))\<^sup>*"
  using assms
proof (induction arbitrary: x rule: served.induct)
  case (served_frame s s1 payload reply s2)
  have ev: "evolves E False s1 s2" using handle_evolves [OF served_frame.hyps(2)] served_frame.prems(1) by simp
  have d: "draws_distinct E (rng s1)" using draws_distinct_le [OF served_frame.prems(3) evolves_rng [OF ev]] .
  have inv: "conn_inv E s1" by (rule served_conn_inv [OF served_frame.hyps(1) served_frame.prems(2) d])
  then have tab: "table_inv E s1" by (simp add: conn_inv_def)
  obtain y where y: "alive (cap_at s1) y" "(y, x) \<in> (parent_rel (cap_at s2))\<^sup>*"
    using evolves_alive_back [OF ev tab served_frame.prems(3,4)] by blast
  obtain z where z: "alive (cap_at s) z" "(z, y) \<in> (parent_rel (cap_at s1))\<^sup>*"
    using served_frame.IH [OF served_frame.prems(1,2) d y(1)] by blast
  have "parent_rel (cap_at s1) \<subseteq> parent_rel (cap_at s2)"
    by (rule grows_parent_rel [OF evolves_grows [OF ev tab served_frame.prems(3)]])
  then have "(z, y) \<in> (parent_rel (cap_at s2))\<^sup>*" using z(2) rtrancl_mono by blast
  then show ?case using z(1) y(2) by (meson rtrancl_trans)
next
  case (served_others s s1 s2)
  then have "draws_distinct E (rng s1)" using draws_distinct_le by blast
  then show ?case using served_others by auto
qed blast

section \<open>A session to try things on\<close>

definition low_bytes :: string where
  "low_bytes = concat (replicate 15 (hex_fixed 2 0))"

definition demo_hex :: string where
  "demo_hex = low_bytes @ hex_fixed 2 0"

definition demo_cap :: cap where
  "demo_cap = (blank_cap (cap_of_hex demo_hex) Dir)\<lparr>c_root := ''/srv/ws'', c_ops := [Read, List],
     c_taint := Project, c_dir_fd := Some 3\<rparr>"

definition demo_sys :: "unit sys" where
  "demo_sys = \<lparr>ses = (blank_session ''key'')\<lparr>s_caps := [(cap_of_hex demo_hex, demo_cap)]\<rparr>,
     sink = demo_sink, disk = demo_disk, ledger = new_ledger, rng = 1, world = ()\<rparr>"

definition demo_guest :: policy where
  "demo_guest = policy_guest ''/srv/ws''"

lemma quiet_draw: "rand_hex quiet_env i 16 = Some (low_bytes @ hex_fixed 2 (i mod 256))"
proof -
  have "map (\<lambda>b :: byte. hex_fixed 2 (unat b)) (replicate (16 - 1) 0) = replicate 15 (hex_fixed 2 0)" by simp
  then show ?thesis
    by (simp add: rand_hex_def quiet_env_def low_bytes_def unat_of_nat take_bit_eq_mod del: hex_fixed.simps)
qed

lemma quiet_draws_distinct: "n \<le> 256 \<Longrightarrow> draws_distinct quiet_env n"
  unfolding draws_distinct_def quiet_draw
  using hex_fixed_inject [of _ 2] by (auto simp del: hex_fixed.simps)

lemma quiet_draw_0: "rand_hex quiet_env 0 16 = Some demo_hex"
  unfolding quiet_draw demo_hex_def mod_0 ..

lemma demo_sys_sel [simp]:
  "s_caps (ses demo_sys) = [(cap_of_hex demo_hex, demo_cap)]" "s_mailboxes (ses demo_sys) = []"
  "s_audit (ses demo_sys) = []" "rng demo_sys = 1" "s_audit_broken (ses demo_sys) = False"
  "s_sink (ses demo_sys) = False" "s_reduced (ses demo_sys) = False"
  by (simp_all add: demo_sys_def blank_session_def)

lemma demo_cap_sel [simp]:
  "c_id demo_cap = cap_of_hex demo_hex" "c_parent demo_cap = None" "c_msg demo_cap = None"
  "\<not> c_revoked demo_cap" "c_kind demo_cap = Dir" "c_dir_fd demo_cap = Some 3"
  "c_ops demo_cap = [Read, List]"
  by (simp_all add: demo_cap_def)

lemma demo_conn_inv: "conn_inv quiet_env demo_sys"
proof -
  have "drawn quiet_env 1 demo_hex" using quiet_draw_0 by (auto simp: drawn_def)
  moreover have "caps_ok [(cap_of_hex demo_hex, demo_cap)]"
    by (auto simp: caps_ok_def table_ok_def parent_rel_def split: if_splits)
  ultimately show ?thesis
    by (auto simp: conn_inv_def table_inv_def caps_drawn_def lineage_inv_def mail_inv_def mail_clean_def
        verify_audit_def http_kinds_def demo_cap_def blank_cap_def split: if_splits)
qed

lemma demo_alive: "alive (cap_at demo_sys) (cap_of_hex demo_hex)"
  by (rule alive_root [where c = demo_cap]) simp_all

lemma list_all_concat: "(\<forall>x \<in> set xs. list_all P x) \<Longrightarrow> list_all P (concat xs)"
  by (induction xs) auto

lemma rand_hex_digits: "rand_hex E i n = Some h \<Longrightarrow> list_all is_hex_digit h"
  by (auto simp: rand_hex_def hex_fixed_hex intro!: list_all_concat)

lemma cap_id_ascii:
  assumes "list_all is_hex_digit h" shows "is_ascii (cap_of_hex h)" "tab \<notin> set (cap_of_hex h)"
  using is_hex_ascii [OF assms] is_hex_no assms
  by (auto simp: cap_of_hex_def is_ascii_Cons list_all_iff)

lemma short_ascii: "is_ascii r \<Longrightarrow> short r \<noteq> None"
  using is_ascii_slice [of r 14] by (simp add: short_def)

definition demo_child :: cap where
  "demo_child = (blank_cap (cap_of_hex (low_bytes @ hex_fixed 2 1)) Dir)\<lparr>c_root := ''/srv/ws'',
     c_ops := [Read, List], c_taint := Project, c_dir_fd := Some 3, c_parent := Some (cap_of_hex demo_hex)\<rparr>"

definition demo_frame :: string where
  "demo_frame = join [tab] [''DERIVE'', cap_of_hex demo_hex, ''readonly'']"

lemma demo_fields: "split_on tab demo_frame = [''DERIVE'', cap_of_hex demo_hex, ''readonly'']"
  unfolding demo_frame_def
  by (rule split_on_join) (use cap_id_ascii(2) [OF rand_hex_digits [OF quiet_draw_0]] in auto)

lemma demo_derives:
  "\<exists>t. derive_readonly quiet_env (cap_of_hex demo_hex) demo_sys = Some (Inr (c_id demo_child), t)
     \<and> rng t = 2 \<and> s_caps (ses t) = AList.update (c_id demo_child) demo_child (s_caps (ses demo_sys))"
proof -
  let ?r = "cap_of_hex demo_hex" and ?h = "low_bytes @ hex_fixed 2 1"
  have active: "get_active (ses demo_sys) ?r = Some (Inr demo_cap)"
    using demo_alive demo_conn_inv caps_ok_active
    by (simp add: get_active_Inr conn_inv_def table_inv_def)
  have "rand_hex quiet_env 1 16 = Some ?h" by (simp add: quiet_draw)
  then have draw: "draw quiet_env demo_sys = Some (?h, demo_sys\<lparr>rng := 2\<rparr>)"
    and asc: "is_ascii (cap_of_hex ?h)" "is_ascii ?r"
    using cap_id_ascii(1) [OF rand_hex_digits] quiet_draw_0 by (auto simp: draw_Some)
  obtain x y where "short (cap_of_hex ?h) = Some x" "short ?r = Some y"
    using short_ascii [OF asc(1)] short_ascii [OF asc(2)] by auto
  moreover have "demo_child = (blank_cap (cap_of_hex ?h) (c_kind demo_cap))\<lparr>c_root := c_root demo_cap,
      c_ops := [Read, List], c_taint := c_taint demo_cap, c_dir_fd := c_dir_fd demo_cap, c_parent := Some ?r\<rparr>"
    by (simp add: demo_child_def demo_cap_def)
  moreover have "c_id demo_child = cap_of_hex ?h" by (simp add: demo_child_def)
  ultimately show ?thesis
    by (simp add: derive_readonly_def active draw Let_def del: AList.update.simps map_of_update)
qed

lemma demo_served:
  "\<exists>t. served quiet_env demo_guest demo_sys t \<and> rng t = 2
     \<and> s_caps (ses t) = AList.update (c_id demo_child) demo_child (s_caps (ses demo_sys))"
proof -
  obtain t where t: "derive_readonly quiet_env (cap_of_hex demo_hex) demo_sys = Some (Inr (c_id demo_child), t)"
    "rng t = 2" "s_caps (ses t) = AList.update (c_id demo_child) demo_child (s_caps (ses demo_sys))"
    using demo_derives by blast
  have "handle_derive quiet_env (split_on tab demo_frame) demo_sys = Some (Inr (cap_reply (c_id demo_child)), t)"
    unfolding demo_fields handle_derive_def need_def by (simp add: nth_opt_def reply_as_def t(1))
  then have "handle_verb quiet_env demo_guest (split_on tab demo_frame) demo_sys
      = Some (Inr (cap_reply (c_id demo_child)), t)"
    by (simp add: handle_verb_def demo_fields)
  then have "handle quiet_env demo_guest demo_frame demo_sys = Some (cap_reply (c_id demo_child), t)"
    by (simp add: handle_def reply_text_def)
  then have "served quiet_env demo_guest demo_sys t" by (rule served_frame [OF served_refl])
  with t show ?thesis by blast
qed

lemma demo_child_served:
  "\<exists>t. served quiet_env demo_guest demo_sys t \<and> conn_inv quiet_env t \<and> rng t = 2
     \<and> is_active (s_caps (ses t)) (c_id demo_child) = Some True
     \<and> cap_at t = (cap_at demo_sys)(c_id demo_child \<mapsto> demo_child)"
proof -
  obtain t where t: "served quiet_env demo_guest demo_sys t" "rng t = 2"
    "s_caps (ses t) = AList.update (c_id demo_child) demo_child (s_caps (ses demo_sys))"
    using demo_served by blast
  have "draws_distinct quiet_env (rng t)" using t(2) quiet_draws_distinct by simp
  then have inv: "conn_inv quiet_env t" using served_conn_inv [OF t(1) demo_conn_inv] by blast
  have new: "cap_of_hex (low_bytes @ hex_fixed 2 1) \<noteq> cap_of_hex demo_hex"
    unfolding demo_hex_def using hex_fixed_inject [of 1 2 0] by (auto simp del: hex_fixed.simps)
  have at: "cap_at t = (cap_at demo_sys)(c_id demo_child \<mapsto> demo_child)"
    unfolding t(3) map_of_update ..
  have c: "cap_at t (c_id demo_child) = Some demo_child" by (simp add: at)
  have r: "cap_at t (cap_of_hex demo_hex) = Some demo_cap" using new by (simp add: at demo_child_def)
  have "alive (cap_at t) (cap_of_hex demo_hex)" by (rule alive_root [where c = demo_cap], rule r) simp_all
  then have "alive (cap_at t) (c_id demo_child)"
    using alive.alive_child [of "cap_at t" "c_id demo_child" demo_child] c by (simp add: demo_child_def)
  then show ?thesis using t inv at active_alive [OF inv] by auto
qed

section \<open>Properties\<close>

text \<open>
  C1: A guest cannot create authority. Whatever frames a guest sends, and whatever other sessions
  do in between, every capability the code finds active afterwards descends from one it found active
  before, which is unchanged but for its revocation flag, and what it has comes from there: a
  directory at or below the ancestor's without a \<open>..\<close>, a descriptor opened step by step below the
  ancestor's and with its taint, the ancestor's mailbox with at least its subject prefix, no other
  origin and no other command. Its operations are the ancestor's or none, or they are \<open>Read\<close> and
  \<open>List\<close> and a read-only child was derived on the way: that derivation grants the two whatever the
  parent had, and it is the only way to an operation the ancestor did not have.
\<close>

theorem guest_authority_descends:
  assumes "served E pol s s'" "po_role pol = Guest" "conn_inv E s" "draws_distinct E (rng s')"
    and "is_active (s_caps (ses s')) x = Some True"
  shows "\<exists>r a b. is_active (s_caps (ses s)) r = Some True \<and> cap_at s r = Some a \<and> cap_at s' r = Some b
    \<and> same_cap a b \<and> authority_from E (cap_at s') r x"
proof -
  have inv: "conn_inv E s'" using served_conn_inv assms(1,3,4) by blast
  have "alive (cap_at s') x" using is_active_sound [OF assms(5)] by simp
  then obtain r c where r: "alive (cap_at s) r" "(r, x) \<in> (parent_rel (cap_at s'))\<^sup>*" "cap_at s' x = Some c"
    using served_guest_back [OF assms(1-4)] alive_known by meson
  have "table_ok (cap_at s')" "lineage_inv E (cap_at s')"
    using inv by (simp_all add: conn_inv_def table_inv_def caps_ok_def)
  then have "authority_from E (cap_at s') r x" using descendant_authority [OF r(2) _ _ r(3)] by blast
  moreover obtain a where "cap_at s r = Some a" using alive_known [OF r(1)] by blast
  moreover have "is_active (s_caps (ses s)) r = Some True" using active_alive [OF assms(3)] r(1) by simp
  ultimately show ?thesis using served_grows [OF assms(1,3,4)] unfolding grows_def by blast
qed

lemma guest_authority_descends_witness:
  "\<exists>t r. served quiet_env demo_guest demo_sys t \<and> is_active (s_caps (ses t)) (c_id demo_child) = Some True
     \<and> is_active (s_caps (ses demo_sys)) r = Some True \<and> authority_from quiet_env (cap_at t) r (c_id demo_child)"
proof -
  obtain t where t: "served quiet_env demo_guest demo_sys t" "conn_inv quiet_env t" "rng t = 2"
    "is_active (s_caps (ses t)) (c_id demo_child) = Some True"
    using demo_child_served by blast
  have d: "draws_distinct quiet_env (rng t)" using t(3) quiet_draws_distinct by simp
  from guest_authority_descends [OF t(1) _ demo_conn_inv d t(4)] t(1,4) show ?thesis
    by (auto simp: demo_guest_def policy_guest_def)
qed

text \<open>
  C3: Revocation cascades and is final. Revoking a known capability leaves active exactly the
  capabilities that were active and do not descend from it; and however the session is served
  afterwards, the code finds nothing active that descends from it, then or later, and no lookup of
  such a reference gives its capability.
\<close>

theorem revocation_cascades:
  assumes "revoke E r s = Some (res, s1)" "conn_inv E s" "cap_at s r \<noteq> None"
    and "served E pol s1 s2" "draws_distinct E (rng s2)"
  shows "(is_active (s_caps (ses s1)) x = Some True \<longleftrightarrow>
       is_active (s_caps (ses s)) x = Some True \<and> (r, x) \<notin> (parent_rel (cap_at s))\<^sup>*)
    \<and> ((r, y) \<in> (parent_rel (cap_at s2))\<^sup>* \<longrightarrow>
         is_active (s_caps (ses s2)) y = Some False \<and> (\<forall>c. get_active (ses s2) y \<noteq> Some (Inr c)))"
proof -
  have caps: "s_caps (ses s1) = revoke_entry r (s_caps (ses s))"
    using assms(1) by (auto simp: revoke_def bind_eq_Some_conv Let_def)
  have now: "alive (cap_at s1) z \<longleftrightarrow> alive (cap_at s) z \<and> (r, z) \<notin> (parent_rel (cap_at s))\<^sup>*" for z
    unfolding caps alive_revoke_entry using assms(3) by blast
  have ev: "evolves E True s s1" using keepsD [OF revoke_evolves assms(1)] .
  have "rng s1 \<le> rng s2" using served_rng [OF assms(4)] .
  then have inv: "conn_inv E s1" using evolves_conn_inv [OF ev assms(2)] draws_distinct_le [OF assms(5)] by blast
  then have g: "grows (cap_at s1) (cap_at s2)" and ok: "table_ok (cap_at s1)"
    using served_grows [OF assms(4) _ assms(5)] by (auto simp: conn_inv_def table_inv_def caps_ok_def)
  have inv2: "conn_inv E s2" using served_conn_inv [OF assms(4) inv assms(5)] .
  have "cap_at s1 r \<noteq> None" unfolding caps map_of_revoke_entry using assms(3) by (auto split: option.split)
  then have "\<not> alive (cap_at s2) r" using grows_alive [OF _ g ok] now by blast
  then have dead: "is_active (s_caps (ses s2)) y = Some False" if "(r, y) \<in> (parent_rel (cap_at s2))\<^sup>*"
    using active_alive [OF inv2] alive_ancestor [OF that] by auto
  then have "\<forall>c. get_active (ses s2) y \<noteq> Some (Inr c)" if "(r, y) \<in> (parent_rel (cap_at s2))\<^sup>*"
    using that by (auto simp: get_active_Inr)
  then show ?thesis using now dead by (simp add: active_alive [OF inv] active_alive [OF assms(2)])
qed

lemma revocation_cascades_witness:
  "\<exists>res t u. served quiet_env demo_guest demo_sys t \<and> is_active (s_caps (ses t)) (c_id demo_child) = Some True
     \<and> revoke quiet_env (cap_of_hex demo_hex) t = Some (res, u)
     \<and> is_active (s_caps (ses u)) (c_id demo_child) = Some False"
proof -
  obtain t where t: "served quiet_env demo_guest demo_sys t" "conn_inv quiet_env t" "rng t = 2"
    "is_active (s_caps (ses t)) (c_id demo_child) = Some True"
    "cap_at t = (cap_at demo_sys)(c_id demo_child \<mapsto> demo_child)"
    using demo_child_served by blast
  have "short (cap_of_hex demo_hex) \<noteq> None"
    by (rule short_ascii, rule cap_id_ascii(1), rule rand_hex_digits, rule quiet_draw_0)
  then obtain res u where u: "revoke quiet_env (cap_of_hex demo_hex) t = Some (res, u)" "rng u = 2"
    and caps: "s_caps (ses u) = revoke_entry (cap_of_hex demo_hex) (s_caps (ses t))"
    using t(3) by (auto simp: revoke_def Let_def)
  have d: "draws_distinct quiet_env (rng u)" using u(2) quiet_draws_distinct by simp
  have known: "cap_at t (cap_of_hex demo_hex) \<noteq> None" by (simp add: t(5))
  have "(cap_of_hex demo_hex, c_id demo_child) \<in> parent_rel (cap_at t)"
    unfolding t(5) parent_rel_def by (simp add: demo_child_def)
  then have "(cap_of_hex demo_hex, c_id demo_child) \<in> (parent_rel (cap_at u))\<^sup>*"
    unfolding caps parent_rel_revoke by blast
  then have "is_active (s_caps (ses u)) (c_id demo_child) = Some False"
    using revocation_cascades [where pol = demo_guest and y = "c_id demo_child", OF u(1) t(2) known served_refl d]
    by blast
  with t(1,4) u(1) show ?thesis by blast
qed

text \<open>
  C7: The session's invariant. A session starts with it, and every frame of a guest or of the
  control plane keeps it, whatever other sessions do in between: a table without cycles or
  dangling parents, each child derived from its parent, names from the entropy source, a mailbox
  for every facet, origins for HTTP capabilities alone, mailboxes without secrets, an audit chain that verifies.
\<close>

theorem session_invariant:
  "(new_session E s0 = Some s \<longrightarrow> conn_inv E s)
   \<and> (conn_inv E s \<longrightarrow> served E pol s s' \<longrightarrow> draws_distinct E (rng s') \<longrightarrow> conn_inv E s')"
  using conn_inv_new served_conn_inv by blast

lemma session_invariant_witness:
  "\<exists>t. served quiet_env demo_guest demo_sys t \<and> rng t = 2 \<and> conn_inv quiet_env t"
proof -
  obtain t where t: "served quiet_env demo_guest demo_sys t" "rng t = 2" using demo_served by blast
  have "draws_distinct quiet_env (rng t)" using t(2) quiet_draws_distinct by simp
  with session_invariant [of quiet_env demo_sys demo_sys demo_guest t] demo_conn_inv t show ?thesis by blast
qed

text \<open>
  C8: The session's audit is a hash chain that only grows and always verifies: what it held is a
  prefix of what it holds later, and of two verifying audits of one length that end in the same
  hash the entries hash the same texts, unless two of those texts collide under SHA-256.
\<close>

theorem session_audit_chain:
  assumes "served E pol s s'" "verify_audit (ses s)"
  shows "verify_audit (ses s') \<and> prefix (s_audit (ses s)) (s_audit (ses s'))
    \<and> (\<forall>other. verify_audit other \<longrightarrow> length (s_audit other) = length (s_audit (ses s')) \<longrightarrow>
         head_of ev_hash genesis (s_audit other) = head_of ev_hash genesis (s_audit (ses s')) \<longrightarrow>
         map ev_text (s_audit other) = map ev_text (s_audit (ses s'))
         \<or> (\<exists>a \<in> ev_text ` set (s_audit other). \<exists>b \<in> ev_text ` set (s_audit (ses s')).
              a \<noteq> b \<and> sha256_hex (as_bytes a) = sha256_hex (as_bytes b)))"
proof -
  have v: "verify_audit (ses s')" "prefix (s_audit (ses s)) (s_audit (ses s'))"
    using served_trail [OF assms(1)] assms(2) by auto
  then show ?thesis
    using trail.chain_contents [OF _ _ no_bar_genesis] unfolding verify_audit_chain by blast
qed

lemma session_audit_chain_witness:
  "\<exists>t. served quiet_env demo_guest demo_sys t \<and> rng t = 2 \<and> verify_audit (ses t)"
proof -
  obtain t where t: "served quiet_env demo_guest demo_sys t" "rng t = 2" using demo_served by blast
  have "verify_audit (ses demo_sys)" using demo_conn_inv by (simp add: conn_inv_def)
  with session_audit_chain [OF t(1)] t show ?thesis by blast
qed

end
