(* ===== verification/Effects.thy ===== *)
theory Effects
  imports Authority
begin

text \<open>
  The effects outside a session and what has to precede them: the gate, the record of the intent,
  an active capability that allows the call. That a thing was not done is stated as
  non-interference: replacing the host's function by any other makes no difference.
\<close>

section \<open>What the gate leaves alone\<close>

lemma gate_frame [frame_simps]:
  "s_caps (ses (snd (gate E verb sig hint detail s))) = s_caps (ses s)"
  "s_mailboxes (ses (snd (gate E verb sig hint detail s))) = s_mailboxes (ses s)"
  "s_key (ses (snd (gate E verb sig hint detail s))) = s_key (ses s)"
  "s_exec_policy (ses (snd (gate E verb sig hint detail s))) = s_exec_policy (ses s)"
  "s_audit_broken (ses s) \<Longrightarrow> s_audit_broken (ses (snd (gate E verb sig hint detail s)))"
  by (simp_all add: gate_def audit_broken split: decision.split prod.split consent_outcome.split)

lemma gated_Inr:
  "gated E verb sig hint detail iop rop d err effect s = Some (Inr v, s') \<longleftrightarrow>
     (\<exists>s1 s2 s3. gate E verb sig hint detail s = (Inr (), s1) \<and> audit E iop d ''attempt'' s1 = (True, s2)
        \<and> effect s2 = Some (Inr v, s3) \<and> s' = snd (audit E rop d ''allow'' s3))"
proof -
  obtain g s1 where g: "gate E verb sig hint detail s = (g, s1)" by fastforce
  obtain ok s2 where a: "audit E iop d ''attempt'' s1 = (ok, s2)" by fastforce
  show ?thesis
    by (cases g) (auto simp: gated_def g a bind_eq_Some_conv decision_text_def)
qed

text \<open>An effect that is not reached, or gives the same result, does not matter.\<close>

lemma gated_cong:
  assumes "gate E' verb sig hint detail s = gate E verb sig hint detail s"
    and "\<And>t. audit E' iop d ''attempt'' t = audit E iop d ''attempt'' t"
    and "\<And>dec t. audit E' rop d dec t = audit E rop d dec t" "uni_escaped E' = uni_escaped E"
    and "\<And>s1 s2. gate E verb sig hint detail s = (Inr (), s1) \<Longrightarrow>
           audit E iop d ''attempt'' s1 = (True, s2) \<Longrightarrow> effect' s2 = effect s2"
  shows "gated E' verb sig hint detail iop rop d err effect' s
       = gated E verb sig hint detail iop rop d err effect s"
proof -
  obtain g s1 where g: "gate E verb sig hint detail s = (g, s1)" by fastforce
  obtain ok s2 where a: "audit E iop d ''attempt'' s1 = (ok, s2)" by fastforce
  have dec: "decision_text E' r = decision_text E r" for r :: "error + 'b"
    by (cases r) (simp_all add: decision_text_def assms(4))
  show ?thesis
    using assms(5) [of s1 s2] by (cases g; cases ok) (simp_all add: gated_def assms(1-3) g a dec)
qed

text \<open>What holds when an effect was reached: the session as it was asked.\<close>

lemma reached:
  assumes "gate E verb sig hint detail s = (Inr (), s1)" "audit E iop d ''attempt'' s1 = (True, s2)"
  shows "s_caps (ses s2) = s_caps (ses s)" "s_mailboxes (ses s2) = s_mailboxes (ses s)"
    "s_exec_policy (ses s2) = s_exec_policy (ses s)"
    "\<not> s_audit_broken (ses s2) \<Longrightarrow> \<not> s_audit_broken (ses s)"
proof -
  have s: "s1 = snd (gate E verb sig hint detail s)" "s2 = snd (audit E iop d ''attempt'' s1)"
    using assms by simp_all
  show "s_caps (ses s2) = s_caps (ses s)" "s_mailboxes (ses s2) = s_mailboxes (ses s)"
    by (simp_all add: s gate_frame)
  show "s_exec_policy (ses s2) = s_exec_policy (ses s)" by (simp add: s gate_frame)
  show "\<not> s_audit_broken (ses s2) \<Longrightarrow> \<not> s_audit_broken (ses s)"
    using gate_frame(5) [of s E verb sig hint detail] by (auto simp: s audit_broken)
qed

lemma get_active_reached:
  assumes "gate E verb sig hint detail s = (Inr (), s1)" "audit E iop d ''attempt'' s1 = (True, s2)"
    and "get_active (ses s2) r = Some (Inr c)"
  shows "get_active (ses s) r = Some (Inr c)"
  using assms(3) reached [OF assms(1,2)] by (simp add: get_active_Inr)

section \<open>Commands\<close>

lemma audit_env: "os_audit_fault E' = os_audit_fault E \<Longrightarrow> audit E' = audit E"
  by (intro ext) (simp add: audit_def Let_def)

lemma gate_env: "os_audit_fault E' = os_audit_fault E \<Longrightarrow> gate E' = gate E"
  by (drule audit_env) (intro ext, simp only: gate_def)

lemma exec_i_env:
  assumes "\<And>c fd. get_active (ses s) r = Some (Inr c) \<Longrightarrow> Exec \<in> set (c_ops c) \<Longrightarrow> c_argv c \<noteq> [] \<Longrightarrow>
    c_dir_fd c = Some fd \<Longrightarrow> False"
  shows "exec_i (E\<lparr>os_command := f\<rparr>) r s = exec_i E r s"
proof (cases "get_active (ses s) r")
  case (Some g)
  then show ?thesis
    using assms by (cases g) (auto simp: exec_i_def split: option.split)
qed (simp add: exec_i_def)

lemma exec_guarded:
  assumes "exec (E\<lparr>os_command := f\<rparr>) r s \<noteq> exec E r s"
  shows "\<exists>sr s1 s2 c fd. short r = Some sr
    \<and> gate E ''exec'' (action_sig [''exec'', r]) (approval_hint ''exec'' ''CommandCap'' sr)
        (exec_detail (ses s) r sr) s = (Inr (), s1)
    \<and> audit E ''exec.intent'' sr ''attempt'' s1 = (True, s2)
    \<and> get_active (ses s) r = Some (Inr c) \<and> Exec \<in> set (c_ops c) \<and> c_argv c \<noteq> [] \<and> c_dir_fd c = Some fd"
proof (rule ccontr)
  let ?E = "E\<lparr>os_command := f\<rparr>"
  assume none: "\<not> ?thesis"
  have "gated ?E ''exec'' (action_sig [''exec'', r]) (approval_hint ''exec'' ''CommandCap'' sr)
      (exec_detail (ses s) r sr) ''exec.intent'' ''exec.result'' sr ExecIntentFailed (exec_i ?E r) s
    = gated E ''exec'' (action_sig [''exec'', r]) (approval_hint ''exec'' ''CommandCap'' sr)
      (exec_detail (ses s) r sr) ''exec.intent'' ''exec.result'' sr ExecIntentFailed (exec_i E r) s"
    if sr: "short r = Some sr" for sr
  proof (rule gated_cong)
    fix s1 s2
    assume g: "gate E ''exec'' (action_sig [''exec'', r]) (approval_hint ''exec'' ''CommandCap'' sr)
        (exec_detail (ses s) r sr) s = (Inr (), s1)"
      and a: "audit E ''exec.intent'' sr ''attempt'' s1 = (True, s2)"
    show "exec_i ?E r s2 = exec_i E r s2"
      by (rule exec_i_env) (use none sr g a get_active_reached [OF g a] in blast)
  qed (simp_all add: gate_env [of ?E E] audit_env [of ?E E])
  then have "exec ?E r s = exec E r s"
    unfolding exec_gated by (cases "short r") simp_all
  with assms show False by simp
qed

section \<open>Network\<close>

lemma resolve_checked_Inr:
  "resolve_checked E host port w = (Inr addrs, w') \<Longrightarrow>
     addrs \<noteq> [] \<and> (\<forall>a \<in> set addrs. \<not> is_blocked_ip (sa_ip a)) \<and> ascii_lower host \<notin> set METADATA_HOSTS"
  by (auto simp: resolve_checked_def find_None_iff split: if_splits prod.splits sum.splits option.splits)

abbreviation other_net :: "(sock_addr \<Rightarrow> 'w \<Rightarrow> (string + nat) \<times> 'w) \<Rightarrow> (nat \<Rightarrow> byte list \<Rightarrow> 'w \<Rightarrow> (string + unit) \<times> 'w)
    \<Rightarrow> (nat \<Rightarrow> nat \<Rightarrow> 'w \<Rightarrow> (string + byte list) \<times> 'w) \<Rightarrow> 'w env \<Rightarrow> 'w env" where
  "other_net conn wr rd E \<equiv> E\<lparr>net_connect := conn, net_write := wr, net_read := rd\<rparr>"

text \<open>What lets a request out: the capability's origin, method and path, and an address that may be reached.\<close>

definition http_permitted :: "'w env \<Rightarrow> cap \<Rightarrow> string \<Rightarrow> 'w \<Rightarrow> bool" where
  "http_permitted E c path w \<longleftrightarrow> (\<exists>spec target addrs w'. c_http c = Some spec
     \<and> canonical_request_target path = Inr target \<and> ''GET'' \<in> set (h_methods spec)
     \<and> (\<exists>p \<in> set (h_paths spec). path_matches p (hd (split_on (CHR ''?'') target)))
     \<and> h_scheme spec = ''http''
     \<and> resolve_checked E (h_host spec) (h_port spec) w = (Inr addrs, w') \<and> addrs \<noteq> []
     \<and> (\<forall>a \<in> set addrs. \<not> is_blocked_ip (sa_ip a)))"

lemma http_get_i_env:
  assumes "\<And>c. get_active (ses s) r = Some (Inr c) \<Longrightarrow> \<not> http_permitted E c path (world s)"
  shows "http_get_i (other_net conn wr rd E) r path s = http_get_i E r path s"
proof (cases "get_active (ses s) r")
  case (Some g)
  show ?thesis
  proof (cases g)
    case (Inr c)
    have same: "resolve_checked (other_net conn wr rd E) = resolve_checked E"
      by (intro ext) (simp add: resolve_checked_def)
    let ?ok = "\<lambda>spec target. list_ex (\<lambda>m. m = ''GET'') (h_methods spec)
      \<and> list_ex (\<lambda>p. path_matches p (hd (split_on (CHR ''?'') target))) (h_paths spec) \<and> h_scheme spec = ''http''"
    have no: "False" if "c_http c = Some spec" "canonical_request_target path = Inr target"
      "?ok spec target" "resolve_checked E (h_host spec) (h_port spec) (world s) = (Inr addrs, w')"
      for spec target addrs w'
      using assms [of c] Some Inr that resolve_checked_Inr [OF that(4)]
      unfolding http_permitted_def list_ex_iff by blast
    show ?thesis
    proof (cases "c_http c")
      case spec: (Some spec)
      show ?thesis
      proof (cases "canonical_request_target path")
        case target: (Inr target)
        show ?thesis
        proof (cases "?ok spec target")
          case True
          obtain res w' where w: "resolve_checked E (h_host spec) (h_port spec) (world s) = (res, w')"
            by fastforce
          then obtain e where "res = Inl e" using no [OF spec target True] by (cases res) auto
          then show ?thesis by (simp add: http_get_i_def Some Inr spec target Let_def same w)
        next
          case False
          then show ?thesis
            by (simp add: http_get_i_def Some Inr spec target Let_def)
        qed
      qed (simp add: http_get_i_def Some Inr spec)
    qed (simp add: http_get_i_def Some Inr)
  qed (simp add: http_get_i_def Some)
qed (simp add: http_get_i_def)

lemma gate_audit_world:
  assumes "gate E verb sig hint detail s = (Inr (), s1)" "audit E iop d ''attempt'' s1 = (True, s2)"
    and "get_active (ses s2) r = Some (Inr c)"
  shows "get_active (ses s) r = Some (Inr c)"
  by (rule get_active_reached [OF assms])

lemma http_guarded:
  assumes "http_get (other_net conn wr rd E) r path s \<noteq> http_get E r path s"
  shows "\<exists>sr s1 s2 c. short r = Some sr
    \<and> gate E ''http_get'' (action_sig [''http_get'', r, path]) (approval_hint ''http_get'' ''HttpCap'' sr)
        (''HTTP GET '' @ sr @ '' path='' @ safe_display path) s = (Inr (), s1)
    \<and> audit E ''http.intent'' (sr @ '' GET '' @ path) ''attempt'' s1 = (True, s2)
    \<and> get_active (ses s) r = Some (Inr c) \<and> http_permitted E c path (world s2)"
proof (rule ccontr)
  let ?E = "other_net conn wr rd E"
  assume none: "\<not> ?thesis"
  define detail where "detail sr = ''HTTP GET '' @ sr @ '' path='' @ safe_display path" for sr
  define d where "d sr = sr @ '' GET '' @ path" for sr
  have "gated ?E ''http_get'' sig hint (detail sr) ''http.intent'' ''http.result'' (d sr) HttpIntentFailed
      (http_get_i ?E r path) s
    = gated E ''http_get'' sig hint (detail sr) ''http.intent'' ''http.result'' (d sr) HttpIntentFailed
      (http_get_i E r path) s"
    if sr: "short r = Some sr" and sig: "sig = action_sig [''http_get'', r, path]"
      and hint: "hint = approval_hint ''http_get'' ''HttpCap'' sr" for sr sig hint
  proof (rule gated_cong)
    fix s1 s2
    assume g: "gate E ''http_get'' sig hint (detail sr) s = (Inr (), s1)"
      and a: "audit E ''http.intent'' (d sr) ''attempt'' s1 = (True, s2)"
    show "http_get_i ?E r path s2 = http_get_i E r path s2"
      by (rule http_get_i_env)
        (use none sr g a get_active_reached [OF g a] in \<open>unfold sig hint detail_def d_def, blast\<close>)
  qed (simp_all add: gate_env [of ?E E] audit_env [of ?E E])
  then have "http_get ?E r path s = http_get E r path s"
    unfolding http_get_gated detail_def d_def by (cases "short r") simp_all
  with assms show False by simp
qed

section \<open>Approval\<close>

lemma gate_prompt:
  assumes "gate E verb sig hint detail s = (Inr (), s1)" "decide (s_l5 (ses s)) verb = Prompt"
    and "ledger_ready (ledger s) n"
  shows "s_consent (ses s) \<and> status_of (ledger s) (sig, s_key (ses s)) = Some Approved
    \<and> status_of (ledger s1) = (status_of (ledger s))((sig, s_key (ses s)) := None)"
proof -
  obtain out l where r: "request_or_check sig (s_key (ses s)) detail (ledger s) = (out, l)" by fastforce
  have con: "s_consent (ses s)" and out: "out = Now_Approved" and l: "ledger s1 = l"
    using assms(1,2) r by (auto simp: gate_def split: if_splits consent_outcome.splits)
  let ?k = "(sig, s_key (ses s))"
  have ask: "ask_action ?k detail (ledger s) = (Now_Approved, l)" using r out by (simp add: ask_action_def)
  have "status_of (ledger s) ?k = Some Approved"
  proof (rule ccontr)
    assume no: "status_of (ledger s) ?k \<noteq> Some Approved"
    have "fst (ask_action ?k detail (ledger s)) \<noteq> Now_Approved"
    proof (cases "find_req sig (s_key (ses s)) (ledger s)")
      case None
      then show ?thesis by (simp add: ask_action_def request_or_check_def Let_def)
    next
      case (Some iq)
      then show ?thesis
        using no by (cases iq) (auto simp: ask_action_def request_or_check_def status_of_def split: status.split)
    qed
    with ask show False by simp
  qed
  then show ?thesis using ledger.ask_approved [OF assms(3)] ask con l by (metis snd_conv)
qed

text \<open>The text an action's signature is the hash of: each part with its length before it.\<close>

abbreviation sig_text :: "string list \<Rightarrow> string" where
  "sig_text parts \<equiv> ''capsig:v1'' @ concat (map (\<lambda>p. ''|'' @ show_nat (length p) @ '':'' @ p) parts)"

lemma netstring_inject:
  assumes "show_nat (length p) @ CHR '':'' # p @ x = show_nat (length q) @ CHR '':'' # q @ y"
  shows "p = q \<and> x = y"
proof -
  have no: "CHR '':'' \<notin> set (show_nat n)" for n by (rule show_nat_no) simp
  have "takeWhile (\<lambda>c. c \<noteq> CHR '':'') (show_nat n @ CHR '':'' # z) = show_nat n" for n z
    using no [of n] by (subst takeWhile_append2) auto
  then have "show_nat (length p) = show_nat (length q)" using assms by metis
  then have "length p = length q" by (simp add: show_nat_inject)
  with assms show ?thesis by simp
qed

lemma sig_text_inject: "sig_text a = sig_text b \<longleftrightarrow> a = b"
proof -
  define enc where "enc = (\<lambda>p. ''|'' @ show_nat (length p) @ '':'' @ p)"
  have "concat (map enc a) = concat (map enc b) \<Longrightarrow> a = b"
  proof (induction a arbitrary: b)
    case Nil
    then show ?case by (cases b) (auto simp: enc_def)
  next
    case (Cons p a)
    then obtain q b' where b: "b = q # b'" by (cases b) (auto simp: enc_def)
    have "show_nat (length p) @ CHR '':'' # p @ concat (map enc a)
        = show_nat (length q) @ CHR '':'' # q @ concat (map enc b')"
      using Cons.prems by (simp add: b enc_def)
    from netstring_inject [OF this] Cons.IH b show ?case by simp
  qed
  then show ?thesis unfolding enc_def by auto
qed

section \<open>Reduced mitigation\<close>

definition no_network :: "'w sys \<Rightarrow> bool" where
  "no_network s \<longleftrightarrow> s_reduced (ses s)
     \<and> (\<forall>r c. cap_at s r = Some c \<longrightarrow> c_kind c = Http \<or> c_http c \<noteq> None \<longrightarrow> c_revoked c)"

lemma no_network_cong:
  "s_caps (ses s') = s_caps (ses s) \<Longrightarrow> s_reduced (ses s') = s_reduced (ses s) \<Longrightarrow> no_network s \<Longrightarrow> no_network s'"
  by (simp add: no_network_def)

lemma no_network_insert:
  assumes "no_network s" "draw E s = Some (h, s1)" "c_kind c \<noteq> Http" "c_http c = None"
  shows "no_network (insert_cap c s1)"
  using assms unfolding no_network_def insert_at [OF assms(2)] by (auto simp: draw_caps)

lemma prim_no_network: "prim E mint s s' \<Longrightarrow> no_network s \<Longrightarrow> no_network s'"
proof (induction rule: prim.induct)
  case (p_mint s h s1 c)
  have "s_reduced (ses s)" using p_mint.prems by (simp add: no_network_def)
  then have "c_kind c \<noteq> Http" using p_mint.hyps by auto
  moreover from this have "c_http c = None" using p_mint.hyps by auto
  ultimately show ?case using p_mint by (intro no_network_insert) auto
next
  case (p_derive s h s1 c r pc)
  have "alive (cap_at s) r" using p_derive.hyps(6) is_active_sound by blast
  then have "\<not> c_revoked pc" using p_derive.hyps(5) alive_known by fastforce
  then have "c_kind pc \<noteq> Http" using p_derive.prems p_derive.hyps(5) unfolding no_network_def by blast
  then show ?case
    using p_derive.hyps(1) p_derive.prems derived_plain [OF p_derive.hyps(7)] derived_kind [OF p_derive.hyps(7)]
    by (intro no_network_insert) auto
next
  case (p_revoke s r)
  have "c_revoked c" if "map_of (revoke_entry r (s_caps (ses s))) x = Some c" "c_kind c = Http \<or> c_http c \<noteq> None" for x c
    using that p_revoke.prems unfolding no_network_def
    by (cases "cap_at s r") (auto simp: map_of_revoke_entry split: if_splits)
  then show ?case using p_revoke.prems by (simp add: no_network_def)
next
  case (p_mailbox s h s1)
  then show ?case by (auto simp: no_network_def draw_caps)
qed (auto elim!: no_network_cong [rotated 2])

lemma evolves_no_network: "evolves E mint s s' \<Longrightarrow> no_network s \<Longrightarrow> no_network s'"
  by (induction rule: rtranclp_induct) (auto dest: prim_no_network)

lemma served_no_network: "served E pol s s' \<Longrightarrow> no_network s \<Longrightarrow> no_network s'"
proof (induction rule: served.induct)
  case (served_frame s s1 payload reply s2)
  then show ?case using evolves_no_network handle_evolves by blast
next
  case (served_others s s1 s2)
  then show ?case by (auto elim: no_network_cong [rotated 2])
qed

lemma revoke_all_caps:
  "revoke_all E rs s = Some s' \<Longrightarrow> s_reduced (ses s') = s_reduced (ses s)
     \<and> (\<forall>r c'. cap_at s' r = Some c' \<longrightarrow> (\<exists>c. cap_at s r = Some c \<and> same_cap c c' \<and> (r \<in> set rs \<longrightarrow> c_revoked c')))"
proof (induction rs arbitrary: s)
  case (Cons x rs)
  then obtain res t where t: "revoke E x s = Some (res, t)" "revoke_all E rs t = Some s'"
    by (auto simp: bind_eq_Some_conv)
  have caps: "s_caps (ses t) = revoke_entry x (s_caps (ses s))" "s_reduced (ses t) = s_reduced (ses s)"
    using t(1) by (auto simp: revoke_def bind_eq_Some_conv Let_def)
  have one: "\<exists>c. cap_at s r = Some c \<and> same_cap c c' \<and> (r = x \<longrightarrow> c_revoked c')" if "cap_at t r = Some c'" for r c'
    using that unfolding caps by (cases "cap_at s x") (auto simp: map_of_revoke_entry split: if_splits)
  have "\<exists>c. cap_at s r = Some c \<and> same_cap c c' \<and> (r \<in> set (x # rs) \<longrightarrow> c_revoked c')"
    if later: "cap_at s' r = Some c'" for r c'
  proof -
    obtain d where d: "cap_at t r = Some d" "same_cap d c'" "r \<in> set rs \<longrightarrow> c_revoked c'"
      using Cons.IH [OF t(2)] later by blast
    obtain c where c: "cap_at s r = Some c" "same_cap c d" "r = x \<longrightarrow> c_revoked d" using one [OF d(1)] by blast
    have "same_cap c c'" using same_cap_trans c(2) d(2) .
    moreover have "r = x \<Longrightarrow> c_revoked c'" using c(3) d(2) same_cap_live by blast
    ultimately show ?thesis using c(1) d(3) by auto
  qed
  with Cons.IH [OF t(2)] caps(2) show ?case by simp
qed auto

lemma reduced_no_network:
  assumes "set_mitigation_reduced E True s = Some s'" "http_kinds (cap_at s)"
  shows "no_network s' \<and> (\<forall>r c. cap_at s' r = Some c \<longrightarrow> c_kind c = Message \<longrightarrow> c_revoked c)"
proof -
  let ?s1 = "upd_ses (s_reduced_update (\<lambda>_. True)) s"
  obtain s2 where s2: "revoke_all E (egress_caps (ses ?s1)) ?s1 = Some s2"
    "s' = snd (audit E ''mitigation'' ''reduced: egress caps revoked'' ''allow'' s2)"
    using assms(1) by (auto simp: set_mitigation_reduced_def Let_def bind_eq_Some_conv)
  have "c_revoked c'" if c': "cap_at s2 r = Some c'" "c_kind c' = Http \<or> c_http c' \<noteq> None \<or> c_kind c' = Message" for r c'
  proof -
    obtain c where c: "cap_at ?s1 r = Some c" "same_cap c c'"
      "r \<in> set (egress_caps (ses ?s1)) \<longrightarrow> c_revoked c'"
      using revoke_all_caps [OF s2(1)] c'(1) by blast
    have at: "cap_at s r = Some c" using c(1) by simp
    have "c_kind c = Http \<or> c_kind c = Message" using assms(2) at c'(2) same_cap_fields [OF c(2)] by (auto simp: http_kinds_def)
    moreover have "(r, c) \<in> set (s_caps (ses s))" using at by (rule map_of_SomeD)
    ultimately have "\<not> c_revoked c \<Longrightarrow> r \<in> set (egress_caps (ses ?s1))" by (force simp: egress_caps_def)
    then show ?thesis using c(2,3) same_cap_live by blast
  qed
  moreover have "s_reduced (ses s2)" using revoke_all_caps [OF s2(1)] by simp
  ultimately show ?thesis unfolding s2(2) no_network_def by auto
qed

lemma no_network_http_get:
  assumes n: "no_network s"
  shows "http_get (other_net conn wr rd E) r path s = http_get E r path s"
proof (rule ccontr)
  assume "http_get (other_net conn wr rd E) r path s \<noteq> http_get E r path s"
  then have "\<exists>c w. get_active (ses s) r = Some (Inr c) \<and> http_permitted E c path w"
    using http_guarded [where conn = conn and wr = wr and rd = rd and E = E and r = r and path = path and s = s]
    by blast
  then obtain c where "is_active (s_caps (ses s)) r = Some True" "cap_at s r = Some c" "c_http c \<noteq> None"
    by (auto simp: get_active_Inr http_permitted_def)
  then show False using n is_active_sound alive_known unfolding no_network_def by fastforce
qed

section \<open>Messages\<close>

lemma gated_cases:
  assumes "gated E verb sig hint detail iop rop d err effect s = Some (res, s')"
  obtains (refused) "is_err res" "s_mailboxes (ses s') = s_mailboxes (ses s)" "s_caps (ses s') = s_caps (ses s)"
  | (ran) s1 s2 s3 dec where "gate E verb sig hint detail s = (Inr (), s1)"
      "audit E iop d ''attempt'' s1 = (True, s2)" "effect s2 = Some (res, s3)" "s' = snd (audit E rop d dec s3)"
proof -
  obtain g s1 where g: "gate E verb sig hint detail s = (g, s1)" by fastforce
  obtain ok s2 where a: "audit E iop d ''attempt'' s1 = (ok, s2)" by fastforce
  have s1: "s_mailboxes (ses s1) = s_mailboxes (ses s)" "s_caps (ses s1) = s_caps (ses s)"
    using gate_frame(1,2) [of E verb sig hint detail s] g by simp_all
  have s2: "s_mailboxes (ses s2) = s_mailboxes (ses s1)" "s_caps (ses s2) = s_caps (ses s1)"
    using audit_frame(2,6) [of E iop d "''attempt''" s1] a by simp_all
  show thesis
  proof (cases g)
    case (Inl e)
    then show ?thesis using assms g refused s1 by (auto simp: gated_def)
  next
    case (Inr u)
    show ?thesis
    proof (cases ok)
      case False
      then show ?thesis using assms g a Inr refused s1 s2 by (auto simp: gated_def)
    next
      case True
      then show ?thesis using assms g a Inr ran by (auto simp: gated_def bind_eq_Some_conv)
    qed
  qed
qed

lemma post_bytes_secret: "post_bytes r subject Secret payload s = Some (res, s') \<Longrightarrow> is_err res \<and> s' = s"
proof (cases "get_msg (ses s) r")
  case (Some g)
  assume "post_bytes r subject Secret payload s = Some (res, s')"
  then show ?thesis
    using Some by (cases g) (auto simp: post_bytes_def is_sensitive_def bind_eq_Some_conv)
qed (simp add: post_bytes_def)

lemma read_i_frame: "read_i E r rel s = Some (res, s') \<Longrightarrow> ses s' = ses s"
proof -
  have "keeps (\<lambda>t. ses t = ses s) (read_i E r rel s)"
    unfolding read_i_def by (intro vc) auto
  then show "read_i E r rel s = Some (res, s') \<Longrightarrow> ses s' = ses s" by (rule keepsD)
qed

lemma read_i_taint:
  assumes "read_i E r rel s = Some (Inr (tnt, data), s')"
  shows "\<exists>c. cap_at s r = Some c \<and> tnt = (if is_secret_path (c_root c @ ''/'' @ rel) then Secret else c_taint c)"
proof -
  obtain g where g: "get_active (ses s) r = Some g" using assms by (auto simp: read_i_def bind_eq_Some_conv)
  show ?thesis
  proof (cases g)
    case (Inr c)
    then have "cap_at s r = Some c" using g by (simp add: get_active_Inr)
    moreover have "tnt = (if is_secret_path (c_root c @ ''/'' @ rel) then Secret else c_taint c)"
      using assms g Inr unfolding read_i_def
      by (auto simp: bind_eq_Some_conv split: if_splits sum.splits option.splits prod.splits)
    ultimately show ?thesis by blast
  qed (use assms g in \<open>simp add: read_i_def\<close>)
qed

definition secret_source :: "cap \<Rightarrow> string \<Rightarrow> bool" where
  "secret_source c rel \<longleftrightarrow> is_secret_path (c_root c @ ''/'' @ rel) \<or> c_taint c = Secret"

lemma forward_secret:
  assumes "forward_read E r subject src rel s = Some (res, s')" "cap_at s src = Some c" "secret_source c rel"
  shows "is_err res \<and> ses s' = ses s"
proof -
  obtain rd s3 where rd: "read_i E src rel s = Some (rd, s3)"
    using assms(1) by (auto simp: forward_read_def bind_eq_Some_conv)
  have s3: "ses s3 = ses s" using read_i_frame [OF rd] .
  show ?thesis
  proof (cases rd)
    case (Inl e)
    then show ?thesis using assms(1) rd s3 by (auto simp: forward_read_def)
  next
    case (Inr td)
    then obtain data where td: "td = (Secret, data)"
      using read_i_taint [of E src rel s "fst td" "snd td" s3] rd assms(2,3)
      by (cases td) (auto simp: secret_source_def split: if_splits)
    have "post_bytes r subject Secret (from_utf8_lossy data) s3 = Some (res, s')"
      using assms(1) rd Inr td by (simp add: forward_read_def)
    then show ?thesis using post_bytes_secret s3 by blast
  qed
qed

lemma post_literal_delegated:
  assumes "post_literal_owner_only r subject payload s = Some (res, s')"
    and "cap_at s r = Some c" "c_msg c = Some m" "\<not> m_can_receive m"
  shows "is_err res \<and> s' = s"
proof -
  obtain g where g: "get_msg (ses s) r = Some g"
    using assms(1) by (auto simp: post_literal_owner_only_def bind_eq_Some_conv)
  show ?thesis
  proof (cases g)
    case (Inr n)
    then have "n = m" using g assms(2,3) by (auto simp: get_msg_Inr get_active_Inr)
    then show ?thesis
      using assms(1,4) g Inr by (auto simp: post_literal_owner_only_def bind_eq_Some_conv)
  qed (use assms(1) g in \<open>auto simp: post_literal_owner_only_def\<close>)
qed

section \<open>Sessions to try things on\<close>

abbreviation demo_ref :: string where
  "demo_ref \<equiv> cap_of_hex demo_hex"

definition with_cap :: "cap \<Rightarrow> unit sys" where
  "with_cap c = upd_ses (s_caps_update (\<lambda>_. [(demo_ref, c)])) demo_sys"

lemma with_cap_sel [simp]:
  "s_caps (ses (with_cap c)) = [(demo_ref, c)]" "s_sink (ses (with_cap c)) = False"
  "s_l5 (ses (with_cap c)) = allow_all" "s_audit_broken (ses (with_cap c)) = False"
  "s_mailboxes (ses (with_cap c)) = []" "world (with_cap c) = ()" "rng (with_cap c) = 1"
  by (simp_all add: with_cap_def) (simp_all add: demo_sys_def blank_session_def)

lemma one_active: "c_parent c = None \<Longrightarrow> \<not> c_revoked c \<Longrightarrow> is_active [(r, c)] r = Some True"
  by (subst is_active.simps) simp

lemma gate_allowed: "decide (s_l5 (ses s)) verb = Allow \<Longrightarrow> gate E verb sig hint detail s = (Inr (), s)"
  by (simp add: gate_def)

lemma audit_no_sink:
  "\<not> s_sink (ses s) \<Longrightarrow> audit E op d c s = (True, upd_ses (s_audit_update (\<lambda>log. log @ [next_event log op d c])) s)"
  by (simp add: audit_def)

lemma demo_short: "\<exists>sr. short demo_ref = Some sr"
  using short_ascii [OF cap_id_ascii(1) [OF rand_hex_digits [OF quiet_draw_0]]] by auto

definition demo_command :: cap where
  "demo_command = (blank_cap demo_ref Command)\<lparr>c_ops := [Exec], c_argv := [''/bin/true''], c_dir_fd := Some 3\<rparr>"

lemma demo_exec:
  "map_option fst (exec (quiet_env\<lparr>os_command := \<lambda>argv vars fd p w. (Inr out, w)\<rparr>) demo_ref (with_cap demo_command))
     = Some (Inr out)"
proof -
  obtain sr where sr: "short demo_ref = Some sr" using demo_short by blast
  have "decide allow_all ''exec'' = Allow" by (simp add: decide_def allow_all_def)
  moreover have "get_active (s_audit_update f (ses (with_cap demo_command))) demo_ref = Some (Inr demo_command)" for f
    by (simp add: get_active_Inr one_active demo_command_def)
  moreover have "Exec \<in> set (c_ops demo_command)" "c_argv demo_command \<noteq> []" "c_dir_fd demo_command = Some 3"
    by (simp_all add: demo_command_def)
  ultimately show ?thesis
    by (simp add: exec_gated sr gated_def gate_allowed audit_no_sink exec_i_def)
qed

definition demo_origin :: cap where
  "demo_origin = (blank_cap demo_ref Http)\<lparr>c_http := Some \<lparr>h_scheme = ''http'', h_host = ''example.org'',
     h_port = 80, h_methods = [''GET''], h_paths = [''/**''], h_max_bytes = 4096\<rparr>\<rparr>"

definition demo_net :: "unit env" where
  "demo_net = quiet_env\<lparr>net_resolve := \<lambda>h p w. (Inr [\<lparr>sa_ip = V4 93 184 216 34, sa_port = 80\<rparr>], w)\<rparr>"

lemma demo_target: "canonical_request_target ''/'' = Inr ''/''"
  by (simp add: canonical_request_target_def target_bad_byte_def reject_bad_percent_def remove_dot_segments_def)

lemma demo_path: "path_matches ''/**'' ''/''"
  by (simp add: path_matches_def trim_char_def trim_end_char_def upt_conv_Cons)

lemma demo_resolved: "resolve_checked demo_net ''example.org'' 80 w = (Inr [\<lparr>sa_ip = V4 93 184 216 34, sa_port = 80\<rparr>], w)"
proof -
  have "\<not> is_blocked_v4 93 184 216 34" by code_simp
  moreover have "ascii_lower ''example.org'' \<notin> set METADATA_HOSTS" by code_simp
  ultimately show ?thesis by (simp add: resolve_checked_def demo_net_def)
qed

lemma demo_http:
  "map_option fst (http_get (demo_net\<lparr>net_connect := \<lambda>a w. (Inl m, w)\<rparr>) demo_ref ''/'' (with_cap demo_origin))
     = Some (Inl (NetErr (ConnectFailed m)))"
proof -
  obtain sr where sr: "short demo_ref = Some sr" using demo_short by blast
  have "decide allow_all ''http_get'' = Allow" by (simp add: decide_def allow_all_def)
  moreover have "get_active (s_audit_update f (ses (with_cap demo_origin))) demo_ref = Some (Inr demo_origin)" for f
    by (simp add: get_active_Inr one_active demo_origin_def)
  moreover have "c_http demo_origin = Some \<lparr>h_scheme = ''http'', h_host = ''example.org'',
     h_port = 80, h_methods = [''GET''], h_paths = [''/**''], h_max_bytes = 4096\<rparr>" by (simp add: demo_origin_def)
  moreover have "resolve_checked (demo_net\<lparr>net_connect := c\<rparr>) ''example.org'' 80 w
      = (Inr [\<lparr>sa_ip = V4 93 184 216 34, sa_port = 80\<rparr>], w)" for c w
  proof -
    have "resolve_checked (demo_net\<lparr>net_connect := c\<rparr>) = resolve_checked demo_net"
      by (intro ext) (simp add: resolve_checked_def)
    then show ?thesis by (simp only: demo_resolved)
  qed
  ultimately show ?thesis
    by (simp add: http_get_gated sr gated_def gate_allowed audit_no_sink http_get_i_def demo_target demo_path
        fetch_get_def Let_def)
qed

section \<open>The ledger under an effect\<close>

lemma effect_ledger:
  "keeps (\<lambda>t. ledger t = ledger s) (exec_i E r s)"
  "keeps (\<lambda>t. ledger t = ledger s) (http_get_i E r path s)"
  "keeps (\<lambda>t. ledger t = ledger s) (post_bytes r subject tnt payload s)"
  "keeps (\<lambda>t. ledger t = ledger s) (read_i E src rel s)"
  unfolding exec_i_def http_get_i_def post_bytes_def read_i_def
  by (intro vc; simp)+

lemma post_literal_ledger: "keeps (\<lambda>t. ledger t = ledger s) (post_literal_owner_only r subject payload s)"
  unfolding post_literal_owner_only_def by (intro vc effect_ledger) simp_all

lemma forward_ledger: "keeps (\<lambda>t. ledger t = ledger s) (forward_read E r subject src rel s)"
  unfolding forward_read_def
proof (intro keeps_bind keeps_prod keeps_sum)
  fix v rd s3 td tnt bytes
  assume "read_i E src rel s = Some v" "v = (rd, s3)" "rd = Inr td" "td = (tnt, bytes)"
  then have "ledger s3 = ledger s" using keepsD [OF effect_ledger(4)] by blast
  then show "keeps (\<lambda>t. ledger t = ledger s) (post_bytes r subject tnt (from_utf8_lossy bytes) s3)"
    using effect_ledger(3) [of s3] by simp
next
  fix v rd s3 e
  assume "read_i E src rel s = Some v" "v = (rd, s3)"
  then show "keeps (\<lambda>t. ledger t = ledger s) (Some (Inl e, s3))"
    using keepsD [OF effect_ledger(4)] by (intro keeps_Some) auto
qed

definition approved_once :: "'w sys \<Rightarrow> string list \<Rightarrow> 'w sys \<Rightarrow> bool" where
  "approved_once s parts s' \<longleftrightarrow> s_consent (ses s)
     \<and> status_of (ledger s) (action_sig parts, s_key (ses s)) = Some Approved
     \<and> status_of (ledger s') = (status_of (ledger s))((action_sig parts, s_key (ses s)) := None)"

lemma gated_prompt:
  assumes "gated E verb (action_sig parts) hint detail iop rop d err effect s = Some (Inr v, s')"
    and "decide (s_l5 (ses s)) verb = Prompt" "ledger_ready (ledger s) n"
    and "\<And>t. keeps (\<lambda>u. ledger u = ledger t) (effect t)"
  shows "approved_once s parts s'"
proof -
  obtain s1 s2 s3 where g: "gate E verb (action_sig parts) hint detail s = (Inr (), s1)"
    and a: "audit E iop d ''attempt'' s1 = (True, s2)" and e: "effect s2 = Some (Inr v, s3)"
    and s': "s' = snd (audit E rop d ''allow'' s3)"
    using assms(1) unfolding gated_Inr by blast
  have "ledger s2 = ledger s1" using audit_frame(11) [of E iop d "''attempt''" s1] a by simp
  moreover have "ledger s3 = ledger s2" using keepsD [OF assms(4) e] .
  ultimately have "ledger s' = ledger s1" by (simp add: s')
  then show ?thesis using gate_prompt [OF g assms(2,3)] by (simp add: approved_once_def)
qed

lemma exec_prompt:
  "decide (s_l5 (ses s)) ''exec'' = Prompt \<Longrightarrow> ledger_ready (ledger s) n \<Longrightarrow> exec E r s = Some (Inr out, s') \<Longrightarrow>
     approved_once s [''exec'', r] s'"
  unfolding exec_gated bind_eq_Some_conv by (elim exE conjE) (rule gated_prompt [OF _ _ _ effect_ledger(1)])

lemma http_prompt:
  "decide (s_l5 (ses s)) ''http_get'' = Prompt \<Longrightarrow> ledger_ready (ledger s) n \<Longrightarrow>
     http_get E r path s = Some (Inr out, s') \<Longrightarrow> approved_once s [''http_get'', r, path] s'"
  unfolding http_get_gated bind_eq_Some_conv by (elim exE conjE) (rule gated_prompt [OF _ _ _ effect_ledger(2)])

lemma post_prompt:
  "decide (s_l5 (ses s)) ''post'' = Prompt \<Longrightarrow> ledger_ready (ledger s) n \<Longrightarrow>
     post E r subject payload s = Some (Inr u, s') \<Longrightarrow>
     approved_once s [''post'', r, subject, sha256_hex (as_bytes payload)] s'"
  unfolding post_gated bind_eq_Some_conv by (elim exE conjE) (rule gated_prompt [OF _ _ _ post_literal_ledger])

lemma post_from_prompt:
  "decide (s_l5 (ses s)) ''post_from'' = Prompt \<Longrightarrow> ledger_ready (ledger s) n \<Longrightarrow>
     post_from E r subject src rel s = Some (Inr u, s') \<Longrightarrow>
     approved_once s [''post_from'', r, subject, src, rel] s'"
  unfolding post_from_gated bind_eq_Some_conv by (elim exE conjE) (rule gated_prompt [OF _ _ _ forward_ledger])

definition demo_approved :: "unit sys" where
  "demo_approved = (let s = with_cap demo_command in s\<lparr>
     ses := (ses s)\<lparr>s_l5 := allow_all\<lparr>prompt_exec := True\<rparr>, s_consent := True\<rparr>,
     ledger := \<lparr>reqs = [(consent_id 1, \<lparr>rq_sig = action_sig [''exec'', demo_ref], rq_session = s_key (ses s),
       rq_summary = [], rq_status = Approved\<rparr>)], ledger_seq = 1\<rparr>\<rparr>)"

lemma demo_approved_exec:
  "\<exists>t. exec (quiet_env\<lparr>os_command := \<lambda>argv vars fd p w. (Inr [], w)\<rparr>) demo_ref demo_approved = Some (Inr [], t)"
proof -
  let ?E = "quiet_env\<lparr>os_command := \<lambda>argv vars fd p w. (Inr [], w)\<rparr>"
  obtain sr where sr: "short demo_ref = Some sr" using demo_short by blast
  have caps: "s_caps (ses demo_approved) = [(demo_ref, demo_command)]" "\<not> s_sink (ses demo_approved)"
    "\<not> s_audit_broken (ses demo_approved)" "s_consent (ses demo_approved)"
    "decide (s_l5 (ses demo_approved)) ''exec'' = Prompt"
    by (simp_all add: demo_approved_def Let_def decide_def allow_all_def)
  have "find_req (action_sig [''exec'', demo_ref]) (s_key (ses demo_approved)) (ledger demo_approved)
      = Some (consent_id 1, \<lparr>rq_sig = action_sig [''exec'', demo_ref], rq_session = s_key (ses demo_approved),
       rq_summary = [], rq_status = Approved\<rparr>)"
    by (simp add: find_req_def demo_approved_def Let_def)
  then obtain l where "request_or_check (action_sig [''exec'', demo_ref]) (s_key (ses demo_approved)) d
      (ledger demo_approved) = (Now_Approved, l)" for d
    by (simp add: request_or_check_def)
  then obtain s1 where s1: "gate ?E ''exec'' (action_sig [''exec'', demo_ref]) h d demo_approved = (Inr (), s1)
      \<and> s_caps (ses s1) = [(demo_ref, demo_command)] \<and> \<not> s_sink (ses s1) \<and> \<not> s_audit_broken (ses s1)" for h d
    using caps by (simp add: gate_def audit_no_sink)
  have "get_active ss demo_ref = Some (Inr demo_command)"
    if "s_caps ss = [(demo_ref, demo_command)]" "\<not> s_audit_broken ss" for ss
    using that by (simp add: get_active_Inr one_active demo_command_def)
  then have "\<exists>t. exec_i ?E demo_ref (upd_ses (s_audit_update f) s1) = Some (Inr [], t)" for f
    using s1 by (simp add: exec_i_def demo_command_def)
  then obtain t where "exec_i ?E demo_ref (upd_ses (s_audit_update
      (\<lambda>log. log @ [next_event log ''exec.intent'' sr ''attempt''])) s1) = Some (Inr [], t)" by blast
  with s1 show ?thesis by (simp add: exec_gated sr gated_def audit_no_sink)
qed

section \<open>Properties\<close>

text \<open>
  C4: No command runs unguarded. If the host's command runner can make any difference to an
  \<open>exec\<close>, then the gate passed, the intent is on record (in the durable log too, when there is
  one), and the reference is an active capability with \<open>Exec\<close>, a command and a directory.
\<close>

theorem exec_effect_guarded:
  assumes "exec (E\<lparr>os_command := f\<rparr>) r s \<noteq> exec E r s"
  shows "\<exists>sr s1 s2 c fd. short r = Some sr
    \<and> gate E ''exec'' (action_sig [''exec'', r]) (approval_hint ''exec'' ''CommandCap'' sr)
        (exec_detail (ses s) r sr) s = (Inr (), s1)
    \<and> audit E ''exec.intent'' sr ''attempt'' s1 = (True, s2)
    \<and> get_active (ses s) r = Some (Inr c) \<and> Exec \<in> set (c_ops c) \<and> c_argv c \<noteq> [] \<and> c_dir_fd c = Some fd"
  by (rule exec_guarded [OF assms])

lemma exec_effect_guarded_witness:
  "\<exists>c. get_active (ses (with_cap demo_command)) demo_ref = Some (Inr c) \<and> Exec \<in> set (c_ops c)"
proof -
  let ?E = "quiet_env\<lparr>os_command := \<lambda>argv vars fd p w. (Inr [], w)\<rparr>"
  have "exec (?E\<lparr>os_command := \<lambda>argv vars fd p w. (Inr [1], w)\<rparr>) demo_ref (with_cap demo_command)
      \<noteq> exec ?E demo_ref (with_cap demo_command)"
    using demo_exec [of "[]"] demo_exec [of "[1]"] by force
  from exec_effect_guarded [OF this] show ?thesis by blast
qed

text \<open>
  C5: Nothing leaves over the network unguarded. If connecting, writing or reading can make any
  difference to an \<open>http_get\<close>, then the gate passed, the intent is on record, and the reference
  is an active capability whose origin is plain HTTP, allows \<open>GET\<close> and the canonical form of the
  path, and resolves to addresses none of which is refused.
\<close>

theorem http_effect_guarded:
  assumes "http_get (other_net conn wr rd E) r path s \<noteq> http_get E r path s"
  shows "\<exists>sr s1 s2 c. short r = Some sr
    \<and> gate E ''http_get'' (action_sig [''http_get'', r, path]) (approval_hint ''http_get'' ''HttpCap'' sr)
        (''HTTP GET '' @ sr @ '' path='' @ safe_display path) s = (Inr (), s1)
    \<and> audit E ''http.intent'' (sr @ '' GET '' @ path) ''attempt'' s1 = (True, s2)
    \<and> get_active (ses s) r = Some (Inr c) \<and> http_permitted E c path (world s2)"
  by (rule http_guarded [OF assms])

lemma http_effect_guarded_witness:
  "\<exists>c w. get_active (ses (with_cap demo_origin)) demo_ref = Some (Inr c)
     \<and> http_permitted (demo_net\<lparr>net_connect := \<lambda>a w. (Inl ''a'', w)\<rparr>) c ''/'' w"
proof -
  let ?E = "demo_net\<lparr>net_connect := \<lambda>a w. (Inl ''a'', w)\<rparr>"
  have "?E\<lparr>net_connect := \<lambda>a w. (Inl ''b'', w), net_write := net_write ?E, net_read := net_read ?E\<rparr>
      = demo_net\<lparr>net_connect := \<lambda>a w. (Inl ''b'', w)\<rparr>" by simp
  then have "http_get (other_net (\<lambda>a w. (Inl ''b'', w)) (net_write ?E) (net_read ?E) ?E) demo_ref ''/''
        (with_cap demo_origin) \<noteq> http_get ?E demo_ref ''/'' (with_cap demo_origin)"
    using demo_http [of "''a''"] demo_http [of "''b''"] by force
  from http_effect_guarded [OF this] show ?thesis by blast
qed

text \<open>
  C14: With reduced mitigation a session has no network. Setting it revokes every HTTP and every
  message capability there is, and from then on, however the session is served, by a guest or by
  the control plane, no \<open>http_get\<close> depends on the network. (Message capabilities minted later are
  not refused: \<open>grant_message\<close> does not look at the flag.)
\<close>

theorem mitigation_cuts_network:
  assumes "set_mitigation_reduced E True s = Some s1" "conn_inv E s" "served E pol s1 s2"
  shows "(\<forall>x c. cap_at s1 x = Some c \<longrightarrow> c_kind c = Http \<or> c_kind c = Message \<longrightarrow>
       is_active (s_caps (ses s1)) x = Some False)
    \<and> http_get (other_net conn wr rd E) r path s2 = http_get E r path s2"
proof -
  have "http_kinds (cap_at s)" using assms(2) by (simp add: conn_inv_def)
  note none = reduced_no_network [OF assms(1) this]
  have "no_network s2" using served_no_network [OF assms(3)] none by blast
  moreover have "is_active (s_caps (ses s1)) x = Some False" if "cap_at s1 x = Some c" "c_kind c = Http \<or> c_kind c = Message" for x c
    using that none unfolding no_network_def by (auto simp: is_active.simps [of "s_caps (ses s1)" x])
  ultimately show ?thesis using no_network_http_get by blast
qed

lemma origin_conn_inv: "conn_inv quiet_env (with_cap demo_origin)"
proof -
  have "drawn quiet_env 1 demo_hex" using quiet_draw_0 by (auto simp: drawn_def)
  moreover have "caps_ok [(demo_ref, demo_origin)]"
    by (auto simp: caps_ok_def table_ok_def parent_rel_def demo_origin_def split: if_splits)
  moreover have "s_audit (ses (with_cap demo_origin)) = []" by (simp add: with_cap_def)
  ultimately show ?thesis
    by (auto simp: conn_inv_def table_inv_def caps_drawn_def lineage_inv_def mail_inv_def mail_clean_def
        verify_audit_def http_kinds_def demo_origin_def split: if_splits)
qed

lemma mitigation_cuts_network_witness:
  "\<exists>t. set_mitigation_reduced quiet_env True (with_cap demo_origin) = Some t
     \<and> is_active (s_caps (ses (with_cap demo_origin))) demo_ref = Some True
     \<and> is_active (s_caps (ses t)) demo_ref = Some False
     \<and> http_get (other_net (\<lambda>a w. (Inr 7, w)) (\<lambda>k d w. (Inr (), w)) (\<lambda>k n w. (Inr [], w)) quiet_env) demo_ref ''/'' t
         = http_get quiet_env demo_ref ''/'' t"
proof -
  let ?s = "with_cap demo_origin"
  obtain sr where sr: "short demo_ref = Some sr" using demo_short by blast
  have "egress_caps (s_reduced_update (\<lambda>_. True) (ses ?s)) = [demo_ref]"
    by (simp add: egress_caps_def demo_origin_def)
  then obtain t where t: "set_mitigation_reduced quiet_env True ?s = Some t"
    and caps: "s_caps (ses t) = revoke_entry demo_ref [(demo_ref, demo_origin)]"
    by (simp add: set_mitigation_reduced_def Let_def revoke_def sr)
  have "cap_at t demo_ref = Some (demo_origin\<lparr>c_revoked := True\<rparr>)"
    unfolding caps by (simp add: map_of_revoke_entry)
  moreover have "c_kind (demo_origin\<lparr>c_revoked := True\<rparr>) = Http" by (simp add: demo_origin_def)
  moreover have "is_active (s_caps (ses ?s)) demo_ref = Some True"
    using one_active [of demo_origin demo_ref] by (simp add: demo_origin_def)
  ultimately show ?thesis
    using mitigation_cuts_network [OF t origin_conn_inv served_refl] t by blast
qed

text \<open>
  C6: Under a prompting policy no effect goes through without an approval of exactly that action
  in exactly that session, and the approval is used up: \<open>exec\<close>, \<open>http_get\<close>, \<open>post\<close> and \<open>post_from\<close>
  succeed only if the ledger held the action approved, and leave it without.
\<close>

theorem prompt_needs_approval:
  assumes "ledger_ready (ledger s) n"
  shows "(decide (s_l5 (ses s)) ''exec'' = Prompt \<longrightarrow> exec E r s = Some (Inr out, s') \<longrightarrow>
       approved_once s [''exec'', r] s')
   \<and> (decide (s_l5 (ses s)) ''http_get'' = Prompt \<longrightarrow> http_get E r path s = Some (Inr td, s') \<longrightarrow>
       approved_once s [''http_get'', r, path] s')
   \<and> (decide (s_l5 (ses s)) ''post'' = Prompt \<longrightarrow> post E r subject payload s = Some (Inr (), s') \<longrightarrow>
       approved_once s [''post'', r, subject, sha256_hex (as_bytes payload)] s')
   \<and> (decide (s_l5 (ses s)) ''post_from'' = Prompt \<longrightarrow> post_from E r subject src rel s = Some (Inr (), s') \<longrightarrow>
       approved_once s [''post_from'', r, subject, src, rel] s')"
  using exec_prompt [OF _ assms, of E r out s'] http_prompt [OF _ assms, of E r path td s']
    post_prompt [OF _ assms, of E r subject payload "()" s']
    post_from_prompt [OF _ assms, of E r subject src rel "()" s'] by blast

lemma prompt_needs_approval_witness:
  "\<exists>t. approved_once demo_approved [''exec'', demo_ref] t"
proof -
  obtain t where t: "exec (quiet_env\<lparr>os_command := \<lambda>argv vars fd p w. (Inr [], w)\<rparr>) demo_ref demo_approved
      = Some (Inr [], t)"
    using demo_approved_exec by blast
  have "ledger_ok (ledger demo_approved)"
    by (auto simp: ledger_ok_def demo_approved_def Let_def intro!: exI [of _ 1])
  moreover have "has_room (ledger demo_approved) 0" by (simp add: has_room_def demo_approved_def Let_def)
  ultimately have r: "ledger_ready (ledger demo_approved) 0" by (simp add: ledger_ready_def)
  have "decide (s_l5 (ses demo_approved)) ''exec'' = Prompt"
    by (simp add: demo_approved_def Let_def decide_def allow_all_def)
  then show ?thesis using prompt_needs_approval [OF r] t by blast
qed

text \<open>
  C15: An approval is for one action: the signatures of two actions are equal only when the actions
  are, part by part, or SHA-256 collides on their two texts. The texts themselves never coincide,
  whatever separators the parts contain.
\<close>

theorem action_sig_binds:
  "action_sig a = action_sig b \<longleftrightarrow>
     a = b \<or> (sig_text a \<noteq> sig_text b \<and> sha256_hex (as_bytes (sig_text a)) = sha256_hex (as_bytes (sig_text b)))"
  using sig_text_inject [of a b] by (auto simp: action_sig_def)

text \<open>
  C13: Secrets are not forwarded and delegates write nothing of their own. \<open>post_from\<close> with a source
  that is secret, by its path or its capability's taint, fails and delivers nothing; so does a
  literal \<open>post\<close> through a facet that cannot receive.
\<close>

theorem messages_do_not_launder:
  "(cap_at s src = Some c \<longrightarrow> secret_source c rel \<longrightarrow> post_from E r subject src rel s = Some (res, s') \<longrightarrow>
      is_err res \<and> s_mailboxes (ses s') = s_mailboxes (ses s))
   \<and> (cap_at s r = Some d \<longrightarrow> c_msg d = Some m \<longrightarrow> \<not> m_can_receive m \<longrightarrow> post E r subject payload s = Some (res, s') \<longrightarrow>
      is_err res \<and> s_mailboxes (ses s') = s_mailboxes (ses s))"
proof (intro conjI impI)
  assume c: "cap_at s src = Some c" "secret_source c rel" and p: "post_from E r subject src rel s = Some (res, s')"
  have "is_err res \<and> s_mailboxes (ses s') = s_mailboxes (ses s)"
    if "gated E verb sig hint detail iop rop dt err (forward_read E r subject src rel) s = Some (res, s')"
    for verb sig hint detail iop rop dt err
    using that
  proof (cases rule: gated_cases)
    case (ran s1 s2 s3 dec)
    then show ?thesis
      using forward_secret [of E r subject src rel s2 res s3 c] reached [OF ran(1,2)] c by simp
  qed simp
  with p show "is_err res" "s_mailboxes (ses s') = s_mailboxes (ses s)"
    unfolding post_from_gated bind_eq_Some_conv by blast+
next
  assume d: "cap_at s r = Some d" "c_msg d = Some m" "\<not> m_can_receive m"
    and p: "post E r subject payload s = Some (res, s')"
  have "is_err res \<and> s_mailboxes (ses s') = s_mailboxes (ses s)"
    if "gated E verb sig hint detail iop rop dt err (post_literal_owner_only r subject payload) s = Some (res, s')"
    for verb sig hint detail iop rop dt err
    using that
  proof (cases rule: gated_cases)
    case (ran s1 s2 s3 dec)
    then show ?thesis
      using post_literal_delegated [of r subject payload s2 res s3 d m] reached [OF ran(1,2)] d by simp
  qed simp
  with p show "is_err res" "s_mailboxes (ses s') = s_mailboxes (ses s)"
    unfolding post_gated bind_eq_Some_conv by blast+
qed

definition demo_secret :: cap where
  "demo_secret = demo_cap\<lparr>c_taint := Secret\<rparr>"

lemma demo_read_secret:
  "read_i quiet_env demo_ref ''k'' s = Some (Inr (Secret, []), s)"
  if "s_caps (ses s) = [(demo_ref, demo_secret)]" "\<not> s_audit_broken (ses s)" for s
proof -
  have "get_active (ses s) demo_ref = Some (Inr demo_secret)"
    using that by (simp add: get_active_Inr one_active demo_secret_def)
  moreover have "read_at quiet_env 3 ''k'' () = (Inr [], ())"
    by (simp add: read_at_def openat2_at_def quiet_env_def)
  moreover have "\<exists>p. safe_join ''/srv/ws'' ''k'' = Inr p" by (simp add: safe_join_def)
  ultimately show ?thesis by (auto simp: read_i_def demo_secret_def demo_cap_def)
qed

definition demo_facet :: cap where
  "demo_facet = (blank_cap demo_ref Message)\<lparr>c_msg := Some \<lparr>m_mailbox = ''mbox_1'', m_prefix = [],
     m_one_shot = False, m_can_receive = False\<rparr>\<rparr>"

lemma messages_do_not_launder_witness:
  "(\<exists>res t. post_from quiet_env demo_ref ''subject'' demo_ref ''k'' (with_cap demo_secret) = Some (res, t)
     \<and> is_err res \<and> s_mailboxes (ses t) = [])
   \<and> (\<exists>res t. post quiet_env demo_ref ''subject'' ''text'' (with_cap demo_facet) = Some (res, t)
     \<and> is_err res \<and> s_mailboxes (ses t) = [])"
proof
  obtain sr where sr: "short demo_ref = Some sr" using demo_short by blast
  have allow: "decide allow_all ''post_from'' = Allow" "decide allow_all ''post'' = Allow"
    by (simp_all add: decide_def allow_all_def)
  have "get_active (s_audit_update f (ses (with_cap demo_secret))) demo_ref = Some (Inr demo_secret)" for f
    by (simp add: get_active_Inr one_active demo_secret_def)
  then have "get_msg (s_audit_update f (ses (with_cap demo_secret))) demo_ref = Some (Inl (NotMessage sr))" for f
    by (simp add: get_msg_def sr demo_secret_def)
  then obtain res t where t:
    "post_from quiet_env demo_ref ''subject'' demo_ref ''k'' (with_cap demo_secret) = Some (res, t)"
    by (simp add: post_from_gated sr gated_def gate_allowed allow audit_no_sink forward_read_def demo_read_secret
        post_bytes_def)
  have "cap_at (with_cap demo_secret) demo_ref = Some demo_secret" "secret_source demo_secret ''k''"
    by (simp_all add: secret_source_def demo_secret_def)
  with messages_do_not_launder t
  show "\<exists>res t. post_from quiet_env demo_ref ''subject'' demo_ref ''k'' (with_cap demo_secret) = Some (res, t)
     \<and> is_err res \<and> s_mailboxes (ses t) = []" by (metis with_cap_sel(5))
  obtain m where m: "c_msg demo_facet = Some m" "\<not> m_can_receive m" by (simp add: demo_facet_def)
  have "get_msg (s_audit_update f (ses (with_cap demo_facet))) demo_ref = Some (Inr m)" for f
    using m(1) by (simp add: get_msg_Inr get_active_Inr one_active demo_facet_def)
  then obtain res t where t: "post quiet_env demo_ref ''subject'' ''text'' (with_cap demo_facet) = Some (res, t)"
    using m(2) by (simp add: post_gated sr gated_def gate_allowed allow audit_no_sink post_literal_owner_only_def)
  have "cap_at (with_cap demo_facet) demo_ref = Some demo_facet" by simp
  with messages_do_not_launder m t
  show "\<exists>res t. post quiet_env demo_ref ''subject'' ''text'' (with_cap demo_facet) = Some (res, t)
     \<and> is_err res \<and> s_mailboxes (ses t) = []" by (metis with_cap_sel(5))
qed

section \<open>What attenuation does not do\<close>

text \<open>
  \<open>readonly\<close> gives \<open>Read\<close> and \<open>List\<close> whatever the parent has: a command capability, which can only
  execute, yields one that reads its working directory.
\<close>

lemma derive_readonly_amplifies:
  assumes "get_active (ses s) r = Some (Inr c)" "derive_readonly E r s = Some (Inr i, s')"
  shows "\<exists>d. cap_at s' i = Some d \<and> c_ops d = [Read, List] \<and> c_dir_fd d = c_dir_fd c \<and> c_root d = c_root c"
  using assms by (auto simp: derive_readonly_def bind_eq_Some_conv Let_def)

text \<open>A facet derived by prefix from a one-shot facet is not one-shot.\<close>

lemma oneshot_child_unlimited:
  assumes "get_msg (ses s) r = Some (Inr m)" "derive_msg_prefix E r add s = Some (Inr i, s')"
  shows "\<exists>d n. cap_at s' i = Some d \<and> c_msg d = Some n \<and> m_mailbox n = m_mailbox m \<and> \<not> m_one_shot n"
  using assms by (auto simp: derive_msg_prefix_def insert_msg_facet_def bind_eq_Some_conv Let_def)

text \<open>\<open>grant_message\<close> mints under reduced mitigation as without.\<close>

lemma grant_message_ignores_mitigation:
  assumes "grant_message E rcpt s = Some (i, s')"
  shows "\<exists>d. cap_at s' i = Some d \<and> c_kind d = Message \<and> \<not> c_revoked d \<and> s_reduced (ses s') = s_reduced (ses s)"
  using assms by (auto simp: grant_message_def bind_eq_Some_conv Let_def draw_Some)

text \<open>The wire names the taint of what it sends, and an unknown name is the clean one.\<close>

lemma taint_parse_unknown: "taint_parse ''secret '' = Green \<and> taint_parse [] = Green"
  by (simp add: taint_parse_def)

end
