(* ===== verification/Capvm.thy ===== *)
theory Capvm
  imports Authority
begin

text \<open>
  \<open>capvm.rs\<close>: the table of handles and the system calls of a guest process. The table's contract is
  a locale, interpreted on the code's table; what a process can reach is proved of every sequence
  of system calls.
\<close>

section \<open>The table\<close>

type_synonym clist = "string option list"

datatype vm_error = Bad_Handle nat | Bad_Close nat | Broker error

definition vm_error_text :: "(nat \<Rightarrow> bool) \<Rightarrow> vm_error \<Rightarrow> string" where
  "vm_error_text esc e = (case e of
     Bad_Handle h \<Rightarrow> (''capvm: '' @ U [0x53E5, 0x67C4] @ '' '') @ show_nat h @ ('' ''
       @ U [0x65E0, 0x6548] @ ''('' @ U [0x8D8A, 0x754C] @ ''/'' @ U [0x5DF2, 0x5173, 0x95ED]
         @ ''/'' @ U [0x4F2A, 0x9020] @ '')'' @ U [0x2014, 0x2014] @ '' '' @ U [0x65E0]
           @ '' ambient authority'')
   | Bad_Close h \<Rightarrow> (''capvm: '' @ U [0x5173, 0x95ED, 0x65E0, 0x6548, 0x53E5, 0x67C4]
     @ '' '') @ show_nat h
   | Broker b \<Rightarrow> error_text esc b)"

definition clist_new :: clist where
  "clist_new = []"

definition clist_install :: "string \<Rightarrow> clist \<Rightarrow> nat \<times> clist" where
  "clist_install cap cl =
     (case position (\<lambda>e. e = None) cl of
        Some i \<Rightarrow> (i, cl[i := Some cap])
      | None \<Rightarrow> (length cl, cl @ [Some cap]))"

definition clist_resolve :: "nat \<Rightarrow> clist \<Rightarrow> vm_error + string" where
  "clist_resolve h cl =
     (case nth_opt cl h of Some (Some c) \<Rightarrow> Inr c | _ \<Rightarrow> Inl (Bad_Handle h))"

definition clist_close :: "nat \<Rightarrow> clist \<Rightarrow> (vm_error + unit) \<times> clist" where
  "clist_close h cl =
     (case nth_opt cl h of
        Some (Some _) \<Rightarrow> (Inr (), cl[h := None])
      | _ \<Rightarrow> (Inl (Bad_Close h), cl))"

definition clist_live :: "clist \<Rightarrow> nat" where
  "clist_live cl = length (filter (\<lambda>e. e \<noteq> None) cl)"

section \<open>What a table of handles promises\<close>

text \<open>The operations on a table, as a client issues them.\<close>

datatype 'c table_op = Put 'c | Drop nat

locale handle_table =
  fixes empty :: 't
    and get :: "nat \<Rightarrow> 't \<Rightarrow> 'c option"
    and put :: "'c \<Rightarrow> 't \<Rightarrow> nat \<times> 't"
    and drop_h :: "nat \<Rightarrow> 't \<Rightarrow> 't"
  assumes get_empty: "get h empty = None"
    and put_free: "get (fst (put c t)) t = None"
    and get_put: "get h (snd (put c t)) = (if h = fst (put c t) then Some c else get h t)"
    and get_drop: "get h (drop_h k t) = (if h = k then None else get h t)"
begin

definition apply_op :: "'c table_op \<Rightarrow> 't \<Rightarrow> 't" where
  "apply_op oo t = (case oo of Put c \<Rightarrow> snd (put c t) | Drop k \<Rightarrow> drop_h k t)"

definition apply_ops :: "'c table_op list \<Rightarrow> 't \<Rightarrow> 't" where
  "apply_ops ops t = fold apply_op ops t"

text \<open>A handle leads to something that was put, or was there before.\<close>

lemma get_apply: "get h (apply_op oo t) = Some c \<Longrightarrow> oo = Put c \<or> get h t = Some c"
  by (auto simp: apply_op_def get_put get_drop split: table_op.splits if_splits)

lemma get_apply_ops: "get h (apply_ops ops t) = Some c \<Longrightarrow> Put c \<in> set ops \<or> get h t = Some c"
proof (induction ops arbitrary: t)
  case (Cons x ops)
  then have "Put c \<in> set ops \<or> get h (apply_op x t) = Some c" by (simp add: apply_ops_def)
  then show ?case using get_apply by auto
qed (simp add: apply_ops_def)

lemma confined: "get h (apply_ops ops empty) = Some c \<Longrightarrow> Put c \<in> set ops"
  using get_apply_ops get_empty by fastforce

text \<open>A dropped handle stays invalid until a put hands it out again; the others are untouched.\<close>

lemma dropped: "get k (drop_h k t) = None"
  by (simp add: get_drop)

lemma untouched: "get h t = Some c \<Longrightarrow> Drop h \<notin> set ops \<Longrightarrow> get h (apply_ops ops t) = Some c"
proof (induction ops arbitrary: t)
  case (Cons x ops)
  have "get h (apply_op x t) = Some c"
  proof (cases x)
    case (Put d)
    then show ?thesis using Cons.prems put_free [of d t] by (auto simp: apply_op_def get_put)
  next
    case (Drop k)
    then show ?thesis using Cons.prems by (auto simp: apply_op_def get_drop)
  qed
  then show ?case using Cons by (simp add: apply_ops_def)
qed (simp add: apply_ops_def)

end

definition clist_get :: "nat \<Rightarrow> clist \<Rightarrow> string option" where
  "clist_get h cl = (case clist_resolve h cl of Inr c \<Rightarrow> Some c | Inl _ \<Rightarrow> None)"

lemma clist_get_nth: "clist_get h cl = (if h < length cl then cl ! h else None)"
  by (auto simp: clist_get_def clist_resolve_def nth_opt_def split: option.split)

lemma clist_resolve_Inr: "clist_resolve h cl = Inr c \<longleftrightarrow> clist_get h cl = Some c"
  by (auto simp: clist_get_def split: sum.split)

interpretation handles: handle_table clist_new clist_get clist_install "\<lambda>h cl. snd (clist_close h cl)"
proof
  fix h k :: nat and c t
  show "clist_get h clist_new = None" by (simp add: clist_get_nth clist_new_def)
  show "clist_get (fst (clist_install c t)) t = None"
    by (auto simp: clist_get_nth clist_install_def dest: position_Some split: option.split)
  show "clist_get h (snd (clist_install c t)) = (if h = fst (clist_install c t) then Some c else clist_get h t)"
    by (auto simp: clist_get_nth clist_install_def nth_append dest: position_Some split: option.split)
  show "clist_get h (snd (clist_close k t)) = (if h = k then None else clist_get h t)"
    by (auto simp: clist_get_nth clist_close_def nth_opt_def nth_list_update split: option.split)
qed

lemma clist_live_card: "clist_live cl = card {h. clist_get h cl \<noteq> None}"
proof -
  have "{h. clist_get h cl \<noteq> None} = {h. h < length cl \<and> cl ! h \<noteq> None}"
    by (auto simp: clist_get_nth)
  then show ?thesis by (simp add: clist_live_def length_filter_conv_card)
qed

section \<open>A guest process\<close>

record 'w guest_process =
  gp_clist :: clist
  gp_sys :: "'w sys"

definition process_new :: "'w sys \<Rightarrow> 'w guest_process" where
  "process_new s = \<lparr>gp_clist = clist_new, gp_sys = s\<rparr>"

definition process_install :: "string \<Rightarrow> 'w guest_process \<Rightarrow> nat \<times> 'w guest_process" where
  "process_install cap p = (case clist_install cap (gp_clist p) of (h, cl) \<Rightarrow> (h, p\<lparr>gp_clist := cl\<rparr>))"

definition live_handles :: "'w guest_process \<Rightarrow> nat" where
  "live_handles p = clist_live (gp_clist p)"

text \<open>\<open>let cap = self.clist.resolve(h)?; self.sess.f(&cap, ..)\<close>.\<close>

definition on_handle :: "nat \<Rightarrow> (string \<Rightarrow> 'w sys \<Rightarrow> ((error + 'a) \<times> 'w sys) option) \<Rightarrow> 'w guest_process
    \<Rightarrow> ((vm_error + 'a) \<times> 'w guest_process) option" where
  "on_handle h f p =
     (case clist_resolve h (gp_clist p) of
        Inl e \<Rightarrow> Some (Inl e, p)
      | Inr cap \<Rightarrow> map_option (\<lambda>(res, s). (map_sum Broker id res, p\<lparr>gp_sys := s\<rparr>)) (f cap (gp_sys p)))"

definition cap_read where
  "cap_read E h rel p = on_handle h (\<lambda>cap. read E cap rel) p"

definition cap_list where
  "cap_list E h rel p = on_handle h (\<lambda>cap. list_op E cap rel) p"

definition cap_exec where
  "cap_exec E h p = on_handle h (\<lambda>cap. exec E cap) p"

definition cap_derive_sub ::
    "'w env \<Rightarrow> nat \<Rightarrow> string \<Rightarrow> 'w guest_process \<Rightarrow> ((vm_error + nat) \<times> 'w guest_process) option" where
  "cap_derive_sub E h seg p = do {
     (res, p1) \<leftarrow> on_handle h (\<lambda>cap. derive_sub E cap seg) p;
     (case res of
        Inl e \<Rightarrow> Some (Inl e, p1)
      | Inr child \<Rightarrow> (case process_install child p1 of (k, p2) \<Rightarrow> Some (Inr k, p2)))
   }"

definition cap_close :: "nat \<Rightarrow> 'w guest_process \<Rightarrow> (vm_error + unit) \<times> 'w guest_process" where
  "cap_close h p = (case clist_close h (gp_clist p) of (r, cl) \<Rightarrow> (r, p\<lparr>gp_clist := cl\<rparr>))"

datatype vm_call =
    Sys_Read nat string
  | Sys_List nat string
  | Sys_Exec nat
  | Sys_Derive nat string
  | Sys_Close nat

text \<open>What one call leaves of the process; \<^const>\<open>None\<close> when it does not return.\<close>

definition after_call :: "'w env \<Rightarrow> vm_call \<Rightarrow> 'w guest_process \<Rightarrow> 'w guest_process option" where
  "after_call E c p = (case c of
     Sys_Read h rel \<Rightarrow> map_option snd (cap_read E h rel p)
   | Sys_List h rel \<Rightarrow> map_option snd (cap_list E h rel p)
   | Sys_Exec h \<Rightarrow> map_option snd (cap_exec E h p)
   | Sys_Derive h seg \<Rightarrow> map_option snd (cap_derive_sub E h seg p)
   | Sys_Close h \<Rightarrow> Some (snd (cap_close h p)))"

fun after_calls :: "'w env \<Rightarrow> vm_call list \<Rightarrow> 'w guest_process \<Rightarrow> 'w guest_process option" where
  "after_calls E [] p = Some p"
| "after_calls E (c # cs) p = Option.bind (after_call E c p) (after_calls E cs)"

section \<open>Confinement\<close>

abbreviation holds :: "'w guest_process \<Rightarrow> nat \<Rightarrow> string \<Rightarrow> bool" where
  "holds p h r \<equiv> clist_get h (gp_clist p) = Some r"

text \<open>
  One call: the session evolves without minting, and a new handle is a subdirectory of one an old
  handle leads to.
\<close>

definition confined_step :: "'w env \<Rightarrow> 'w guest_process \<Rightarrow> 'w guest_process \<Rightarrow> bool" where
  "confined_step E p q \<longleftrightarrow> evolves E False (gp_sys p) (gp_sys q)
     \<and> (conn_inv E (gp_sys p) \<longrightarrow> draws_distinct E (rng (gp_sys q)) \<longrightarrow>
          (\<forall>h x. holds q h x \<longrightarrow> (\<exists>k r. holds p k r \<and> (r = x \<or> (r, x) \<in> sub_rel E (cap_at (gp_sys q))))))"

lemma on_handle_cases:
  assumes "on_handle h f p = Some (res, q)"
  obtains (bad) "res = Inl (Bad_Handle h)" "q = p"
  | (used) r out s where "holds p h r" "f r (gp_sys p) = Some (out, s)" "res = map_sum Broker id out"
      "q = p\<lparr>gp_sys := s\<rparr>"
proof (cases "clist_resolve h (gp_clist p)")
  case (Inl e)
  then have "e = Bad_Handle h" by (auto simp: clist_resolve_def split: option.splits)
  then show ?thesis using Inl assms bad by (simp add: on_handle_def)
next
  case (Inr r)
  then have h: "holds p h r" by (simp add: clist_resolve_Inr)
  show ?thesis using assms used [OF h] Inr by (auto simp: on_handle_def)
qed

lemma on_handle_confined:
  assumes "on_handle h f p = Some (res, q)" "\<And>r s. keeps (evolves E False s) (f r s)"
  shows "confined_step E p q"
  using assms(1)
proof (cases rule: on_handle_cases)
  case (used r out s)
  then show ?thesis using keepsD [OF assms(2) used(2)] by (auto simp: confined_step_def)
qed (auto simp: confined_step_def)

lemma derive_sub_parent: "derive_sub E r seg s = Some (Inr i, s') \<Longrightarrow> (r, i) \<in> parent_rel (cap_at s')"
proof -
  assume d: "derive_sub E r seg s = Some (Inr i, s')"
  obtain g where g: "get_active (ses s) r = Some g" using d by (auto simp: derive_sub_def bind_eq_Some_conv)
  have "\<exists>d. cap_at s' i = Some d \<and> c_parent d = Some r"
    using d g by (cases g) (auto simp: derive_sub_def bind_eq_Some_conv Let_def
        split: if_splits option.splits prod.splits sum.splits)
  then show ?thesis by (auto simp: parent_rel_def)
qed

lemma derive_sub_child:
  assumes "derive_sub E r seg s = Some (Inr i, s')" "table_inv E s" "draws_distinct E (rng s')"
  shows "(r, i) \<in> sub_rel E (cap_at s')"
proof -
  obtain g where "get_active (ses s) r = Some g" using assms(1) by (auto simp: derive_sub_def bind_eq_Some_conv)
  then obtain c where g: "get_active (ses s) r = Some (Inr c)" "c_kind c = Dir"
    using assms(1) by (cases g) (auto simp: derive_sub_def split: if_splits)
  then obtain p q w root h t d x y where p: "c_dir_fd c = Some p" "derive_dir_at E p seg (world s) = (Inr q, w)"
    "safe_join (c_root c) seg = Inr root" and t: "draw E (s\<lparr>world := w\<rparr>) = Some (h, t)"
    and d: "d = (blank_cap (cap_of_hex h) Dir)\<lparr>c_root := root, c_ops := c_ops c, c_taint := c_taint c,
       c_dir_fd := Some q, c_parent := Some r\<rparr>"
    and s': "i = c_id d" "s' = snd (audit E ''derive_sub'' (x @ '' <- '' @ y @ '' /'' @ seg) ''allow'' (insert_cap d t))"
    using assms(1)
    by (auto simp: derive_sub_def bind_eq_Some_conv Let_def split: option.splits prod.splits sum.splits)
  have inv: "table_inv E (s\<lparr>world := w\<rparr>)" using assms(2) by (elim table_inv_cong [rotated 2]) simp_all
  have "map_of (s_caps (ses (s\<lparr>world := w\<rparr>))) (cap_of_hex h) = None"
    by (rule draw_id_unused [OF inv t]) (use assms(3) s' in simp)
  then have "r \<noteq> cap_of_hex h" using g(1) by (auto simp: get_active_Inr)
  moreover have "cap_at s' = (cap_at s)(c_id d \<mapsto> d)"
    unfolding s' using t by (simp add: draw_caps)
  moreover have "cap_at s r = Some c" using g(1) by (simp add: get_active_Inr)
  ultimately have "cap_at s' r = Some c" "cap_at s' i = Some d" "c_parent d = Some r"
    using s'(1) by (auto simp: d)
  moreover have "sub_of E c d" unfolding sub_of_def d using g(2) p by auto
  moreover have "derived_from E c d" unfolding d by (rule derived_sub [OF g(2) p])
  ultimately show ?thesis unfolding sub_rel_def by blast
qed

lemma derive_confined:
  assumes "cap_derive_sub E h seg p = Some (res, q)"
  shows "confined_step E p q"
proof -
  obtain r1 p1 where o1: "on_handle h (\<lambda>cap. derive_sub E cap seg) p = Some (r1, p1)"
    and rest: "(case r1 of Inl e \<Rightarrow> Some (Inl e, p1)
      | Inr child \<Rightarrow> (case process_install child p1 of (k, p2) \<Rightarrow> Some (Inr k, p2))) = Some (res, q)"
    using assms by (auto simp: cap_derive_sub_def bind_eq_Some_conv)
  have step: "confined_step E p p1" by (rule on_handle_confined [OF o1 derive_sub_evolves])
  show ?thesis
  proof (cases r1)
    case (Inl e)
    then show ?thesis using rest step by simp
  next
    case (Inr child)
    obtain k cl where ins: "clist_install child (gp_clist p1) = (k, cl)" by fastforce
    have q: "q = p1\<lparr>gp_clist := cl\<rparr>" using rest Inr ins by (simp add: process_install_def)
    have "\<exists>k r. holds p k r \<and> (r = x \<or> (r, x) \<in> sub_rel E (cap_at (gp_sys q)))"
      if inv: "conn_inv E (gp_sys p)" "draws_distinct E (rng (gp_sys q))" and x: "holds q j x" for j x
    proof (cases "j = k")
      case True
      then have c: "x = child" using x handles.get_put [of j child "gp_clist p1"] ins q by simp
      from o1 obtain r where r: "holds p h r" "derive_sub E r seg (gp_sys p) = Some (Inr child, gp_sys p1)"
      proof (cases rule: on_handle_cases)
        case (used r out s)
        then show ?thesis using Inr by (intro that [of r]; cases out) auto
      qed (use Inr in simp)
      have "(r, child) \<in> sub_rel E (cap_at (gp_sys p1))"
        by (rule derive_sub_child [OF r(2)]) (use inv q in \<open>simp_all add: conn_inv_def\<close>)
      then show ?thesis using r(1) c q by auto
    next
      case False
      then have "holds p1 j x" using x handles.get_put [of j child "gp_clist p1"] ins q by simp
      then show ?thesis using step q inv unfolding confined_step_def by simp
    qed
    moreover have "evolves E False (gp_sys p) (gp_sys q)" using step q by (simp add: confined_step_def)
    ultimately show ?thesis unfolding confined_step_def by blast
  qed
qed

lemma after_call_confined: "after_call E c p = Some q \<Longrightarrow> confined_step E p q"
proof (cases c)
  case (Sys_Derive h seg)
  then show "after_call E c p = Some q \<Longrightarrow> confined_step E p q"
    using derive_confined by (auto simp: after_call_def)
next
  case (Sys_Close h)
  have "holds (snd (cap_close h p)) j x \<longrightarrow> holds p j x" for j x
    using handles.get_drop [of j h "gp_clist p"] by (auto simp: cap_close_def split: prod.splits)
  moreover have "gp_sys (snd (cap_close h p)) = gp_sys p" by (simp add: cap_close_def split: prod.split)
  ultimately show "after_call E c p = Some q \<Longrightarrow> confined_step E p q"
    using Sys_Close by (auto simp: after_call_def confined_step_def)
qed (auto simp: after_call_def cap_read_def cap_list_def cap_exec_def
    intro: on_handle_confined read_evolves list_op_evolves exec_evolves)

lemma after_calls_evolves: "after_calls E cs p = Some q \<Longrightarrow> evolves E False (gp_sys p) (gp_sys q)"
proof (induction cs arbitrary: p)
  case (Cons c cs)
  then obtain n where "after_call E c p = Some n" "after_calls E cs n = Some q"
    by (auto simp: bind_eq_Some_conv)
  then show ?case using Cons.IH after_call_confined evolves_trans unfolding confined_step_def by blast
qed simp

lemma after_calls_confined:
  "after_calls E cs p = Some q \<Longrightarrow> conn_inv E (gp_sys p) \<Longrightarrow> draws_distinct E (rng (gp_sys q)) \<Longrightarrow> holds q h x \<Longrightarrow>
     \<exists>k r. holds p k r \<and> (r, x) \<in> (sub_rel E (cap_at (gp_sys q)))\<^sup>*"
proof (induction cs arbitrary: p)
  case (Cons c cs)
  then obtain m where m: "after_call E c p = Some m" "after_calls E cs m = Some q"
    by (auto simp: bind_eq_Some_conv)
  have step: "confined_step E p m" by (rule after_call_confined [OF m(1)])
  note ev = after_calls_evolves [OF m(2)]
  have d: "draws_distinct E (rng (gp_sys m))" using draws_distinct_le [OF Cons.prems(3) evolves_rng [OF ev]] .
  have ev1: "evolves E False (gp_sys p) (gp_sys m)" using step by (simp add: confined_step_def)
  have inv: "conn_inv E (gp_sys m)" by (rule evolves_conn_inv [OF ev1 Cons.prems(2) d])
  have later: "sub_rel E (cap_at (gp_sys m)) \<subseteq> sub_rel E (cap_at (gp_sys q))"
    using evolves_grows [OF ev _ Cons.prems(3)] inv by (intro grows_sub_rel) (simp add: conn_inv_def)
  obtain k y where y: "holds m k y" "(y, x) \<in> (sub_rel E (cap_at (gp_sys q)))\<^sup>*"
    using Cons.IH [OF m(2) inv Cons.prems(3,4)] by blast
  obtain j r where r: "holds p j r" "r = y \<or> (r, y) \<in> sub_rel E (cap_at (gp_sys m))"
    using step y(1) Cons.prems(2) d unfolding confined_step_def by blast
  then have "(r, y) \<in> (sub_rel E (cap_at (gp_sys q)))\<^sup>*" using later by blast
  with r(1) y(2) show ?case by (meson rtrancl_trans)
qed auto

section \<open>Properties\<close>

text \<open>A table's history, over the code's operations; it is the one of the contract.\<close>

definition clist_run :: "string table_op list \<Rightarrow> clist \<Rightarrow> clist" where
  "clist_run ops cl = fold (\<lambda>oo t. case oo of Put c \<Rightarrow> snd (clist_install c t) | Drop k \<Rightarrow> snd (clist_close k t)) ops cl"

lemma clist_run_apply: "clist_run ops cl = handles.apply_ops ops cl"
  unfolding clist_run_def handles.apply_ops_def by (rule arg_cong [where f = "\<lambda>f. fold f ops cl"])
    (intro ext, simp add: handles.apply_op_def)

lemma install_least: "clist_install c cl = (h, cl') \<Longrightarrow> k < h \<Longrightarrow> clist_get k cl \<noteq> None"
  by (auto simp: clist_install_def clist_get_nth position_None split: option.splits dest: position_Some)

lemma install_live: "clist_live (snd (clist_install c cl)) = Suc (clist_live cl)"
proof -
  let ?h = "fst (clist_install c cl)"
  have fin: "finite {k. clist_get k cl \<noteq> None}"
    by (rule finite_subset [of _ "{..<length cl}"]) (auto simp: clist_get_nth split: if_splits)
  have "{k. clist_get k (snd (clist_install c cl)) \<noteq> None} = insert ?h {k. clist_get k cl \<noteq> None}"
    using handles.get_put [of _ c cl] by auto
  moreover have "?h \<notin> {k. clist_get k cl \<noteq> None}" using handles.put_free by simp
  ultimately show ?thesis unfolding clist_live_card using fin by simp
qed

text \<open>
  C12: The table of handles: after any installs and closes from the empty table a handle leads only
  to a capability that was installed; a handle that is not closed keeps its capability; an install
  takes the least free handle, changes no other and raises the number of live handles by one.
\<close>

theorem clist_handles:
  "(clist_get h (clist_run ops clist_new) = Some c \<longrightarrow> Put c \<in> set ops)
   \<and> (clist_get h cl = Some c \<longrightarrow> Drop h \<notin> set ops \<longrightarrow> clist_get h (clist_run ops cl) = Some c)
   \<and> (clist_install d cl = (k, cl') \<longrightarrow> clist_get k cl = None \<and> (\<forall>j < k. clist_get j cl \<noteq> None)
        \<and> (\<forall>j. clist_get j cl' = (if j = k then Some d else clist_get j cl))
        \<and> clist_live cl' = Suc (clist_live cl))"
proof (intro conjI impI)
  show "Put c \<in> set ops" if "clist_get h (clist_run ops clist_new) = Some c"
    using that handles.confined unfolding clist_run_apply by blast
  show "clist_get h (clist_run ops cl) = Some c" if "clist_get h cl = Some c" "Drop h \<notin> set ops"
    using that handles.untouched unfolding clist_run_apply by blast
  assume i: "clist_install d cl = (k, cl')"
  show "clist_get k cl = None" using handles.put_free [of d cl] i by simp
  show "\<forall>j < k. clist_get j cl \<noteq> None" using install_least [OF i] by blast
  show "\<forall>j. clist_get j cl' = (if j = k then Some d else clist_get j cl)"
    using handles.get_put [of _ d cl] i by simp
  show "clist_live cl' = Suc (clist_live cl)" using install_live [of d cl] i by simp
qed

lemma clist_handles_witness:
  "clist_get 0 (clist_run [Put ''a'', Drop 0, Put ''b''] clist_new) = Some ''b''
   \<and> Put ''b'' \<in> set [Put ''a'', Drop 0, Put ''b'']"
proof -
  have "clist_get 0 (clist_run [Put ''a'', Drop 0, Put ''b''] clist_new) = Some ''b''" by code_simp
  with clist_handles [of 0 "[Put ''a'', Drop 0, Put ''b'']" "''b''" "[]" "''c''" 0 "[]"] show ?thesis by blast
qed

text \<open>
  C11: A guest process is confined to its table. Whatever system calls it makes, every capability a
  handle of it leads to is one that a handle led to before, or it was derived from such a one through
  subdirectories: a directory at or below it without a \<open>..\<close>, its descriptor opened step by step
  below the other's, with exactly the operations and the taint of the other, and without a command,
  an origin or a mailbox.
\<close>

theorem capvm_confined:
  assumes "after_calls E cs p = Some q" "conn_inv E (gp_sys p)" "draws_distinct E (rng (gp_sys q))"
    and "holds q h x" "cap_at (gp_sys q) x = Some c"
  shows "\<exists>k r a. holds p k r \<and> cap_at (gp_sys q) r = Some a \<and> (x = r \<and> c = a \<or> subdirectory E a c)
    \<and> (r, x) \<in> (parent_rel (cap_at (gp_sys q)))\<^sup>* \<and> (\<forall>b. cap_at (gp_sys p) r = Some b \<longrightarrow> same_cap b a)"
proof -
  obtain k r where r: "holds p k r" "(r, x) \<in> (sub_rel E (cap_at (gp_sys q)))\<^sup>*"
    using after_calls_confined [OF assms(1-4)] by blast
  obtain a where a: "cap_at (gp_sys q) r = Some a" "x = r \<and> c = a \<or> subdirectory E a c"
    using sub_chain [OF r(2) assms(5)] by blast
  have "grows (cap_at (gp_sys p)) (cap_at (gp_sys q))"
    using evolves_grows [OF after_calls_evolves [OF assms(1)] _ assms(3)] assms(2) by (simp add: conn_inv_def)
  then have "\<forall>b. cap_at (gp_sys p) r = Some b \<longrightarrow> same_cap b a"
    using a(1) unfolding grows_def by fastforce
  moreover have "(r, x) \<in> (parent_rel (cap_at (gp_sys q)))\<^sup>*"
    using r(2) rtrancl_mono [OF sub_rel_parent] by blast
  ultimately show ?thesis using r(1) a by blast
qed

definition demo_process :: "unit guest_process" where
  "demo_process = \<lparr>gp_clist = [Some (cap_of_hex demo_hex)], gp_sys = demo_sys\<rparr>"

lemma demo_derive_sub:
  "\<exists>i t. derive_sub quiet_env (cap_of_hex demo_hex) ''src'' demo_sys = Some (Inr i, t) \<and> rng t = 2"
proof -
  let ?r = "cap_of_hex demo_hex" and ?h = "low_bytes @ hex_fixed 2 1"
  have active: "get_active (ses demo_sys) ?r = Some (Inr demo_cap)"
    using demo_alive demo_conn_inv caps_ok_active
    by (simp add: get_active_Inr conn_inv_def table_inv_def)
  have "rand_hex quiet_env 1 16 = Some ?h" by (simp add: quiet_draw)
  then have draw: "draw quiet_env (demo_sys\<lparr>world := ()\<rparr>) = Some (?h, demo_sys\<lparr>rng := 2\<rparr>)"
    and asc: "is_ascii (cap_of_hex ?h)" "is_ascii ?r"
    using cap_id_ascii(1) [OF rand_hex_digits] quiet_draw_0 by (auto simp: draw_Some)
  obtain x y where "short (cap_of_hex ?h) = Some x" "short ?r = Some y"
    using short_ascii [OF asc(1)] short_ascii [OF asc(2)] by auto
  moreover have "derive_dir_at quiet_env 3 ''src'' w = (Inr 4, w)" for w
    by (simp add: derive_dir_at_def openat2_at_def quiet_env_def)
  moreover obtain p where "safe_join (c_root demo_cap) ''src'' = Inr p"
    by (cases "path_parts ''src'' = []") (simp_all add: safe_join_def)
  moreover have "world demo_sys = ()" by simp
  ultimately show ?thesis
    using draw by (simp add: derive_sub_def active Let_def del: AList.update.simps map_of_update)
qed

lemma capvm_confined_witness:
  "\<exists>q x c. after_calls quiet_env [Sys_Derive 0 ''src''] demo_process = Some q \<and> holds q 1 x
     \<and> cap_at (gp_sys q) x = Some c \<and> x \<noteq> cap_of_hex demo_hex
     \<and> (\<exists>a. cap_at (gp_sys q) (cap_of_hex demo_hex) = Some a \<and> subdirectory quiet_env a c)"
proof -
  obtain i t where t: "derive_sub quiet_env (cap_of_hex demo_hex) ''src'' demo_sys = Some (Inr i, t)" "rng t = 2"
    using demo_derive_sub by blast
  let ?q = "\<lparr>gp_clist = [Some (cap_of_hex demo_hex), Some i], gp_sys = t\<rparr>"
  have res: "clist_resolve 0 (gp_clist demo_process) = Inr (cap_of_hex demo_hex)"
    by (simp add: demo_process_def clist_resolve_def)
  have q: "after_calls quiet_env [Sys_Derive 0 ''src''] demo_process = Some ?q"
    using t(1) res by (simp add: after_call_def cap_derive_sub_def on_handle_def process_install_def
        clist_install_def demo_process_def)
  have inv: "conn_inv quiet_env (gp_sys demo_process)" using demo_conn_inv by (simp add: demo_process_def)
  have d: "draws_distinct quiet_env (rng (gp_sys ?q))" using t(2) quiet_draws_distinct by simp
  have child: "(cap_of_hex demo_hex, i) \<in> sub_rel quiet_env (cap_at t)"
    by (rule derive_sub_child [OF t(1)]) (use demo_conn_inv d in \<open>simp_all add: conn_inv_def\<close>)
  then obtain c where c: "cap_at t i = Some c" "c_parent c = Some (cap_of_hex demo_hex)"
    by (auto simp: sub_rel_def)
  have grown: "grows (cap_at demo_sys) (cap_at t)"
    using evolves_grows [OF keepsD [OF derive_sub_evolves [where mint = False] t(1)]] demo_conn_inv d by (simp add: conn_inv_def)
  then obtain b where b: "cap_at t (cap_of_hex demo_hex) = Some b" "same_cap demo_cap b"
    using demo_sys_sel(1) unfolding grows_def by (metis map_of_Cons_code(2))
  then have new: "i \<noteq> cap_of_hex demo_hex" using c same_cap_fields(6) [OF b(2)] by auto
  have held: "holds ?q 1 i" by (simp add: clist_get_nth)
  have "\<exists>k r a. holds demo_process k r \<and> cap_at t r = Some a \<and> (i = r \<and> c = a \<or> subdirectory quiet_env a c)"
    using capvm_confined [OF q inv d held] c(1) by fastforce
  then have "\<exists>a. cap_at t (cap_of_hex demo_hex) = Some a \<and> subdirectory quiet_env a c"
    using new by (auto simp: demo_process_def clist_get_nth split: if_splits)
  with q held c(1) new show ?thesis by (intro exI [of _ ?q] exI [of _ i] exI [of _ c]) simp
qed

text \<open>
  A handle the process does not have gives nothing: every system call on it is refused and
  leaves process and session as they were. A fresh process has no handle at all.
\<close>

theorem forged_handle_refused:
  assumes "clist_get h (gp_clist p) = None"
  shows "cap_read E h rel p = Some (Inl (Bad_Handle h), p) \<and> cap_list E h rel p = Some (Inl (Bad_Handle h), p)
    \<and> cap_exec E h p = Some (Inl (Bad_Handle h), p) \<and> cap_derive_sub E h rel p = Some (Inl (Bad_Handle h), p)
    \<and> cap_close h p = (Inl (Bad_Close h), p)
    \<and> clist_get k (gp_clist (process_new s)) = None \<and> live_handles (process_new s) = 0"
proof -
  have bad: "clist_resolve h (gp_clist p) = Inl (Bad_Handle h)"
    using assms by (auto simp: clist_get_def clist_resolve_def split: option.splits)
  then have "on_handle h f p = Some (Inl (Bad_Handle h), p)" for f :: "string \<Rightarrow> 'a sys \<Rightarrow> ((error + 'b) \<times> 'a sys) option"
    by (simp add: on_handle_def)
  moreover have "on_handle h f p = Some (Inl (Bad_Handle h), p)" for f :: "string \<Rightarrow> 'a sys \<Rightarrow> ((error + string) \<times> 'a sys) option"
    using bad by (simp add: on_handle_def)
  moreover have "cap_close h p = (Inl (Bad_Close h), p)"
    using assms by (auto simp: cap_close_def clist_close_def clist_get_nth nth_opt_def split: option.splits)
  ultimately show ?thesis
    using bad by (simp add: cap_read_def cap_list_def cap_exec_def cap_derive_sub_def on_handle_def process_new_def
        live_handles_def clist_live_def clist_new_def clist_get_nth)
qed

end
