(* ===== verification/Server.thy ===== *)
theory Server
  imports Effects
begin

text \<open>
  \<open>main.rs\<close>: the command line, the session of a connection, its loop over frames, and the count of
  connections. A thread that panics is \<^const>\<open>None\<close>; it does not reach the line that gives its
  connection back.
\<close>

section \<open>Command line\<close>

record serve_opts =
  so_workspace :: "string option"
  so_trusted :: bool
  so_audit_log :: "string option"
  so_engine :: policy_engine

definition default_opts :: serve_opts where
  "default_opts = \<lparr>so_workspace = None, so_trusted = False, so_audit_log = None, so_engine = allow_all\<rparr>"

text \<open>The flags without a value.\<close>

definition set_flag :: "string \<Rightarrow> serve_opts \<Rightarrow> serve_opts" where
  "set_flag a o' =
     (if a = ''--trusted'' then o'\<lparr>so_trusted := True\<rparr>
      else if a = ''--prompt-exec'' then o'\<lparr>so_engine := (so_engine o')\<lparr>prompt_exec := True\<rparr>\<rparr>
      else if a = ''--prompt-http'' then o'\<lparr>so_engine := (so_engine o')\<lparr>prompt_http := True\<rparr>\<rparr>
      else if a = ''--prompt-post'' then o'\<lparr>so_engine := (so_engine o')\<lparr>prompt_post := True\<rparr>\<rparr>
      else if a = ''--deny-exec'' then o'\<lparr>so_engine := (so_engine o')\<lparr>deny_exec := True\<rparr>\<rparr>
      else o')"

text \<open>The loop over the arguments from the fourth on; a flag with a value takes the next one, if any.\<close>

function serve_flags :: "serve_opts \<Rightarrow> string list \<Rightarrow> serve_opts" where
  "serve_flags o' [] = o'"
| "serve_flags o' (a # rest) =
     (if a = ''--workspace'' then serve_flags (o'\<lparr>so_workspace := nth_opt rest 0\<rparr>) (drop 1 rest)
      else if a = ''--audit-log'' then serve_flags (o'\<lparr>so_audit_log := nth_opt rest 0\<rparr>) (drop 1 rest)
      else serve_flags (set_flag a o') rest)"
  by pat_completeness auto
termination by (relation "measure (length \<circ> snd)") auto

text \<open>
  A service: what \<open>serve\<close> is called with (\<open>sv_consent\<close>: with a ledger of approvals), and the mode of
  its socket.
\<close>

record service =
  sv_sock :: string
  sv_policy :: policy
  sv_sink :: "audit_sink option"
  sv_engine :: policy_engine
  sv_consent :: bool

definition socket_mode :: "policy \<Rightarrow> nat" where
  "socket_mode pol = (if po_role pol = Control then 6 * 64 else 6 * 64 + 6 * 8)"

datatype startup = Serves service | Exits nat | Panics

definition main_serve ::
    "'w env \<Rightarrow> string list \<Rightarrow> disk \<Rightarrow> 'w \<Rightarrow> startup \<times> disk \<times> 'w" where
  "main_serve E args d w =
     (let sock = (case nth_opt args 2 of Some x \<Rightarrow> x | None \<Rightarrow> ''/tmp/capable.sock'');
          opts = serve_flags default_opts (drop 3 args)
      in case (case so_audit_log opts of
                 None \<Rightarrow> (Inr None, d, w)
               | Some p \<Rightarrow> (case sink_open E p d w of
                     (Inl e, d', w') \<Rightarrow> (Inl e, d', w')
                   | (Inr sk, d', w') \<Rightarrow> (Inr (Some sk), d', w'))) of
           (Inl e, d', w') \<Rightarrow> (Panics, d', w')
         | (Inr sk, d', w') \<Rightarrow>
             (if so_trusted opts then
                Serves \<lparr>sv_sock = sock, sv_policy = policy_control, sv_sink = sk, sv_engine = so_engine opts,
                         sv_consent = True\<rparr>
              else case so_workspace opts of
                Some ws \<Rightarrow> Serves \<lparr>sv_sock = sock, sv_policy = policy_guest ws, sv_sink = sk,
                                   sv_engine = so_engine opts, sv_consent = True\<rparr>
              | None \<Rightarrow> Exits 2, d', w'))"

text \<open>\<open>verify-audit\<close>: the exit code.\<close>

definition main_verify :: "'w env \<Rightarrow> disk \<Rightarrow> 'w \<Rightarrow> nat \<times> 'w" where
  "main_verify E d w = (case verify_persisted E d w of (ok, w') \<Rightarrow> (if ok then 0 else 1, w'))"

section \<open>A connection\<close>

text \<open>The thread's set-up of its session.\<close>

definition connect_session :: "'w env \<Rightarrow> service \<Rightarrow> 'w sys \<Rightarrow> 'w sys option" where
  "connect_session E sv s = do {
     s1 \<leftarrow> (case sv_sink sv of Some _ \<Rightarrow> with_sink E s | None \<Rightarrow> new_session E s);
     let s2 = (if sv_consent sv then set_consent (set_policy (sv_engine sv) s1) else set_policy (sv_engine sv) s1);
     (if po_role (sv_policy sv) = Guest then
        (case po_workspace (sv_policy sv) of
           Some ws \<Rightarrow> set_bootstrap E ws s2
         | None \<Rightarrow> Some s2)
      else Some s2)
   }"

text \<open>What a stream still holds bounds the frames to come.\<close>

lemma fill_bytes:
  "fill n got es = (Inr (bs, ok), r) \<Longrightarrow>
     length bs + length (stream_bytes r) = length got + length (stream_bytes es)"
proof (induction n got es arbitrary: bs ok r rule: fill.induct)
  case (1 n got es)
  note eq = 1(3) [unfolded fill.simps [of n got es]]
  show ?case
  proof (cases "n \<le> length got")
    case True
    then show ?thesis using eq by simp
  next
    case False
    show ?thesis
    proof (cases es)
      case Nil
      then show ?thesis using eq False by simp
    next
      case (Cons e r')
      show ?thesis
      proof (cases e)
        case (Arrived b xs)
        have "fill n (got @ take (n - length got) (b # xs)) (requeue (drop (n - length got) (b # xs)) r')
            = (Inr (bs, ok), r)"
          using eq False Cons Arrived by (simp add: Let_def)
        from 1(1) [OF False Cons Arrived refl this] show ?thesis using Cons Arrived by simp
      next
        case Interrupted
        then show ?thesis using eq False Cons 1(2) [OF False Cons Interrupted, of bs ok r] by simp
      next
        case (Broken m)
        then show ?thesis using eq False Cons by simp
      qed
    qed
  qed
qed

lemma read_frame_consumes:
  assumes "read_frame es = (Inr (Some p), r)"
  shows "length (stream_bytes r) < length (stream_bytes es)"
proof -
  obtain hdr r1 where h: "fill 4 [] es = (Inr (hdr, True), r1)"
    and b: "fill (header_value hdr) [] r1 = (Inr (p, True), r)"
    using assms by (auto simp: read_frame_def Let_def split: prod.splits sum.splits if_splits)
  have "length hdr = 4" by (rule fill_length [OF h]) simp
  then show ?thesis using fill_bytes [OF h] fill_bytes [OF b] by simp
qed

text \<open>The loop of the thread: until the peer closes, a frame is bad or a reply cannot be written.\<close>

function serve_loop ::
    "'w env \<Rightarrow> policy \<Rightarrow> (byte list \<Rightarrow> 'o \<Rightarrow> (string + unit) \<times> 'o) \<Rightarrow> ('o \<Rightarrow> (string + unit) \<times> 'o)
      \<Rightarrow> stream \<Rightarrow> 'w sys \<Rightarrow> 'o \<Rightarrow> ('w sys \<times> 'o) option" where
  "serve_loop E pol wr fl es s out =
     (case read_frame es of
        (Inr (Some frame), es') \<Rightarrow>
          (case handle E pol (from_utf8_lossy frame) s of
             None \<Rightarrow> None
           | Some (reply, s') \<Rightarrow>
               (case write_frame wr fl (as_bytes reply) out of
                  (Inl _, out') \<Rightarrow> Some (s', out')
                | (Inr _, out') \<Rightarrow> serve_loop E pol wr fl es' s' out'))
      | _ \<Rightarrow> Some (s, out))"
  by pat_completeness auto
termination
  by (relation "measure (\<lambda>(E, pol, wr, fl, es, s, out). length (stream_bytes es))")
    (auto dest!: read_frame_consumes [OF sym])

declare serve_loop.simps [simp del]

text \<open>A connection's thread, from its session to its end.\<close>

definition connection where
  "connection E sv wr fl es s out = do {
     s1 \<leftarrow> connect_session E sv s;
     serve_loop E (sv_policy sv) wr fl es s1 out
   }"

section \<open>Connections\<close>

definition MAX_CONNS :: nat where
  "MAX_CONNS = 64"

text \<open>
  \<open>fetch_add\<close> and the comparison with what it returned: whether the connection is served. When it is
  not, \<open>fetch_sub\<close> takes the count back in a step of its own.
\<close>

definition accept_conn :: "nat \<Rightarrow> bool \<times> nat" where
  "accept_conn conns = (\<not> MAX_CONNS \<le> conns, conns + 1)"

definition turn_away :: "nat \<Rightarrow> nat" where
  "turn_away conns = conns - 1"

text \<open>A thread that returns gives its connection back; one that panicked does not.\<close>

definition close_conn :: "bool \<Rightarrow> nat \<Rightarrow> nat" where
  "close_conn panicked conns = (if panicked then conns else conns - 1)"

section \<open>The client's side\<close>

definition cap_of :: "string \<Rightarrow> string option" where
  "cap_of reply = (let f = split_on tab reply in
     if hd f = ''CAP'' then nth_opt f 1 else Some [])"

fun splitn_tab :: "nat \<Rightarrow> string \<Rightarrow> string list" where
  "splitn_tab 0 s = []"
| "splitn_tab (Suc 0) s = [s]"
| "splitn_tab (Suc (Suc n)) s =
     (if tab \<in> set s then takeWhile (\<lambda>c. c \<noteq> tab) s # splitn_tab (Suc n) (tl (dropWhile (\<lambda>c. c \<noteq> tab) s))
      else [s])"

definition trim_end :: "string \<Rightarrow> string" where
  "trim_end s = U (rev (dropWhile is_whitespace (rev (chars s))))"

definition ok_payload :: "string \<Rightarrow> string" where
  "ok_payload reply =
     (let f = splitn_tab 3 reply in
      if hd f = ''OK'' then
        ''['' @ field_or f 1 [] @ ''] '' @ trim_end (from_utf8_lossy (b64_decode (field_or f 2 [])))
      else replace_all [tab] (CHR '' '') reply)"

section \<open>A connection is a served session\<close>

lemma served_trans: "served E pol t u \<Longrightarrow> served E pol s t \<Longrightarrow> served E pol s u"
  by (induction rule: served.induct) (auto intro: served.intros)

lemma serve_loop_keeps:
  assumes "\<And>s. R s s" "\<And>body s reply t. handle E pol body s = Some (reply, t) \<Longrightarrow> R s t"
    and "\<And>s t u. R s t \<Longrightarrow> R t u \<Longrightarrow> R s u"
    and "serve_loop E pol wr fl es s out = Some (s', out')"
  shows "R s s'"
  using assms
proof (induction E pol wr fl es s out rule: serve_loop.induct)
  case (1 E pol wr fl es s out)
  note eq = 1(5) [unfolded serve_loop.simps [of E pol wr fl es s out]]
  show ?case
  proof (cases "\<exists>frame es'. read_frame es = (Inr (Some frame), es')")
    case True
    then obtain frame es' where f: "read_frame es = (Inr (Some frame), es')" by blast
    then obtain reply t where h: "handle E pol (from_utf8_lossy frame) s = Some (reply, t)"
      using eq by (cases "handle E pol (from_utf8_lossy frame) s") auto
    note st = 1(3) [OF h]
    obtain wres o1 where w: "write_frame wr fl (as_bytes reply) out = (wres, o1)" by fastforce
    show ?thesis
    proof (cases wres)
      case (Inl e)
      then show ?thesis using eq f h w st by simp
    next
      case (Inr u)
      have go: "write_frame wr fl (as_bytes reply) out = (Inr u, o1)" "serve_loop E pol wr fl es' t o1 = Some (s', out')"
        using w Inr eq f h by simp_all
      have "R t s'" by (rule 1(1) [OF f [symmetric] refl refl h refl go(1) [symmetric] refl 1(2,3,4) go(2)])
      then show ?thesis by (rule 1(4) [OF st])
    qed
  next
    case False
    then show ?thesis using eq 1(2) by (auto split: prod.splits sum.splits option.splits)
  qed
qed

lemma serve_loop_served: "serve_loop E pol wr fl es s out = Some (s', out') \<Longrightarrow> served E pol s s'"
  by (rule serve_loop_keeps [where R = "served E pol"]) (blast intro: served.intros served_trans)+

lemma serve_loop_evolves:
  "serve_loop E pol wr fl es s out = Some (s', out') \<Longrightarrow> evolves E (po_role pol \<noteq> Guest) s s'"
  by (rule serve_loop_keeps [where R = "evolves E (po_role pol \<noteq> Guest)"]) (blast intro: handle_evolves evolves_trans)+

section \<open>How a connection's session starts\<close>

lemma conn_inv_cong:
  "s_caps (ses s') = s_caps (ses s) \<Longrightarrow> s_mailboxes (ses s') = s_mailboxes (ses s) \<Longrightarrow>
     s_key (ses s') = s_key (ses s) \<Longrightarrow> s_audit (ses s') = s_audit (ses s) \<Longrightarrow> rng s' = rng s \<Longrightarrow>
     conn_inv E s \<Longrightarrow> conn_inv E s'"
  by (simp add: conn_inv_def table_inv_def caps_drawn_def mail_inv_def mail_clean_def verify_audit_def)

lemma set_bootstrap_evolves:
  assumes "set_bootstrap E ws s = Some s'" shows "evolves E True s s'"
proof -
  obtain r s1 where g: "grant_dir E ws [Read, List] Project s = Some (r, s1)"
    "s' = upd_ses (s_bootstrap_update (\<lambda>_. case r of Inr i \<Rightarrow> Some i | Inl _ \<Rightarrow> None)) s1"
    using assms by (auto simp: set_bootstrap_def bind_eq_Some_conv)
  show ?thesis unfolding g(2)
    by (rule evolves_step [OF keepsD [OF grant_dir_evolves g(1)] p_bootstrap]) simp
qed

text \<open>The only kind of capability a guest's session starts with: the opened workspace.\<close>

definition workspace_root :: "'w env \<Rightarrow> string \<Rightarrow> cap \<Rightarrow> bool" where
  "workspace_root E ws c \<longleftrightarrow> c_kind c = Dir \<and> c_root c = ws \<and> c_ops c = [Read, List] \<and> c_taint c = Project
     \<and> c_http c = None \<and> c_argv c = [] \<and> c_msg c = None
     \<and> (\<exists>fd w w'. open_dir_fd E ws w = (Inr fd, w') \<and> c_dir_fd c = Some fd)"

text \<open>
  What a guest has: directories at or below the workspace without a \<open>..\<close>, their descriptors opened
  step by step below the one of the workspace, for reading and listing, tainted as the project's.
\<close>

definition guest_cap :: "'w env \<Rightarrow> string \<Rightarrow> cap \<Rightarrow> bool" where
  "guest_cap E ws c \<longleftrightarrow> c_kind c = Dir \<and> root_below ws (c_root c) \<and> c_ops c = [Read, List] \<and> c_taint c = Project
     \<and> c_argv c = [] \<and> c_http c = None \<and> c_msg c = None
     \<and> (\<exists>root fd w w'. open_dir_fd E ws w = (Inr root, w') \<and> c_dir_fd c = Some fd \<and> (opens_beneath E)\<^sup>*\<^sup>* root fd)"

definition guest_caps :: "'w env \<Rightarrow> string \<Rightarrow> session \<Rightarrow> bool" where
  "guest_caps E ws ss \<longleftrightarrow> (\<forall>x c. map_of (s_caps ss) x = Some c \<longrightarrow> guest_cap E ws c)"

lemma guest_cap_root: "workspace_root E ws c \<Longrightarrow> guest_cap E ws c"
  unfolding workspace_root_def guest_cap_def by (elim conjE exE) (intro conjI, simp_all, blast)

lemma guest_cap_revoked [simp]: "guest_cap E ws (c\<lparr>c_revoked := b\<rparr>) = guest_cap E ws c"
  by (simp add: guest_cap_def)

lemma guest_cap_derived:
  assumes a: "guest_cap E ws a" and d: "derived_from E a c" shows "guest_cap E ws c"
proof -
  have k: "c_kind c = Dir" using derived_kind [OF d] a by (auto simp: guest_cap_def)
  have root: "root_below ws (c_root c)"
    using derived_dir [OF d k] a root_below_trans by (auto simp: guest_cap_def)
  have "c_msg c = None" using derived_msg [OF d] msg_within_has a by (cases "c_msg c") (fastforce simp: guest_cap_def)+
  moreover have "\<exists>q. c_dir_fd c = Some q"
    using d a k unfolding derived_from_def sub_of_def readonly_of_def facet_of_def guest_cap_def by auto
  then obtain q where q: "c_dir_fd c = Some q" ..
  obtain p where p: "c_dir_fd a = Some p" "p = q \<or> opens_beneath E p q" "c_taint c = c_taint a"
    using derived_fd [OF d q] by blast
  obtain rt w w' where rt: "open_dir_fd E ws w = (Inr rt, w')" "(opens_beneath E)\<^sup>*\<^sup>* rt p"
    using a p(1) unfolding guest_cap_def by auto
  then have "(opens_beneath E)\<^sup>*\<^sup>* rt q" using p(2) by (auto intro: rtranclp.rtrancl_into_rtrancl)
  moreover have "c_ops c = [Read, List]" using derived_ops [OF d] a k d
    unfolding derived_from_def sub_of_def readonly_of_def facet_of_def guest_cap_def by auto
  moreover have "c_taint c = Project" using a p(3) by (simp add: guest_cap_def)
  ultimately show ?thesis
    using k root q rt(1) derived_plain [OF d] unfolding guest_cap_def by (intro conjI) blast+
qed

lemma guest_caps_insert:
  "guest_caps E' ws (ses s) \<Longrightarrow> draw E s = Some (h, s1) \<Longrightarrow> guest_cap E' ws c \<Longrightarrow> guest_caps E' ws (ses (insert_cap c s1))"
  by (auto simp: guest_caps_def draw_caps split: if_splits)

lemma prim_guest_caps: "prim E mint s s' \<Longrightarrow> \<not> mint \<Longrightarrow> guest_caps E ws (ses s) \<Longrightarrow> guest_caps E ws (ses s')"
proof (induction rule: prim.induct)
  case (p_derive s h s1 c r pc)
  then have "guest_cap E ws c" by (auto simp: guest_caps_def intro: guest_cap_derived)
  then show ?case using guest_caps_insert p_derive by blast
next
  case (p_revoke s r)
  have "guest_cap E ws c" if "map_of (revoke_entry r (s_caps (ses s))) x = Some c" for x c
    using that p_revoke(2) unfolding guest_caps_def
    by (cases "cap_at s r") (auto simp: map_of_revoke_entry split: if_splits)
  then show ?case by (simp add: guest_caps_def)
qed (auto simp: guest_caps_def)

lemma evolves_guest_caps: "evolves E False s s' \<Longrightarrow> guest_caps E ws (ses s) \<Longrightarrow> guest_caps E ws (ses s')"
  by (induction rule: rtranclp_induct) (auto dest: prim_guest_caps)

lemma set_bootstrap_caps:
  assumes "set_bootstrap E ws s = Some s'" "s_caps (ses s) = []" "cap_at s' x = Some c"
  shows "workspace_root E ws c"
proof -
  obtain r s1 where g: "grant_dir E ws [Read, List] Project s = Some (r, s1)"
    "s_caps (ses s') = s_caps (ses s1)"
    using assms by (auto simp: set_bootstrap_def bind_eq_Some_conv)
  obtain o' w where o: "open_dir_fd E ws (world s) = (o', w)" by fastforce
  then have "\<exists>w w'. open_dir_fd E ws w = (o', w')" by blast
  then show ?thesis
    using g assms(2,3) o
    by (cases o') (auto simp: grant_dir_def bind_eq_Some_conv Let_def draw_Some workspace_root_def blank_cap_def
        split: if_splits; blast)+
qed

lemma connect_guest_caps:
  assumes "connect_session E sv s0 = Some s" "po_role (sv_policy sv) = Guest" "po_workspace (sv_policy sv) = Some ws"
  shows "guest_caps E ws (ses s)"
proof -
  obtain s1 where s1: "(case sv_sink sv of Some _ \<Rightarrow> with_sink E s0 | None \<Rightarrow> new_session E s0) = Some s1"
    using assms(1) by (auto simp: connect_session_def bind_eq_Some_conv)
  let ?t = "if sv_consent sv then set_consent (set_policy (sv_engine sv) s1) else set_policy (sv_engine sv) s1"
  have "s_caps (ses ?t) = []"
    using s1 by (auto simp: set_consent_def set_policy_def with_sink_def new_session_def blank_session_def
        bind_eq_Some_conv split: option.splits)
  moreover have "set_bootstrap E ws ?t = Some s" using assms s1 by (simp add: connect_session_def)
  ultimately show ?thesis using set_bootstrap_caps guest_cap_root unfolding guest_caps_def by blast
qed

lemma connect_session_start:
  assumes "connect_session E sv s0 = Some s" "draws_distinct E (rng s)"
  shows "conn_inv E s \<and> (\<forall>ws x c. po_role (sv_policy sv) = Guest \<longrightarrow> po_workspace (sv_policy sv) = Some ws \<longrightarrow>
     cap_at s x = Some c \<longrightarrow> workspace_root E ws c)"
proof -
  obtain s1 where s1: "(case sv_sink sv of Some _ \<Rightarrow> with_sink E s0 | None \<Rightarrow> new_session E s0) = Some s1"
    using assms(1) by (auto simp: connect_session_def bind_eq_Some_conv)
  then obtain n where n: "new_session E s0 = Some n"
    by (auto simp: with_sink_def split: option.splits)
  have same: "s_caps (ses s1) = s_caps (ses n)" "s_mailboxes (ses s1) = s_mailboxes (ses n)"
    "s_key (ses s1) = s_key (ses n)" "s_audit (ses s1) = s_audit (ses n)" "rng s1 = rng n"
    using s1 n by (auto simp: with_sink_def split: option.splits)
  let ?t = "if sv_consent sv then set_consent (set_policy (sv_engine sv) s1) else set_policy (sv_engine sv) s1"
  have inv: "conn_inv E ?t"
    by (rule conn_inv_cong [OF _ _ _ _ _ conn_inv_new [OF n]])
      (simp_all add: same set_consent_def set_policy_def)
  have none: "s_caps (ses ?t) = []"
    using n same by (auto simp: set_consent_def set_policy_def new_session_def blank_session_def bind_eq_Some_conv)
  show ?thesis
  proof (cases "po_role (sv_policy sv) = Guest \<and> po_workspace (sv_policy sv) \<noteq> None")
    case True
    then obtain ws where ws: "po_workspace (sv_policy sv) = Some ws" by blast
    have b: "set_bootstrap E ws ?t = Some s" using assms(1) True ws s1 by (simp add: connect_session_def)
    show ?thesis
      using evolves_conn_inv [OF set_bootstrap_evolves [OF b] inv assms(2)] set_bootstrap_caps [OF b none] ws
      by simp
  next
    case False
    then have "s = ?t" using assms(1) s1 by (auto simp: connect_session_def Let_def split: if_splits option.splits)
    then show ?thesis using inv none by simp
  qed
qed

lemma grant_dir_first:
  assumes "grant_dir E ws ops tnt s = Some (r, s1)" "s_caps (ses s) = []"
  shows "(\<exists>e. r = Inl e \<and> s_caps (ses s1) = [] \<and> rng s1 = rng s) \<or>
    (\<exists>h c. rand_hex E (rng s) 16 = Some h \<and> r = Inr (cap_of_hex h) \<and> s_caps (ses s1) = [(cap_of_hex h, c)]
       \<and> rng s1 = Suc (rng s))"
  using assms by (auto simp: grant_dir_def bind_eq_Some_conv Let_def draw_Some split: prod.splits sum.splits)

lemma connect_first:
  assumes "connect_session E sv s0 = Some s"
  shows "(\<forall>i. s_bootstrap (ses s) = Some i \<longrightarrow> cap_at s i \<noteq> None)
    \<and> (\<forall>r. cap_at s r \<noteq> None \<longrightarrow> (\<exists>i h. rng s0 \<le> i \<and> i < rng s \<and> rand_hex E i 16 = Some h \<and> r = cap_of_hex h))
    \<and> rng s0 \<le> rng s"
proof -
  obtain s1 where s1: "(case sv_sink sv of Some _ \<Rightarrow> with_sink E s0 | None \<Rightarrow> new_session E s0) = Some s1"
    using assms by (auto simp: connect_session_def bind_eq_Some_conv)
  define t where "t = (if sv_consent sv then set_consent (set_policy (sv_engine sv) s1) else set_policy (sv_engine sv) s1)"
  have t: "s_caps (ses t) = []" "s_bootstrap (ses t) = None" "rng t = Suc (rng s0)"
    using s1 by (auto simp: t_def set_consent_def set_policy_def with_sink_def new_session_def blank_session_def
        draw_Some bind_eq_Some_conv split: option.splits)
  show ?thesis
  proof (cases "po_role (sv_policy sv) = Guest \<and> po_workspace (sv_policy sv) \<noteq> None")
    case True
    then obtain ws where "set_bootstrap E ws t = Some s"
      using assms s1 by (auto simp: connect_session_def t_def Let_def)
    then obtain r s2 where g: "grant_dir E ws [Read, List] Project t = Some (r, s2)"
      "s = upd_ses (s_bootstrap_update (\<lambda>_. case r of Inr i \<Rightarrow> Some i | Inl _ \<Rightarrow> None)) s2"
      by (auto simp: set_bootstrap_def bind_eq_Some_conv)
    from grant_dir_first [OF g(1) t(1)] show ?thesis
    proof (elim disjE exE conjE)
      fix h c assume "rand_hex E (rng t) 16 = Some h" "r = Inr (cap_of_hex h)" "s_caps (ses s2) = [(cap_of_hex h, c)]"
        "rng s2 = Suc (rng t)"
      then show ?thesis using g(2) t(3) by (auto intro!: exI [of _ "Suc (rng s0)"])
    qed (use g(2) t in auto)
  next
    case False
    then have "s = t" using assms s1 by (auto simp: connect_session_def t_def Let_def split: if_splits option.splits)
    then show ?thesis using t by simp
  qed
qed

section \<open>Properties\<close>

text \<open>
  C2: A guest's connection is confined to its workspace. Whatever frames come, in whatever pieces,
  every capability of the session when the connection ends, active or revoked, is a directory at or
  below the workspace root without a \<open>..\<close> in between, its descriptor opened step by step below the
  descriptor of the workspace, for \<open>Read\<close> and \<open>List\<close> and tainted as the project's: no command, no
  origin, no mailbox.
\<close>

theorem guest_confined_to_workspace:
  assumes "po_role (sv_policy sv) = Guest" "po_workspace (sv_policy sv) = Some ws"
    and "connection E sv wr fl es s0 out = Some (s, out')" "cap_at s x = Some c"
  shows "c_kind c = Dir \<and> root_below ws (c_root c) \<and> c_ops c = [Read, List] \<and> c_taint c = Project
    \<and> c_argv c = [] \<and> c_http c = None \<and> c_msg c = None
    \<and> (\<exists>root fd w w'. open_dir_fd E ws w = (Inr root, w') \<and> c_dir_fd c = Some fd \<and> (opens_beneath E)\<^sup>*\<^sup>* root fd)"
proof -
  obtain s1 where c1: "connect_session E sv s0 = Some s1"
    and l: "serve_loop E (sv_policy sv) wr fl es s1 out = Some (s, out')"
    using assms(3) by (auto simp: connection_def bind_eq_Some_conv)
  have "evolves E False s1 s" using serve_loop_evolves [OF l] assms(1) by simp
  then have "guest_caps E ws (ses s)" using evolves_guest_caps connect_guest_caps [OF c1 assms(1,2)] by blast
  then show ?thesis using assms(4) unfolding guest_caps_def guest_cap_def by blast
qed

definition demo_service :: service where
  "demo_service = \<lparr>sv_sock = ''/tmp/capable.sock'', sv_policy = demo_guest, sv_sink = None, sv_engine = allow_all,
     sv_consent = True\<rparr>"

lemma demo_guest_sel [simp]: "po_role demo_guest = Guest" "po_workspace demo_guest = Some ''/srv/ws''"
  by (simp_all add: demo_guest_def policy_guest_def)

lemma demo_connect:
  "\<exists>s c. connect_session quiet_env demo_service demo_sys = Some s \<and> rng s = 3
     \<and> alive (cap_at s) (c_id c) \<and> cap_at s (c_id c) = Some c"
proof -
  let ?h = "\<lambda>i. low_bytes @ hex_fixed 2 i" and ?i = "cap_of_hex (low_bytes @ hex_fixed 2 2)"
  have draws: "rand_hex quiet_env 1 16 = Some (?h 1)" "rand_hex quiet_env 2 16 = Some (?h 2)"
    by (simp_all add: quiet_draw)
  obtain x where x: "short ?i = Some x"
    using short_ascii [OF cap_id_ascii(1) [OF rand_hex_digits [OF draws(2)]]] by auto
  define t where "t = set_consent (set_policy allow_all (demo_sys\<lparr>rng := 2, ses := blank_session (?h 1)\<rparr>))"
  have new: "new_session quiet_env demo_sys = Some (demo_sys\<lparr>rng := 2, ses := blank_session (?h 1)\<rparr>)"
    using draws(1) by (simp add: new_session_def draw_def)
  have t: "s_caps (ses t) = []" "rng t = 2" "\<not> s_sink (ses t)"
    by (simp_all add: t_def set_consent_def set_policy_def blank_session_def)
  define c where "c = (blank_cap ?i Dir)\<lparr>c_root := ''/srv/ws'', c_ops := [Read, List], c_taint := Project,
     c_dir_fd := Some 3\<rparr>"
  have i: "c_id c = ?i" by (simp add: c_def)
  have "open_dir_fd quiet_env ''/srv/ws'' (world t) = (Inr 3, world t)"
    by (simp add: open_dir_fd_def quiet_env_def)
  moreover have "draw quiet_env (t\<lparr>world := world t\<rparr>) = Some (?h 2, t\<lparr>rng := 3\<rparr>)"
    using draws(2) t(2) by (simp add: draw_def)
  moreover define u where "u = snd (audit quiet_env ''grant_dir''
     (x @ '' root='' @ ''/srv/ws'' @ '' taint='' @ taint_str Project) ''allow'' (insert_cap c (t\<lparr>rng := 3\<rparr>)))"
  ultimately have "grant_dir quiet_env ''/srv/ws'' [Read, List] Project t = Some (Inr ?i, u)"
    using x by (simp only: grant_dir_def Let_def prod.case sum.case bind.bind_lunit flip: c_def) (simp add: c_def)
  moreover have "s_caps (ses u) = [(?i, c)]" "rng u = 3" using t i by (simp_all add: u_def)
  ultimately have u: "grant_dir quiet_env ''/srv/ws'' [Read, List] Project t = Some (Inr ?i, u)"
    "s_caps (ses u) = [(?i, c)]" "rng u = 3" by blast+
  then have boot: "set_bootstrap quiet_env ''/srv/ws'' t = Some (upd_ses (s_bootstrap_update (\<lambda>_. Some ?i)) u)"
    by (simp add: set_bootstrap_def)
  from boot have con: "connect_session quiet_env demo_service demo_sys
      = Some (upd_ses (s_bootstrap_update (\<lambda>_. Some ?i)) u)"
    using new boot [unfolded t_def] by (simp add: connect_session_def demo_service_def Let_def)
  have "alive (map_of [(?i, c)]) ?i" by (rule alive_root [where c = c]) (simp_all add: c_def)
  then show ?thesis using con u(2,3) i by (intro exI [of _ "upd_ses (s_bootstrap_update (\<lambda>_. Some ?i)) u"] exI [of _ c]) simp
qed

lemma guest_confined_to_workspace_witness:
  "\<exists>s c. connection quiet_env demo_service (\<lambda>bs w. (Inr (), w)) (\<lambda>w. (Inr (), w)) [] demo_sys () = Some (s, ())
     \<and> alive (cap_at s) (c_id c) \<and> cap_at s (c_id c) = Some c \<and> c_kind c = Dir"
proof -
  obtain s c where s: "connect_session quiet_env demo_service demo_sys = Some s" "rng s = 3"
    "alive (cap_at s) (c_id c)" "cap_at s (c_id c) = Some c"
    using demo_connect by blast
  have "fill 4 [] [] = (Inr ([], False), [])" by (subst fill.simps) simp
  then have con: "connection quiet_env demo_service (\<lambda>bs w. (Inr (), w)) (\<lambda>w. (Inr (), w)) [] demo_sys () = Some (s, ())"
    using s(1) by (simp add: connection_def serve_loop.simps read_frame_def)
  have "po_role (sv_policy demo_service) = Guest" "po_workspace (sv_policy demo_service) = Some ''/srv/ws''"
    by (simp_all add: demo_service_def)
  from guest_confined_to_workspace [OF this con s(4)] con s show ?thesis by blast
qed

text \<open>A reference whose byte 14 is the second byte of a character, and a frame with it.\<close>

definition bad_ref :: string where
  "bad_ref = replicate 13 (CHR ''a'') @ enc_char 0xE9"

definition bad_frame :: string where
  "bad_frame = ''INVOKE'' @ [tab] @ bad_ref @ [tab] @ ''read'' @ [tab] @ ''a''"

text \<open>
  The requests that shorten the reference they name, whatever the session holds: revocation,
  description and the seven uses that write it into the audit; and a derivation or the reading of a
  mailbox where the audit is intact and the table does not have the reference.
\<close>

definition shortening_use :: "session \<Rightarrow> string \<Rightarrow> string \<Rightarrow> string list \<Rightarrow> bool" where
  "shortening_use ss r verb args \<longleftrightarrow>
     verb \<in> {''read'', ''list'', ''exec'', ''http_get'', ''send''} \<or> verb = ''post'' \<and> 1 \<le> length args
     \<or> verb = ''post_from'' \<and> 2 \<le> length args
     \<or> verb = ''mailbox_read'' \<and> \<not> s_audit_broken ss \<and> map_of (s_caps ss) r = None"

definition shortening_derive :: "session \<Rightarrow> string \<Rightarrow> string \<Rightarrow> string list \<Rightarrow> bool" where
  "shortening_derive ss r how args \<longleftrightarrow>
     (how \<in> {''readonly'', ''msg_oneshot''} \<or> how \<in> {''sub'', ''msg_prefix''} \<and> 1 \<le> length args)
     \<and> \<not> s_audit_broken ss \<and> map_of (s_caps ss) r = None"

definition shortening :: "session \<Rightarrow> string list \<Rightarrow> string \<Rightarrow> bool" where
  "shortening ss f r \<longleftrightarrow>
     (\<exists>verb args. f = verb # r # args \<and> verb \<in> {''REVOKE'', ''DESCRIBE''})
     \<or> (\<exists>verb args. f = ''INVOKE'' # r # verb # args \<and> shortening_use ss r verb args)
     \<or> (\<exists>how args. f = ''DERIVE'' # r # how # args \<and> shortening_derive ss r how args)"

lemma split_char_short: "14 < length r \<Longrightarrow> \<not> is_char_boundary r 14 \<Longrightarrow> short r = None"
  by (simp add: short_def slice_to_def)

lemma panic_uses:
  assumes "short r = None"
  shows "read E r rel s = None" "list_op E r rel s = None" "exec E r s = None" "http_get E r path s = None"
    "send E r tnt s = None" "post E r subject payload s = None" "post_from E r subject src rel s = None"
    "revoke E r s = None" "describe (ses s) r = None"
  by (simp_all add: read_def list_op_def exec_def http_get_def send_def post_def post_from_def revoke_def
      describe_def assms Let_def case_prod_unfold)

lemma panic_unknown:
  assumes "short r = None" "\<not> s_audit_broken (ses s)" "map_of (s_caps (ses s)) r = None"
  shows "derive_sub E r seg s = None" "derive_readonly E r s = None" "derive_msg_prefix E r add s = None"
    "derive_msg_oneshot E r s = None" "mailbox_read E r s = None"
proof -
  have "get_active (ses s) r = None"
    using assms by (simp add: get_active_def is_active.simps [of "s_caps (ses s)" r])
  then show "derive_sub E r seg s = None" "derive_readonly E r s = None" "derive_msg_prefix E r add s = None"
    "derive_msg_oneshot E r s = None" "mailbox_read E r s = None"
    by (simp_all add: derive_sub_def derive_readonly_def derive_msg_prefix_def derive_msg_oneshot_def
        mailbox_read_def get_msg_def)
qed

lemma use_panics:
  assumes "shortening_use (ses s) r verb args" "short r = None"
  shows "handle_invoke E (''INVOKE'' # r # verb # args) s = None"
  using assms(1) unfolding shortening_use_def
  by (elim disjE conjE insertE emptyE)
    (simp_all add: handle_invoke_def need_def nth_opt_def reply_as_def panic_uses [OF assms(2)]
      panic_unknown [OF assms(2)] flip: length_greater_0_conv)

lemma derive_panics:
  assumes "shortening_derive (ses s) r how args" "short r = None"
  shows "handle_derive E (''DERIVE'' # r # how # args) s = None"
  using assms(1) unfolding shortening_derive_def
  by (elim disjE conjE insertE emptyE)
    (simp_all add: handle_derive_def need_def nth_opt_def reply_as_def panic_unknown [OF assms(2)]
      flip: length_greater_0_conv)

lemma shortening_panics:
  assumes "shortening (ses s) f r" "short r = None"
  shows "handle_verb E pol f s = None"
  using assms(1) unfolding shortening_def
proof (elim disjE exE conjE insertE emptyE)
  fix verb args
  show "f = verb # r # args \<Longrightarrow> verb = ''REVOKE'' \<Longrightarrow> handle_verb E pol f s = None"
    "f = verb # r # args \<Longrightarrow> verb = ''DESCRIBE'' \<Longrightarrow> handle_verb E pol f s = None"
    by (simp_all add: handle_verb_def need_def nth_opt_def reply_as_def panic_uses [OF assms(2)])
  show "f = ''INVOKE'' # r # verb # args \<Longrightarrow> shortening_use (ses s) r verb args \<Longrightarrow> handle_verb E pol f s = None"
    using use_panics [OF _ assms(2)] by (simp add: handle_verb_def)
  show "f = ''DERIVE'' # r # verb # args \<Longrightarrow> shortening_derive (ses s) r verb args \<Longrightarrow> handle_verb E pol f s = None"
    using derive_panics [OF _ assms(2)] by (simp add: handle_verb_def)
qed

lemma bad_frame_text: "from_utf8_lossy (as_bytes bad_frame) = bad_frame"
  unfolding bad_frame_def bad_ref_def by code_simp

lemma bad_frame_fields: "split_on tab bad_frame = [''INVOKE'', bad_ref, ''read'', ''a'']"
  unfolding bad_frame_def bad_ref_def by code_simp

text \<open>
  C25: A reference can kill a connection. A frame that names a reference whose byte 14 lies inside a
  character, in any request that shortens its reference, ends the thread of whoever sends it, guest
  or control: the operation panics while shortening the reference for the audit or an error. The
  requests that use or revoke or describe it do so in every state of the session; a derivation and
  the reading of a mailbox do so where the audit is intact and the table does not have the reference.
\<close>

theorem bad_reference_kills_thread:
  assumes "calm es" "stream_bytes es = frame_bytes payload @ rest" "length payload \<le> MAX_FRAME"
    and "shortening (ses s) (split_on tab (from_utf8_lossy payload)) r"
    and "14 < length r" "\<not> is_char_boundary r 14"
  shows "serve_loop E pol wr fl es s out = None"
proof -
  obtain es' where "read_frame es = (Inr (Some payload), es')" using frame_reads [OF assms(1-3)] by blast
  moreover have "handle E pol (from_utf8_lossy payload) s = None"
    using shortening_panics [OF assms(4) split_char_short [OF assms(5,6)]] by (simp add: handle_def)
  ultimately show ?thesis by (subst serve_loop.simps) simp
qed

lemma bad_reference_kills_thread_witness:
  "serve_loop quiet_env demo_guest (\<lambda>bs w. (Inr (), w)) (\<lambda>w. (Inr (), w))
     (map (\<lambda>b. Arrived b []) (frame_bytes (as_bytes bad_frame))) demo_sys () = None"
proof -
  have s: "stream_bytes (map (\<lambda>b. Arrived b []) bs) = bs" "calm (map (\<lambda>b. Arrived b []) bs)" for bs
    by (induction bs) auto
  have "shortening (ses demo_sys) (split_on tab (from_utf8_lossy (as_bytes bad_frame))) bad_ref"
    by (simp add: bad_frame_text bad_frame_fields shortening_def shortening_use_def)
  moreover have "length (as_bytes bad_frame) \<le> MAX_FRAME"
    by (simp add: bad_frame_def bad_ref_def enc_char_def MAX_FRAME_def)
  moreover have "14 < length bad_ref" "\<not> is_char_boundary bad_ref 14"
    by (simp_all add: bad_ref_def is_char_boundary_def enc_char_def is_cont_def nth_append)
  ultimately show ?thesis
    by (intro bad_reference_kills_thread [where rest = "[]" and r = bad_ref and payload = "as_bytes bad_frame"])
      (simp_all add: s)
qed

lemma set_flag_trusted: "so_trusted (set_flag a o') \<Longrightarrow> so_trusted o' \<or> a = ''--trusted''"
  unfolding set_flag_def by (simp split: if_splits)

lemma set_flag_workspace: "so_workspace (set_flag a o') = so_workspace o'"
  unfolding set_flag_def by simp

lemma in_rest: "x \<in> set (drop 1 rest) \<Longrightarrow> x \<in> set (a # rest)"
  by (cases rest) auto

lemma flags_trusted: "so_trusted (serve_flags o' as) \<Longrightarrow> so_trusted o' \<or> ''--trusted'' \<in> set as"
proof (induction o' as rule: serve_flags.induct)
  case (2 o' a rest)
  show ?case
  proof (cases "a = ''--workspace'' \<or> a = ''--audit-log''")
    case True
    then have "so_trusted o' \<or> ''--trusted'' \<in> set (drop 1 rest)"
      using 2(1,2,4) unfolding serve_flags.simps(2) by (cases "a = ''--workspace''") simp_all
    then show ?thesis using in_rest by metis
  next
    case False
    then show ?thesis using 2(3,4) set_flag_trusted unfolding serve_flags.simps(2) by fastforce
  qed
qed simp

lemma flags_workspace:
  "so_workspace (serve_flags o' as) = Some ws \<Longrightarrow> so_workspace o' = Some ws \<or> ws \<in> set as"
proof (induction o' as rule: serve_flags.induct)
  case (2 o' a rest)
  have first: "nth_opt rest 0 = Some ws \<Longrightarrow> ws \<in> set rest" by (auto simp: nth_opt_def split: if_splits)
  show ?case
  proof (cases "a = ''--workspace'' \<or> a = ''--audit-log''")
    case True
    then have "so_workspace o' = Some ws \<or> nth_opt rest 0 = Some ws \<or> ws \<in> set (drop 1 rest)"
      using 2(1,2,4) unfolding serve_flags.simps(2) by (cases "a = ''--workspace''") auto
    then show ?thesis using in_rest first by (metis list.set_intros(2))
  next
    case False
    then show ?thesis using 2(3,4) set_flag_workspace unfolding serve_flags.simps(2) by fastforce
  qed
qed simp

text \<open>
  C26: The control plane has to be asked for. Without the flag \<open>--trusted\<close> the service that starts is
  a guest's, its workspace one of the arguments and its socket open to the group; without a
  workspace either nothing is served.
\<close>

theorem untrusted_by_default:
  assumes "''--trusted'' \<notin> set args" "fst (main_serve E args d w) = Serves sv"
  shows "po_role (sv_policy sv) = Guest \<and> (\<exists>ws \<in> set (drop 3 args). po_workspace (sv_policy sv) = Some ws)
    \<and> socket_mode (sv_policy sv) = 6 * 64 + 6 * 8"
proof -
  let ?o = "serve_flags default_opts (drop 3 args)"
  have "''--trusted'' \<notin> set (drop 3 args)" using assms(1) set_drop_subset by fast
  then have nt: "\<not> so_trusted ?o" using flags_trusted [of default_opts "drop 3 args"] by (auto simp: default_opts_def)
  then obtain ws where ws: "so_workspace ?o = Some ws" "sv_policy sv = policy_guest ws"
    using assms(2) by (auto simp: main_serve_def Let_def split: option.splits sum.splits prod.splits)
  moreover have "ws \<in> set (drop 3 args)"
    using flags_workspace [OF ws(1)] by (simp add: default_opts_def)
  ultimately show ?thesis by (simp add: policy_guest_def socket_mode_def)
qed

lemma untrusted_by_default_witness:
  "\<exists>sv. fst (main_serve quiet_env [''rpc'', ''serve'', ''/tmp/s'', ''--workspace'', ''/srv/ws''] demo_disk ()) = Serves sv
     \<and> po_role (sv_policy sv) = Guest"
proof -
  have "fst (main_serve quiet_env [''rpc'', ''serve'', ''/tmp/s'', ''--workspace'', ''/srv/ws''] demo_disk ())
      = Serves \<lparr>sv_sock = ''/tmp/s'', sv_policy = policy_guest ''/srv/ws'', sv_sink = None, sv_engine = allow_all,
          sv_consent = True\<rparr>"
    by (simp add: main_serve_def default_opts_def nth_opt_def Let_def)
  from untrusted_by_default [OF _ this] this show ?thesis by simp
qed

text \<open>A reply that carries a capability is read back by the client.\<close>

lemma cap_of_cap_reply: "tab \<notin> set r \<Longrightarrow> cap_of (cap_reply r) = Some r"
proof -
  assume "tab \<notin> set r"
  then have "split_on tab (cap_reply r) = [''CAP'', r]"
    unfolding cap_reply_def by (simp add: split_on_append_sep split_on_no_sep)
  then show ?thesis by (simp add: cap_of_def nth_opt_def)
qed

end
