(* ===== verification/Service.thy ===== *)
theory Service
  imports Server
begin

text \<open>
  \<open>main.rs\<close>, \<open>serve\<close>: the service as a whole. Every connection has its thread and its session; the
  threads share the sink with its files, the ledger, the entropy source and the world. They
  interleave between any two uses of what they share: a step is one primitive change of one
  session, on what the others have left.
\<close>

section \<open>Definitions\<close>

text \<open>A thread's session while it is set up, and while its frames are served.\<close>

datatype conn_thread = Starting (th_ses: session) | Serving (th_ses: session)

text \<open>
  The field \<open>ses\<close> of what is shared is not used. \<open>sr_spawned\<close> counts the threads that have no session
  yet, \<open>sr_dead\<close> the ones that panicked; \<open>sr_up\<close> is the loop over incoming connections and
  \<open>sr_refusing\<close> says that it has counted a connection it is about to turn away.
\<close>

record 'w server =
  sr_shared :: "'w sys"
  sr_threads :: "nat \<rightharpoonup> conn_thread"
  sr_conns :: nat
  sr_spawned :: nat
  sr_dead :: nat
  sr_up :: bool
  sr_refusing :: bool

definition seen :: "'w server \<Rightarrow> session \<Rightarrow> 'w sys" where
  "seen st ss = (sr_shared st)\<lparr>ses := ss\<rparr>"

definition put_thread :: "nat \<Rightarrow> conn_thread option \<Rightarrow> 'w sys \<Rightarrow> 'w server \<Rightarrow> 'w server" where
  "put_thread i t s st = st\<lparr>sr_shared := s\<lparr>ses := ses (sr_shared st)\<rparr>, sr_threads := (sr_threads st)(i := t)\<rparr>"

definition service_start :: "'w sys \<Rightarrow> 'w server" where
  "service_start s = \<lparr>sr_shared = s, sr_threads = Map.empty, sr_conns = 0, sr_spawned = 0, sr_dead = 0, sr_up = True,
     sr_refusing = False\<rparr>"

text \<open>The session before the workspace root is injected.\<close>

definition start_session :: "'w env \<Rightarrow> service \<Rightarrow> 'w sys \<Rightarrow> 'w sys option" where
  "start_session E sv s = do {
     s1 \<leftarrow> (case sv_sink sv of Some _ \<Rightarrow> with_sink E s | None \<Rightarrow> new_session E s);
     Some (if sv_consent sv then set_consent (set_policy (sv_engine sv) s1) else set_policy (sv_engine sv) s1)
   }"

text \<open>The primitive changes of \<open>set_bootstrap\<close>.\<close>

inductive setup_prim :: "'w env \<Rightarrow> string \<Rightarrow> 'w sys \<Rightarrow> 'w sys \<Rightarrow> bool" for E ws where
  s_world: "setup_prim E ws s (s\<lparr>world := w\<rparr>)"
| s_mint: "draw E s = Some (h, s1) \<Longrightarrow> c_id c = cap_of_hex h \<Longrightarrow> \<not> c_revoked c \<Longrightarrow> c_parent c = None \<Longrightarrow>
     workspace_root E ws c \<Longrightarrow> cap_shape c \<Longrightarrow> setup_prim E ws s (insert_cap c s1)"
| s_audit: "setup_prim E ws s (snd (audit E op d c s))"
| s_boot: "setup_prim E ws s (upd_ses (s_bootstrap_update (\<lambda>_. b)) s)"

text \<open>
  The loop over incoming connections and its threads: a connection is turned away or gets a thread;
  a connection over the limit is counted first and taken off again in a step of its own;
  the thread draws its session's key or panics over it, sets its session up, serves, ends or panics;
  what is outside changes the world and draws from the entropy source; the listener fails.
\<close>

inductive server_step :: "'w env \<Rightarrow> service \<Rightarrow> 'w server \<Rightarrow> 'w server \<Rightarrow> bool" for E sv where
  sv_refused: "sr_up st \<Longrightarrow> \<not> sr_refusing st \<Longrightarrow> accept_conn (sr_conns st) = (False, n) \<Longrightarrow>
     server_step E sv st (st\<lparr>sr_conns := n, sr_refusing := True\<rparr>)"
| sv_turned_away: "sr_up st \<Longrightarrow> sr_refusing st \<Longrightarrow>
     server_step E sv st (st\<lparr>sr_conns := turn_away (sr_conns st), sr_refusing := False\<rparr>)"
| sv_accepted: "sr_up st \<Longrightarrow> \<not> sr_refusing st \<Longrightarrow> accept_conn (sr_conns st) = (True, n) \<Longrightarrow>
     server_step E sv st (st\<lparr>sr_conns := n, sr_spawned := Suc (sr_spawned st)\<rparr>)"
| sv_opened: "sr_up st \<Longrightarrow> sr_spawned st = Suc n \<Longrightarrow> sr_threads st i = None \<Longrightarrow>
     start_session E sv (sr_shared st) = Some s \<Longrightarrow>
     server_step E sv st (put_thread i (Some (Starting (ses s))) s (st\<lparr>sr_spawned := n\<rparr>))"
| sv_stillborn: "sr_up st \<Longrightarrow> sr_spawned st = Suc n \<Longrightarrow> start_session E sv (sr_shared st) = None \<Longrightarrow>
     server_step E sv st
       (st\<lparr>sr_conns := close_conn True (sr_conns st), sr_spawned := n, sr_dead := Suc (sr_dead st)\<rparr>)"
| sv_sets_up: "sr_up st \<Longrightarrow> sr_threads st i = Some (Starting ss) \<Longrightarrow> po_role (sv_policy sv) = Guest \<Longrightarrow>
     po_workspace (sv_policy sv) = Some ws \<Longrightarrow> setup_prim E ws (seen st ss) s \<Longrightarrow>
     server_step E sv st (put_thread i (Some (Starting (ses s))) s st)"
| sv_ready: "sr_up st \<Longrightarrow> sr_threads st i = Some (Starting ss) \<Longrightarrow>
     server_step E sv st (put_thread i (Some (Serving ss)) (sr_shared st) st)"
| sv_works: "sr_up st \<Longrightarrow> sr_threads st i = Some (Serving ss) \<Longrightarrow>
     prim E (po_role (sv_policy sv) \<noteq> Guest) (seen st ss) s \<Longrightarrow>
     server_step E sv st (put_thread i (Some (Serving (ses s))) s st)"
| sv_ends: "sr_up st \<Longrightarrow> sr_threads st i = Some (Serving ss) \<Longrightarrow>
     server_step E sv st (put_thread i None (sr_shared st) (st\<lparr>sr_conns := close_conn False (sr_conns st)\<rparr>))"
| sv_dies: "sr_up st \<Longrightarrow> sr_threads st i = Some t \<Longrightarrow>
     server_step E sv st (put_thread i None (sr_shared st)
       (st\<lparr>sr_conns := close_conn True (sr_conns st), sr_dead := Suc (sr_dead st)\<rparr>))"
| sv_outside: "sr_up st \<Longrightarrow> rng (sr_shared st) \<le> r \<Longrightarrow>
     server_step E sv st (st\<lparr>sr_shared := (sr_shared st)\<lparr>world := w, rng := r\<rparr>\<rparr>)"
| sv_stops: "sr_up st \<Longrightarrow> \<not> sr_refusing st \<Longrightarrow> server_step E sv st (st\<lparr>sr_up := False\<rparr>)"

abbreviation service_runs :: "'w env \<Rightarrow> service \<Rightarrow> 'w server \<Rightarrow> 'w server \<Rightarrow> bool" where
  "service_runs E sv \<equiv> (server_step E sv)\<^sup>*\<^sup>*"

lemma two_steps: "server_step E sv a b \<Longrightarrow> server_step E sv b c \<Longrightarrow> service_runs E sv a c"
  by (rule rtranclp.rtrancl_into_rtrancl) (rule r_into_rtranclp)

lemma seen_sel [simp]:
  "ses (seen st ss) = ss" "rng (seen st ss) = rng (sr_shared st)" "sink (seen st ss) = sink (sr_shared st)"
  "disk (seen st ss) = disk (sr_shared st)" "ledger (seen st ss) = ledger (sr_shared st)"
  "world (seen st ss) = world (sr_shared st)"
  by (simp_all add: seen_def)

lemma put_thread_sel [simp]:
  "sr_threads (put_thread i t s st) = (sr_threads st)(i := t)" "sr_conns (put_thread i t s st) = sr_conns st"
  "sr_spawned (put_thread i t s st) = sr_spawned st"
  "sr_dead (put_thread i t s st) = sr_dead st" "sr_up (put_thread i t s st) = sr_up st"
  "sr_refusing (put_thread i t s st) = sr_refusing st"
  "rng (sr_shared (put_thread i t s st)) = rng s" "sink (sr_shared (put_thread i t s st)) = sink s"
  "disk (sr_shared (put_thread i t s st)) = disk s" "ledger (sr_shared (put_thread i t s st)) = ledger s"
  "seen (put_thread i t s st) (ses s) = s"
  "put_thread i t s (put_thread i t' s' st) = put_thread i t s st"
  by (simp_all add: put_thread_def seen_def)

lemma put_thread_same: "sr_threads st i = Some t \<Longrightarrow> put_thread i (Some t) (seen st ss) st = st"
  by (simp add: put_thread_def seen_def fun_upd_idem)

section \<open>The program's runs are runs of the service\<close>

lemma evolves_steps:
  assumes "evolves E (po_role (sv_policy sv) \<noteq> Guest) (seen st ss) s" "sr_up st" "sr_threads st i = Some (Serving ss)"
  shows "service_runs E sv st (put_thread i (Some (Serving (ses s))) s st)"
  using assms(1)
proof (induction rule: rtranclp_induct)
  case base
  show ?case using assms(3) put_thread_same [of st i "Serving ss" ss] by simp
next
  case (step t u)
  let ?m = "put_thread i (Some (Serving (ses t))) t st"
  have "prim E (po_role (sv_policy sv) \<noteq> Guest) (seen ?m (ses t)) u" using step.hyps(2) by simp
  from sv_works [OF _ _ this, of i] have "server_step E sv ?m (put_thread i (Some (Serving (ses u))) u st)"
    using assms(2) by simp
  with step.IH show ?case by (rule rtranclp.rtrancl_into_rtrancl)
qed

text \<open>A frame, handled without interruption.\<close>

lemma frame_steps:
  "handle E (sv_policy sv) body (seen st ss) = Some (reply, s) \<Longrightarrow> sr_up st \<Longrightarrow> sr_threads st i = Some (Serving ss) \<Longrightarrow>
     service_runs E sv st (put_thread i (Some (Serving (ses s))) s st)"
  by (rule evolves_steps [OF handle_evolves])

lemma connect_session_parts:
  "connect_session E sv s = Option.bind (start_session E sv s) (\<lambda>s2.
     if po_role (sv_policy sv) = Guest then
       (case po_workspace (sv_policy sv) of Some ws \<Rightarrow> set_bootstrap E ws s2 | None \<Rightarrow> Some s2)
     else Some s2)"
  by (simp add: connect_session_def start_session_def Option.bind_assoc Let_def)

lemma grant_dir_setup:
  assumes "grant_dir E ws [Read, List] Project s = Some (r, s')"
  shows "(setup_prim E ws)\<^sup>*\<^sup>* s s'"
proof -
  obtain fd w where w: "open_dir_fd E ws (world s) = (fd, w)" by fastforce
  let ?w = "s\<lparr>world := w\<rparr>"
  have open_step: "(setup_prim E ws)\<^sup>*\<^sup>* s ?w" by (rule r_into_rtranclp) (rule s_world)
  show ?thesis
  proof (cases fd)
    case (Inl e)
    then have "s' = ?w" using assms w by (simp add: grant_dir_def)
    then show ?thesis using open_step by simp
  next
    case (Inr n)
    then obtain h t c sr where d: "draw E ?w = Some (h, t)"
      and c: "c = (blank_cap (cap_of_hex h) Dir)\<lparr>c_root := ws, c_ops := [Read, List], c_taint := Project, c_dir_fd := Some n\<rparr>"
      and s': "s' = snd (audit E ''grant_dir'' (sr @ '' root='' @ ws @ '' taint='' @ taint_str Project) ''allow'' (insert_cap c t))"
      using assms w by (auto simp: grant_dir_def bind_eq_Some_conv Let_def)
    have "setup_prim E ws ?w (insert_cap c t)"
      by (rule s_mint [OF d]) (use w Inr in \<open>auto simp: c workspace_root_def cap_shape_def minted_shape_def\<close>)
    with open_step have "(setup_prim E ws)\<^sup>*\<^sup>* s (insert_cap c t)" by (rule rtranclp.rtrancl_into_rtrancl)
    then show ?thesis unfolding s' by (rule rtranclp.rtrancl_into_rtrancl) (rule s_audit)
  qed
qed

lemma set_bootstrap_setup: "set_bootstrap E ws s = Some s' \<Longrightarrow> (setup_prim E ws)\<^sup>*\<^sup>* s s'"
  unfolding set_bootstrap_def bind_eq_Some_conv
  by (auto intro: rtranclp.rtrancl_into_rtrancl [OF grant_dir_setup s_boot])

lemma setup_steps:
  assumes "(setup_prim E ws)\<^sup>*\<^sup>* (seen st ss) s" "sr_up st" "sr_threads st i = Some (Starting ss)"
    and "po_role (sv_policy sv) = Guest" "po_workspace (sv_policy sv) = Some ws"
  shows "service_runs E sv st (put_thread i (Some (Starting (ses s))) s st)"
  using assms(1)
proof (induction rule: rtranclp_induct)
  case base
  show ?case using assms(3) put_thread_same [of st i "Starting ss" ss] by simp
next
  case (step t u)
  let ?m = "put_thread i (Some (Starting (ses t))) t st"
  have "setup_prim E ws (seen ?m (ses t)) u" using step.hyps(2) by simp
  from sv_sets_up [OF _ _ assms(4,5) this, of i] have "server_step E sv ?m (put_thread i (Some (Starting (ses u))) u st)"
    using assms(2) by simp
  with step.IH show ?case by (rule rtranclp.rtrancl_into_rtrancl)
qed

lemma connect_steps:
  assumes "connect_session E sv (sr_shared st) = Some s" "sr_up st" "\<not> sr_refusing st" "sr_conns st < MAX_CONNS" "sr_threads st i = None"
  shows "service_runs E sv st (put_thread i (Some (Serving (ses s))) s (st\<lparr>sr_conns := Suc (sr_conns st)\<rparr>))"
proof -
  obtain s2 where s2: "start_session E sv (sr_shared st) = Some s2"
    using assms(1) by (auto simp: connect_session_parts bind_eq_Some_conv)
  let ?a = "st\<lparr>sr_conns := Suc (sr_conns st), sr_spawned := Suc (sr_spawned st)\<rparr>"
  let ?c = "st\<lparr>sr_conns := Suc (sr_conns st)\<rparr>" and ?t = "put_thread i (Some (Starting (ses s2))) s2"
  have "accept_conn (sr_conns st) = (True, Suc (sr_conns st))" using assms(4) by (simp add: accept_conn_def)
  from sv_accepted [OF assms(2,3) this] have spawn: "server_step E sv st ?a" .
  have "server_step E sv ?a (?t ?c)"
    using sv_opened [of ?a "sr_spawned st" i E sv s2] assms(2,5) s2 by (simp add: put_thread_def)
  with spawn have first: "service_runs E sv st (?t ?c)" by (rule two_steps)
  have boot: "s = s2 \<or> (\<exists>ws. po_role (sv_policy sv) = Guest \<and> po_workspace (sv_policy sv) = Some ws
      \<and> (setup_prim E ws)\<^sup>*\<^sup>* s2 s)"
    using assms(1) s2 set_bootstrap_setup by (fastforce simp: connect_session_parts split: if_splits option.splits)
  let ?u = "put_thread i (Some (Starting (ses s))) s ?c"
  have "service_runs E sv (?t ?c) ?u"
    using boot
  proof (elim disjE exE conjE)
    fix ws assume "po_role (sv_policy sv) = Guest" "po_workspace (sv_policy sv) = Some ws" "(setup_prim E ws)\<^sup>*\<^sup>* s2 s"
    with setup_steps [of E ws "?t ?c" "ses s2" s i sv] show ?thesis using assms(2) by simp
  qed simp
  moreover have "server_step E sv ?u (put_thread i (Some (Serving (ses s))) s ?c)"
    using sv_ready [of ?u i "ses s" E sv] assms(2) by (simp add: put_thread_def)
  ultimately show ?thesis using first by (meson rtranclp.rtrancl_into_rtrancl rtranclp_trans)
qed

text \<open>A whole connection, alone: accepted, set up, served and given back.\<close>

lemma connection_steps:
  assumes "connection E sv wr fl es (sr_shared st) out = Some (s, out')"
    and "sr_up st" "\<not> sr_refusing st" "sr_conns st < MAX_CONNS" "sr_threads st i = None"
  shows "service_runs E sv st (st\<lparr>sr_shared := s\<lparr>ses := ses (sr_shared st)\<rparr>\<rparr>)"
proof -
  let ?c = "st\<lparr>sr_conns := Suc (sr_conns st)\<rparr>"
  obtain s1 where c: "connect_session E sv (sr_shared st) = Some s1"
    and l: "serve_loop E (sv_policy sv) wr fl es s1 out = Some (s, out')"
    using assms(1) by (auto simp: connection_def bind_eq_Some_conv)
  let ?a = "put_thread i (Some (Serving (ses s1))) s1 ?c" and ?b = "put_thread i (Some (Serving (ses s))) s ?c"
  have "evolves E (po_role (sv_policy sv) \<noteq> Guest) (seen ?a (ses s1)) s" using serve_loop_evolves [OF l] by simp
  from evolves_steps [OF this, of i] have "service_runs E sv ?a ?b" using assms(2) by simp
  with connect_steps [OF c assms(2-5)] have "service_runs E sv st ?b" by (rule rtranclp_trans)
  moreover have "server_step E sv ?b (st\<lparr>sr_shared := s\<lparr>ses := ses (sr_shared st)\<rparr>\<rparr>)"
    using sv_ends [of ?b i "ses s" E sv] assms(2,5)
    by (simp add: put_thread_def close_conn_def fun_upd_idem)
  ultimately show ?thesis by (rule rtranclp.rtrancl_into_rtrancl)
qed

section \<open>Names\<close>

text \<open>The drawn parts of a session's names: its key, its capabilities and its mailboxes.\<close>

definition names :: "session \<Rightarrow> string set" where
  "names ss = {h. h = s_key ss \<or> map_of (s_caps ss) (cap_of_hex h) \<noteq> None
     \<or> map_of (s_mailboxes ss) (mbox_of_hex h) \<noteq> None}"

lemma names_cong:
  "s_key u = s_key t \<Longrightarrow> s_caps u = s_caps t \<Longrightarrow> s_mailboxes u = s_mailboxes t \<Longrightarrow> names u = names t"
  by (simp add: names_def)

lemma id_kinds [simp]: "cap_of_hex h \<noteq> mbox_of_hex h'" "mbox_of_hex h' \<noteq> cap_of_hex h"
  by (simp_all add: cap_of_hex_def mbox_of_hex_def)

definition newly :: "'w env \<Rightarrow> 'w sys \<Rightarrow> 'w sys \<Rightarrow> string set" where
  "newly E s s' = {h. rand_hex E (rng s) 16 = Some h \<and> rng s < rng s'}"

text \<open>A primitive change adds a name only by a draw.\<close>

lemma prim_names: "prim E mint s s' \<Longrightarrow> names (ses s') \<subseteq> names (ses s) \<union> newly E s s'"
proof (induction rule: prim.induct)
  case (p_mint s h s1 c)
  then show ?case by (auto simp: names_def newly_def draw_Some split: if_splits)
next
  case (p_derive s h s1 c r pc)
  then show ?case by (auto simp: names_def newly_def draw_Some split: if_splits)
next
  case (p_revoke s r)
  have "map_of (revoke_entry r (s_caps (ses s))) x \<noteq> None \<longleftrightarrow> map_of (s_caps (ses s)) x \<noteq> None" for x
    by (auto simp: map_of_revoke_entry split: option.splits)
  then show ?case by (auto simp: names_def)
next
  case (p_mailbox s h s1)
  then show ?case by (auto simp: names_def newly_def draw_Some split: if_splits)
next
  case (p_post s r c m box msg)
  then show ?case by (auto simp: names_def split: if_splits)
qed (simp_all add: names_def)

lemma setup_prim_prim: "setup_prim E ws s s' \<Longrightarrow> prim E True s s'"
proof (induction rule: setup_prim.induct)
  case (s_mint s h s1 c)
  then show ?case by (intro p_mint) (simp_all add: workspace_root_def)
qed (auto intro: p_world p_audit p_bootstrap)

lemma names_drawn: "conn_inv E s \<Longrightarrow> drawn E (rng s) (s_key (ses s)) \<Longrightarrow> h \<in> names (ses s) \<Longrightarrow> drawn E (rng s) h"
  unfolding names_def conn_inv_def table_inv_def caps_drawn_def mail_inv_def by fastforce

lemma newly_fresh:
  "draws_distinct E (rng s') \<Longrightarrow> h \<in> newly E s s' \<Longrightarrow> \<not> drawn E (rng s) h"
  unfolding newly_def using draw_fresh draws_distinct_le [of E "rng s'" "Suc (rng s)"] by auto

text \<open>What disjoint names mean for the tables.\<close>

lemma names_apart:
  assumes "names t \<inter> names u = {}" "conn_inv E s" "ses s = t"
  shows "s_key t \<noteq> s_key u \<and> dom (map_of (s_caps t)) \<inter> dom (map_of (s_caps u)) = {}
    \<and> dom (map_of (s_mailboxes t)) \<inter> dom (map_of (s_mailboxes u)) = {}"
proof (intro conjI)
  show "s_key t \<noteq> s_key u" using assms(1) by (auto simp: names_def)
  have "\<exists>h. x = cap_of_hex h" if "x \<in> dom (map_of (s_caps t))" for x
    using that assms(2,3) unfolding conn_inv_def table_inv_def caps_drawn_def by blast
  then show "dom (map_of (s_caps t)) \<inter> dom (map_of (s_caps u)) = {}" using assms(1) unfolding names_def by blast
  have "\<exists>h. x = mbox_of_hex h" if "x \<in> dom (map_of (s_mailboxes t))" for x
    using that assms(2,3) unfolding conn_inv_def mail_inv_def by blast
  then show "dom (map_of (s_mailboxes t)) \<inter> dom (map_of (s_mailboxes u)) = {}" using assms(1) unfolding names_def by blast
qed

section \<open>A guest's capabilities\<close>

lemma setup_guest_caps: "setup_prim E ws s s' \<Longrightarrow> guest_caps E ws (ses s) \<Longrightarrow> guest_caps E ws (ses s')"
proof (induction rule: setup_prim.induct)
  case (s_mint s h s1 c)
  then show ?case using guest_caps_insert guest_cap_root by blast
qed (auto simp: guest_caps_def)

section \<open>The invariant\<close>

definition session_ok :: "'w env \<Rightarrow> service \<Rightarrow> 'w sys \<Rightarrow> bool" where
  "session_ok E sv s \<longleftrightarrow> conn_inv E s \<and> drawn E (rng s) (s_key (ses s))
     \<and> (\<forall>ws. po_role (sv_policy sv) = Guest \<longrightarrow> po_workspace (sv_policy sv) = Some ws \<longrightarrow> guest_caps E ws (ses s))"

definition threads_ok :: "'w env \<Rightarrow> service \<Rightarrow> 'w server \<Rightarrow> bool" where
  "threads_ok E sv st \<longleftrightarrow>
     (\<forall>i t. sr_threads st i = Some t \<longrightarrow> session_ok E sv (seen st (th_ses t)))
     \<and> (\<forall>i j t u. i \<noteq> j \<longrightarrow> sr_threads st i = Some t \<longrightarrow> sr_threads st j = Some u \<longrightarrow>
          names (th_ses t) \<inter> names (th_ses u) = {})"

definition count_ok :: "'w server \<Rightarrow> bool" where
  "count_ok st \<longleftrightarrow> finite (dom (sr_threads st))
     \<and> sr_conns st = sr_spawned st + card (dom (sr_threads st)) + sr_dead st + of_bool (sr_refusing st)
     \<and> sr_spawned st + card (dom (sr_threads st)) + sr_dead st \<le> MAX_CONNS"

lemma session_ok_others: "session_ok E sv s \<Longrightarrow> ses s' = ses s \<Longrightarrow> rng s \<le> rng s' \<Longrightarrow> session_ok E sv s'"
  unfolding session_ok_def using conn_inv_others drawn_le by metis

lemma threads_okD: "threads_ok E sv st \<Longrightarrow> sr_threads st i = Some t \<Longrightarrow> session_ok E sv (seen st (th_ses t))"
  unfolding threads_ok_def by blast

lemma threads_apart:
  "threads_ok E sv st \<Longrightarrow> i \<noteq> j \<Longrightarrow> sr_threads st i = Some t \<Longrightarrow> sr_threads st j = Some u \<Longrightarrow>
     names (th_ses t) \<inter> names (th_ses u) = {}"
  unfolding threads_ok_def by blast

lemma threads_ok_cong:
  assumes "threads_ok E sv st" "sr_threads st' = sr_threads st" "rng (sr_shared st) \<le> rng (sr_shared st')"
  shows "threads_ok E sv st'"
proof -
  have "session_ok E sv (seen st' (th_ses t))" if "sr_threads st' i = Some t" for i t
    by (rule session_ok_others [OF threads_okD [OF assms(1)]]) (use that assms in simp_all)
  then show ?thesis using assms(1,2) by (simp add: threads_ok_def)
qed

text \<open>One thread's session changes and takes at most a name that is new.\<close>

lemma put_threads_ok:
  assumes ok: "threads_ok E sv st" and s: "session_ok E sv s" "rng (sr_shared st) \<le> rng s" "draws_distinct E (rng s)"
    and t: "th_ses t = ses s"
    and new: "names (ses s) \<subseteq> (case sr_threads st i of None \<Rightarrow> {} | Some u \<Rightarrow> names (th_ses u)) \<union> newly E (sr_shared st) s"
  shows "threads_ok E sv (put_thread i (Some t) s st)"
proof -
  let ?st = "put_thread i (Some t) s st"
  have ses: "session_ok E sv (seen ?st (th_ses u))" if "sr_threads ?st j = Some u" for j u
  proof (cases "j = i")
    case True
    then have "th_ses u = ses s" using that t by simp
    then show ?thesis using s(1) by simp
  next
    case False
    then have "session_ok E sv (seen st (th_ses u))" using that threads_okD [OF ok] by simp
    then show ?thesis by (rule session_ok_others) (use s(2) in simp_all)
  qed
  have apart: "names (ses s) \<inter> names (th_ses u) = {}" if u: "sr_threads st j = Some u" "j \<noteq> i" for j u
  proof -
    have "session_ok E sv (seen st (th_ses u))" using u threads_okD [OF ok] by simp
    then have "drawn E (rng (sr_shared st)) h" if "h \<in> names (th_ses u)" for h
      using names_drawn [of E "seen st (th_ses u)" h] that by (simp add: session_ok_def)
    then have "newly E (sr_shared st) s \<inter> names (th_ses u) = {}" using newly_fresh [OF s(3)] by blast
    moreover have "names (th_ses v) \<inter> names (th_ses u) = {}" if "sr_threads st i = Some v" for v
      using threads_apart [OF ok _ that u(1)] u(2) by simp
    ultimately show ?thesis using new by (cases "sr_threads st i") auto
  qed
  have dis: "names (th_ses v) \<inter> names (th_ses u) = {}"
    if "k \<noteq> j" "sr_threads ?st k = Some v" "sr_threads ?st j = Some u" for j k u v
  proof -
    show ?thesis
    proof (cases "k = i \<or> j = i")
      case True
      then show ?thesis using apart [of j u] apart [of k v] that t by auto
    next
      case False
      then show ?thesis using that threads_apart [OF ok that(1)] by simp
    qed
  qed
  show ?thesis unfolding threads_ok_def using ses dis by blast
qed

lemma drop_threads_ok: "threads_ok E sv st \<Longrightarrow> threads_ok E sv (put_thread i None (sr_shared st) st)"
  unfolding threads_ok_def put_thread_def seen_def by auto

lemma start_session_ok:
  assumes "start_session E sv s0 = Some s"
  shows "session_ok E sv s \<and> rng s = Suc (rng s0) \<and> names (ses s) \<subseteq> newly E s0 s"
proof -
  obtain s1 where s1: "(case sv_sink sv of Some _ \<Rightarrow> with_sink E s0 | None \<Rightarrow> new_session E s0) = Some s1"
    and s: "s = (if sv_consent sv then set_consent (set_policy (sv_engine sv) s1) else set_policy (sv_engine sv) s1)"
    using assms by (auto simp: start_session_def bind_eq_Some_conv)
  obtain n where n: "new_session E s0 = Some n" using s1 by (auto simp: with_sink_def split: option.splits)
  have same: "s_caps (ses s) = s_caps (ses n)" "s_mailboxes (ses s) = s_mailboxes (ses n)"
    "s_key (ses s) = s_key (ses n)" "s_audit (ses s) = s_audit (ses n)" "rng s = rng n"
    using s1 n by (auto simp: s set_consent_def set_policy_def with_sink_def split: option.splits)
  obtain h where h: "rand_hex E (rng s0) 16 = Some h" "n = s0\<lparr>rng := Suc (rng s0), ses := blank_session h\<rparr>"
    using n by (auto simp: new_session_def bind_eq_Some_conv draw_Some)
  have inv: "conn_inv E s" by (rule conn_inv_cong [OF same conn_inv_new [OF n]])
  have "s_caps (ses s) = []" "s_key (ses s) = h" "s_mailboxes (ses s) = []" "rng s = Suc (rng s0)"
    using same h by (simp_all add: blank_session_def)
  then show ?thesis using inv h draw_drawn [OF h(1)] by (auto simp: session_ok_def guest_caps_def names_def newly_def)
qed

lemma threads_ok_conns: "threads_ok E sv (st\<lparr>sr_conns := n, sr_dead := d\<rparr>) \<longleftrightarrow> threads_ok E sv st"
  "threads_ok E sv (st\<lparr>sr_conns := n, sr_spawned := k, sr_dead := d\<rparr>) \<longleftrightarrow> threads_ok E sv st"
  "threads_ok E sv (st\<lparr>sr_spawned := k\<rparr>) \<longleftrightarrow> threads_ok E sv st"
  "threads_ok E sv (st\<lparr>sr_conns := n, sr_spawned := k\<rparr>) \<longleftrightarrow> threads_ok E sv st"
  "threads_ok E sv (st\<lparr>sr_conns := n\<rparr>) \<longleftrightarrow> threads_ok E sv st"
  "threads_ok E sv (st\<lparr>sr_conns := n, sr_refusing := b\<rparr>) \<longleftrightarrow> threads_ok E sv st" "threads_ok E sv (st\<lparr>sr_up := b\<rparr>) \<longleftrightarrow> threads_ok E sv st"
  by (simp_all add: threads_ok_def seen_def)

text \<open>What a thread does to its session, by its phase.\<close>

lemma setup_session_ok:
  assumes "setup_prim E ws s s'" "session_ok E sv s" "draws_distinct E (rng s')"
    and "po_workspace (sv_policy sv) = Some ws"
  shows "session_ok E sv s'"
proof -
  have p: "prim E True s s'" by (rule setup_prim_prim [OF assms(1)])
  then have "evolves E True s s'" by (rule r_into_rtranclp)
  from evolves_conn_inv [OF this _ assms(3)] have "conn_inv E s'" using assms(2) by (simp add: session_ok_def)
  moreover have "drawn E (rng s') (s_key (ses s'))"
    using assms(2) prim_key [OF p] drawn_le prim_rng [OF p] by (auto simp: session_ok_def)
  ultimately show ?thesis using setup_guest_caps [OF assms(1)] assms(2,4) by (simp add: session_ok_def)
qed

lemma prim_session_ok:
  assumes p: "prim E (po_role (sv_policy sv) \<noteq> Guest) s s'" and "session_ok E sv s" "draws_distinct E (rng s')"
  shows "session_ok E sv s'"
proof -
  from p have "evolves E (po_role (sv_policy sv) \<noteq> Guest) s s'" by (rule r_into_rtranclp)
  from evolves_conn_inv [OF this _ assms(3)] have "conn_inv E s'"
    using assms(2) by (simp add: session_ok_def)
  moreover have "drawn E (rng s') (s_key (ses s'))"
    using assms(2) prim_key [OF p] drawn_le prim_rng [OF p] by (auto simp: session_ok_def)
  ultimately show ?thesis using prim_guest_caps [OF p] assms(2) by (simp add: session_ok_def)
qed

lemma step_rng: "server_step E sv st st' \<Longrightarrow> rng (sr_shared st) \<le> rng (sr_shared st')"
proof (induction rule: server_step.induct)
  case (sv_opened st n i s)
  then show ?case using start_session_ok [OF sv_opened(4)] by simp
next
  case (sv_sets_up st i ss ws s)
  then show ?case using prim_rng [OF setup_prim_prim] by fastforce
next
  case (sv_works st i ss s)
  then show ?case using prim_rng by fastforce
qed simp_all

lemma runs_rng: "service_runs E sv st st' \<Longrightarrow> rng (sr_shared st) \<le> rng (sr_shared st')"
  by (induction rule: rtranclp_induct) (auto dest: step_rng)

lemma step_threads_ok:
  "server_step E sv st st' \<Longrightarrow> threads_ok E sv st \<Longrightarrow> draws_distinct E (rng (sr_shared st')) \<Longrightarrow> threads_ok E sv st'"
proof (induction rule: server_step.induct)
  case (sv_opened st n i s)
  note start = start_session_ok [OF sv_opened(4)]
  show ?case
    by (rule put_threads_ok) (use sv_opened start in \<open>simp_all add: threads_ok_conns\<close>)
next
  case (sv_sets_up st i ss ws s)
  have p: "prim E True (seen st ss) s" by (rule setup_prim_prim [OF sv_sets_up(5)])
  have d: "draws_distinct E (rng s)" using sv_sets_up(7) by simp
  have "session_ok E sv (seen st ss)" using threads_okD [OF sv_sets_up(6,2)] by simp
  then have "session_ok E sv s" using setup_session_ok [OF sv_sets_up(5)] d sv_sets_up(4) by blast
  then show ?case
    by (rule put_threads_ok [OF sv_sets_up(6)])
      (use d prim_rng [OF p] prim_names [OF p] sv_sets_up(2) in \<open>simp_all add: newly_def\<close>)
next
  case (sv_works st i ss s)
  have d: "draws_distinct E (rng s)" using sv_works(5) by simp
  have "session_ok E sv (seen st ss)" using threads_okD [OF sv_works(4,2)] by simp
  then have "session_ok E sv s" using prim_session_ok [OF sv_works(3)] d by blast
  then show ?case
    by (rule put_threads_ok [OF sv_works(4)])
      (use d prim_rng [OF sv_works(3)] prim_names [OF sv_works(3)] sv_works(2) in \<open>simp_all add: newly_def\<close>)
next
  case (sv_ready st i ss)
  have "seen (put_thread i (Some (Serving ss)) (sr_shared st) st) x = seen st x" for x by (simp add: put_thread_def seen_def)
  then show ?case using sv_ready(2,3) unfolding threads_ok_def
    by (auto split: if_splits) (metis conn_thread.sel(1) disjoint_iff)+
next
  case (sv_ends st i ss)
  then show ?case using drop_threads_ok [of E sv "st\<lparr>sr_conns := close_conn False (sr_conns st)\<rparr>" i]
    by (simp add: threads_ok_conns)
next
  case (sv_dies st i t)
  then show ?case
    using drop_threads_ok [of E sv "st\<lparr>sr_conns := close_conn True (sr_conns st), sr_dead := Suc (sr_dead st)\<rparr>" i]
    by (simp add: threads_ok_conns)
next
  case (sv_outside st r w)
  then show ?case by (elim threads_ok_cong) simp_all
qed (simp_all add: threads_ok_conns)

lemma step_count_ok: "server_step E sv st st' \<Longrightarrow> count_ok st \<Longrightarrow> count_ok st'"
proof (induction rule: server_step.induct)
  case (sv_opened st n i s)
  then have "i \<notin> dom (sr_threads st)" by auto
  then show ?case using sv_opened(2,5) by (auto simp: count_ok_def accept_conn_def split: if_splits)
next
  case (sv_sets_up st i ss ws s)
  then have "insert i (dom (sr_threads st)) = dom (sr_threads st)" by auto
  then show ?case using sv_sets_up(6) by (simp add: count_ok_def)
next
  case (sv_ready st i ss)
  then have "insert i (dom (sr_threads st)) = dom (sr_threads st)" by auto
  then show ?case using sv_ready(3) by (simp add: count_ok_def)
next
  case (sv_works st i ss s)
  then have "insert i (dom (sr_threads st)) = dom (sr_threads st)" by auto
  then show ?case using sv_works(4) by (simp add: count_ok_def)
next
  case (sv_ends st i ss)
  then have "i \<in> dom (sr_threads st)" "0 < card (dom (sr_threads st))" by (auto simp: count_ok_def card_gt_0_iff)
  then show ?case using sv_ends(3) by (auto simp: count_ok_def close_conn_def)
next
  case (sv_dies st i t)
  then have "i \<in> dom (sr_threads st)" "0 < card (dom (sr_threads st))" by (auto simp: count_ok_def card_gt_0_iff)
  then show ?case using sv_dies(3) by (auto simp: count_ok_def close_conn_def)
qed (auto simp: count_ok_def accept_conn_def turn_away_def close_conn_def split: if_splits)

lemma runs_threads_ok:
  "service_runs E sv st st' \<Longrightarrow> threads_ok E sv st \<Longrightarrow> draws_distinct E (rng (sr_shared st')) \<Longrightarrow> threads_ok E sv st'"
proof (induction rule: rtranclp_induct)
  case (step t u)
  then show ?case using step_threads_ok draws_distinct_le step_rng by blast
qed simp

lemma runs_count_ok: "service_runs E sv st st' \<Longrightarrow> count_ok st \<Longrightarrow> count_ok st'"
  by (induction rule: rtranclp_induct) (auto dest: step_count_ok)

lemma start_ok: "threads_ok E sv (service_start s)" "count_ok (service_start s)"
  by (simp_all add: threads_ok_def count_ok_def service_start_def)

section \<open>The common log\<close>

abbreviation log_entry :: "string \<Rightarrow> audit_event \<Rightarrow> event" where
  "log_entry key e \<equiv> (key, ev_op e, ev_detail e, ev_decision e)"

text \<open>What the log has of a session.\<close>

definition on_log :: "event list \<Rightarrow> session \<Rightarrow> bool" where
  "on_log es ss \<longleftrightarrow> s_sink ss \<and> \<not> s_audit_broken ss
     \<and> filter (\<lambda>e. fst e = s_key ss) es = map (log_entry (s_key ss)) (s_audit ss)"

text \<open>Texts without tabs and line breaks, and texts in general.\<close>

definition one_lined :: "string \<times> string \<times> string \<Rightarrow> bool" where
  "one_lined t = (case t of (x, y, z) \<Rightarrow> tab \<notin> set (x @ y @ z) \<and> nl \<notin> set (x @ y @ z))"

definition texts_valid :: "event \<Rightarrow> bool" where
  "texts_valid e = (case e of (k, x, y, z) \<Rightarrow> valid_utf8 x \<and> valid_utf8 y \<and> valid_utf8 z)"

lemma one_line_lined: "one_lined (one_line x, one_line y, one_line z)"
  by (auto simp: one_lined_def one_line_def replace_all_def)

lemma lined_clean:
  assumes "drawn E n (fst e)" "one_lined (snd e)" "texts_valid e" shows "clean_event e"
proof -
  obtain k x y z where e: "e = (k, x, y, z)" by (cases e)
  have "list_all is_hex_digit k" using assms(1) rand_hex_digits by (auto simp: e drawn_def)
  then have "is_ascii k" "tab \<notin> set k" "nl \<notin> set k"
    using is_hex_ascii is_hex_no by (auto simp: list_all_iff)
  then show ?thesis using assms(2,3) clean_ascii [of k]
    by (simp add: e clean_event_def clean_field_def one_lined_def texts_valid_def)
qed

definition log_ok :: "'w env \<Rightarrow> audit_sink \<Rightarrow> disk \<Rightarrow> 'w server \<Rightarrow> event list \<Rightarrow> bool" where
  "log_ok E sk d st es \<longleftrightarrow> record_all es sk d = (True, sink (sr_shared st), disk (sr_shared st))
     \<and> (\<forall>e \<in> set es. drawn E (rng (sr_shared st)) (fst e) \<and> one_lined (snd e))
     \<and> (\<forall>i t. sr_threads st i = Some t \<longrightarrow> on_log es (th_ses t))"

definition no_faults :: "'w env \<Rightarrow> bool" where
  "no_faults E \<longleftrightarrow> (\<forall>w. fst (os_audit_fault E w) = NoFault)"

lemma record_all_append:
  "record_all es sk d = (True, sk', d') \<Longrightarrow> record_all (es @ fs) sk d = record_all fs sk' d'"
  by (induction es sk d rule: record_all.induct) (auto split: prod.splits bool.splits)

lemma record_all_path: "record_all es sk d = (True, sk', d') \<Longrightarrow> sk_path sk' = sk_path sk"
proof (induction es sk d rule: record_all.induct)
  case (2 se op det dec es sk d)
  then obtain sk1 d1 where r: "sink_record NoFault se op det dec sk d = (True, sk1, d1)"
    by (auto split: prod.splits bool.splits)
  then have "sk_path sk1 = sk_path sk" by (rule sink_record_ok_cases) simp
  then show ?case using 2 r by simp
qed simp

lemma one_line_next:
  "ev_op (next_event l op d c) = one_line op" "ev_detail (next_event l op d c) = one_line d"
  "ev_decision (next_event l op d c) = one_line c"
  by (simp_all add: next_event_def Let_def)

lemma audit_records:
  assumes "s_sink (ses s)" "no_faults E" "CHR ''/'' \<in> set (sk_path (sink s))"
  shows "record_all [(s_key (ses s), one_line op, one_line d, one_line c)] (sink s) (disk s)
      = (True, sink (snd (audit E op d c s)), disk (snd (audit E op d c s)))
    \<and> fst (audit E op d c s)"
proof -
  obtain w where w: "os_audit_fault E (world s) = (NoFault, w)"
    using assms(2) unfolding no_faults_def by (metis prod.collapse)
  obtain sk dk where r: "sink_record NoFault (s_key (ses s)) (one_line op) (one_line d) (one_line c) (sink s) (disk s) = (True, sk, dk)"
    using sink_record_succeeds [of "sink s" "s_key (ses s)" "one_line op" "one_line d" "one_line c" "disk s"] assms(3)
    by (cases "sink_record NoFault (s_key (ses s)) (one_line op) (one_line d) (one_line c) (sink s) (disk s)")
      (auto simp: parent_opens_def)
  show ?thesis using assms(1) w r by (simp add: audit_def)
qed

lemma prim_log:
  "prim E mint s s' \<Longrightarrow> (s_audit (ses s') = s_audit (ses s) \<and> s_sink (ses s') = s_sink (ses s)
       \<and> s_audit_broken (ses s') = s_audit_broken (ses s) \<and> sink s' = sink s \<and> disk s' = disk s)
     \<or> (\<exists>op d c. s' = snd (audit E op d c s))"
  by (induction rule: prim.induct) (auto simp: draw_Some insert_cap_def)

lemma on_log_cong:
  "on_log es ss \<Longrightarrow> s_key ss' = s_key ss \<Longrightarrow> s_audit ss' = s_audit ss \<Longrightarrow> s_sink ss' = s_sink ss \<Longrightarrow>
     s_audit_broken ss' = s_audit_broken ss \<Longrightarrow> on_log es ss'"
  by (simp add: on_log_def)

text \<open>A primitive change of one thread, as the log sees it.\<close>

lemma prim_log_ok:
  assumes log: "log_ok E sk d st es" and th: "threads_ok E sv st" "sr_threads st i = Some t0" "th_ses t0 = ss"
    and p: "prim E mint (seen st ss) s" and t: "th_ses t = ses s"
    and E: "no_faults E" "CHR ''/'' \<in> set (sk_path sk)"
  shows "\<exists>es'. log_ok E sk d (put_thread i (Some t) s st) es'"
proof -
  let ?st = "put_thread i (Some t) s st"
  have mine: "on_log es ss" and run: "record_all es sk d = (True, sink (sr_shared st), disk (sr_shared st))"
    using log th by (auto simp: log_ok_def)
  have rng: "rng (sr_shared st) \<le> rng s" using prim_rng [OF p] by simp
  have key: "s_key (ses s) = s_key ss" using prim_key [OF p] by simp
  consider "s_audit (ses s) = s_audit ss" "s_sink (ses s) = s_sink ss" "s_audit_broken (ses s) = s_audit_broken ss"
      "sink s = sink (sr_shared st)" "disk s = disk (sr_shared st)"
    | op det c where "s = snd (audit E op det c (seen st ss))"
    using prim_log [OF p] by auto
  then show ?thesis
  proof cases
    case 1
    have "on_log es (ses s)" using on_log_cong [OF mine] 1 key by simp
    then have "log_ok E sk d ?st es"
      using log 1 t drawn_le [OF _ rng] by (auto simp: log_ok_def)
    then show ?thesis ..
  next
    case 2
    let ?e = "(s_key ss, one_line op, one_line det, one_line c)"
    have path: "CHR ''/'' \<in> set (sk_path (sink (seen st ss)))" using E(2) record_all_path [OF run] by simp
    have snk: "s_sink (ses (seen st ss))" using mine by (simp add: on_log_def)
    note rec = audit_records [OF snk E(1) path, of op det c]
    have all: "record_all (es @ [?e]) sk d = (True, sink s, disk s)"
      unfolding record_all_append [OF run] using rec 2 by simp
    have "drawn E (rng (sr_shared st)) (s_key ss)"
      using threads_okD [OF th(1,2)] th(3) by (simp add: session_ok_def)
    then have keys: "drawn E (rng s) (fst e) \<and> one_lined (snd e)" if "e \<in> set (es @ [?e])" for e
      using that log one_line_lined by (auto simp: log_ok_def intro: drawn_le [OF _ rng])
    have "on_log (es @ [?e]) (ses s)"
      using mine 2 rec by (simp add: on_log_def one_line_next audit_broken)
    moreover have "on_log (es @ [?e]) (th_ses u)" if u: "sr_threads st j = Some u" "j \<noteq> i" for j u
    proof -
      have "s_key (th_ses u) \<noteq> s_key ss"
        using threads_apart [OF th(1) u(2) u(1) th(2)] th(3) by (auto simp: names_def)
      moreover have "on_log es (th_ses u)" using log u by (auto simp: log_ok_def)
      ultimately show ?thesis by (auto simp: on_log_def)
    qed
    ultimately have "log_ok E sk d ?st (es @ [?e])"
      using all keys t by (simp add: log_ok_def)
    then show ?thesis ..
  qed
qed

lemma start_session_log:
  assumes "start_session E sv s0 = Some s" "sv_sink sv \<noteq> None"
  shows "sink s = sink s0 \<and> disk s = disk s0 \<and> s_sink (ses s) \<and> \<not> s_audit_broken (ses s) \<and> s_audit (ses s) = []
    \<and> s_key (ses s) \<in> newly E s0 s"
  using assms by (cases "sv_consent sv") (auto simp: start_session_def with_sink_def new_session_def bind_eq_Some_conv draw_Some
      set_policy_def set_consent_def blank_session_def newly_def)

lemma log_ok_cong:
  "log_ok E sk d st es \<Longrightarrow> sink (sr_shared st') = sink (sr_shared st) \<Longrightarrow> disk (sr_shared st') = disk (sr_shared st) \<Longrightarrow>
     rng (sr_shared st) \<le> rng (sr_shared st') \<Longrightarrow>
     (\<And>i t. sr_threads st' i = Some t \<Longrightarrow> \<exists>j u. sr_threads st j = Some u \<and> th_ses u = th_ses t) \<Longrightarrow> log_ok E sk d st' es"
  unfolding log_ok_def by (metis drawn_le)

lemma step_log_ok:
  assumes "server_step E sv st st'" "log_ok E sk d st es" "threads_ok E sv st" "draws_distinct E (rng (sr_shared st'))"
    and "sv_sink sv \<noteq> None" "no_faults E" "CHR ''/'' \<in> set (sk_path sk)"
  shows "\<exists>es'. log_ok E sk d st' es'"
  using assms
proof (induction rule: server_step.induct)
  case (sv_opened st n i s)
  note start = start_session_log [OF sv_opened(4,8)] and ok = start_session_ok [OF sv_opened(4)]
  have fresh: "\<not> drawn E (rng (sr_shared st)) (s_key (ses s))"
    by (rule newly_fresh [where s' = s]) (use sv_opened(7) start in simp_all)
  then have "filter (\<lambda>e. fst e = s_key (ses s)) es = []"
    using sv_opened(5) by (auto simp: log_ok_def filter_empty_conv)
  then have "on_log es (ses s)" using start by (simp add: on_log_def)
  then have "log_ok E sk d (put_thread i (Some (Starting (ses s))) s (st\<lparr>sr_spawned := n\<rparr>)) es"
    using sv_opened(5) start ok drawn_le [of E "rng (sr_shared st)" _ "rng s"] by (auto simp: log_ok_def)
  then show ?case ..
next
  case (sv_sets_up st i ss ws s)
  then show ?case by (intro prim_log_ok [OF _ _ _ _ setup_prim_prim]) auto
next
  case (sv_works st i ss s)
  then show ?case by (intro prim_log_ok) auto
next
  case (sv_ready st i ss)
  have ex: "\<exists>j u. sr_threads st j = Some u \<and> th_ses u = th_ses t" if "((sr_threads st)(i \<mapsto> Serving ss)) k = Some t" for k t
    using that sv_ready(2) by (cases "k = i") (auto intro: exI [of _ i])
  show ?case by (rule exI, rule log_ok_cong [OF sv_ready(3)]) (simp_all only: put_thread_sel ex)
next
  case (sv_ends st i ss)
  show ?case by (rule exI, rule log_ok_cong [OF sv_ends(3)]) (auto split: if_splits)
next
  case (sv_dies st i t)
  show ?case by (rule exI, rule log_ok_cong [OF sv_dies(3)]) (auto split: if_splits)
next
  case (sv_outside st r w)
  show ?case by (rule exI, rule log_ok_cong [OF sv_outside(3)]) (use sv_outside(2) in auto)
qed (auto simp: log_ok_def)

lemma runs_log_ok:
  assumes "service_runs E sv st st'" "log_ok E sk d st es" "threads_ok E sv st" "draws_distinct E (rng (sr_shared st'))"
    and "sv_sink sv \<noteq> None" "no_faults E" "CHR ''/'' \<in> set (sk_path sk)"
  shows "\<exists>es'. log_ok E sk d st' es'"
  using assms
proof (induction rule: rtranclp_induct)
  case (step t u)
  have d: "draws_distinct E (rng (sr_shared t))" by (rule draws_distinct_le [OF step(6) step_rng [OF step(2)]])
  then obtain es' where "log_ok E sk d t es'" using step by blast
  from step_log_ok [OF step(2) this runs_threads_ok [OF step(1,5) d] step(6-9)] show ?case .
qed blast

section \<open>Nobody approves in a guest's service\<close>

text \<open>
  A service has one policy for all its connections. In a guest's service no connection is of the
  control plane, so whatever the policy engine prompts for stays pending for ever.
\<close>

definition all_pending :: "consent_ledger \<Rightarrow> bool" where
  "all_pending l \<longleftrightarrow> (\<forall>p \<in> set (reqs l). rq_status (snd p) = Pending)"

lemma update_members: "p \<in> set (AList.update k v xs) \<Longrightarrow> p = (k, v) \<or> p \<in> set xs"
  by (induction xs) (auto split: if_splits)

lemma ask_all_pending: "all_pending l \<Longrightarrow> all_pending (snd (request_or_check sig key detail l))"
proof (cases "find_req sig key l")
  case None
  assume "all_pending l"
  then show ?thesis using None unfolding all_pending_def
    by (auto simp: request_or_check_def Let_def dest: update_members)
next
  case (Some iq)
  assume l: "all_pending l"
  obtain i q where iq: "iq = (i, q)" by (cases iq)
  have "(i, q) \<in> set (reqs l)" using find_req_Some Some iq by blast
  then have "rq_status q = Pending" using l by (auto simp: all_pending_def)
  then show ?thesis using Some iq l by (simp add: request_or_check_def)
qed

lemma pending_not_approved: "all_pending l \<Longrightarrow> fst (request_or_check sig key detail l) \<noteq> Now_Approved"
proof (cases "find_req sig key l")
  case (Some iq)
  assume l: "all_pending l"
  obtain i q where iq: "iq = (i, q)" by (cases iq)
  have "(i, q) \<in> set (reqs l)" using find_req_Some Some iq by blast
  then have "rq_status q = Pending" using l by (auto simp: all_pending_def)
  then show ?thesis using Some iq by (simp add: request_or_check_def)
qed (simp add: request_or_check_def Let_def)

lemma prim_all_pending: "prim E mint s s' \<Longrightarrow> \<not> mint \<Longrightarrow> all_pending (ledger s) \<Longrightarrow> all_pending (ledger s')"
  by (induction rule: prim.induct) (auto simp: draw_Some ask_all_pending)

lemma start_session_ledger: "start_session E sv s0 = Some s \<Longrightarrow> ledger s = ledger s0"
  by (cases "sv_consent sv") (auto simp: start_session_def with_sink_def new_session_def bind_eq_Some_conv draw_Some
      set_policy_def set_consent_def split: option.splits)

lemma step_all_pending:
  "server_step E sv st st' \<Longrightarrow> po_role (sv_policy sv) = Guest \<Longrightarrow> all_pending (ledger (sr_shared st)) \<Longrightarrow>
     all_pending (ledger (sr_shared st'))"
proof (induction rule: server_step.induct)
  case (sv_opened st n i s)
  then show ?case using start_session_ledger by fastforce
next
  case (sv_sets_up st i ss ws s)
  have "ledger s = ledger (sr_shared st)" using sv_sets_up(5)
    by (cases rule: setup_prim.cases) (auto simp: draw_Some)
  then show ?case using sv_sets_up by simp
next
  case (sv_works st i ss s)
  then show ?case using prim_all_pending [OF sv_works(3)] by simp
qed simp_all

lemma guest_service_never_approves:
  assumes "service_runs E sv (service_start s0) st" "po_role (sv_policy sv) = Guest" "all_pending (ledger s0)"
    and "decide (s_l5 ss) verb = Prompt"
  shows "is_err (fst (gate E verb sig hint detail (seen st ss)))"
proof -
  have "all_pending (ledger (sr_shared st))"
    using assms(1-3) by (induction rule: rtranclp_induct) (auto simp: service_start_def intro: step_all_pending)
  then have "fst (request_or_check sig (s_key ss) detail (ledger (sr_shared st))) \<noteq> Now_Approved"
    by (rule pending_not_approved)
  then show ?thesis using assms(4)
    by (auto simp: gate_def split: prod.splits consent_outcome.splits)
qed

section \<open>Properties\<close>

lemma step_dead: "server_step E sv st st' \<Longrightarrow> sr_dead st \<le> sr_dead st'"
  by (induction rule: server_step.induct) simp_all

lemma runs_dead: "service_runs E sv st st' \<Longrightarrow> sr_dead st \<le> sr_dead st'"
  by (induction rule: rtranclp_induct) (auto dest: step_dead)

text \<open>
  C10: The service as a whole, whatever its connections do and however they interleave: the counter
  counts the running threads and, for ever, the ones that panicked, which are never more than 64, and
  for a moment the connection being turned away; after 64 panics nothing runs and no connection is
  accepted again. Every session keeps its invariant, every guest's session has only directories at or
  below the workspace, to read and list, and no two sessions share a key, a reference or a mailbox.
\<close>

theorem service_invariant:
  assumes "service_runs E sv (service_start s0) st" "draws_distinct E (rng (sr_shared st))"
  shows "sr_conns st = sr_spawned st + card (dom (sr_threads st)) + sr_dead st + of_bool (sr_refusing st)
    \<and> sr_spawned st + card (dom (sr_threads st)) + sr_dead st \<le> MAX_CONNS
    \<and> (MAX_CONNS \<le> sr_dead st \<longrightarrow> (\<forall>st'. service_runs E sv st st' \<longrightarrow>
         sr_threads st' = Map.empty \<and> \<not> fst (accept_conn (sr_conns st'))))
    \<and> (\<forall>i t. sr_threads st i = Some t \<longrightarrow> conn_inv E (seen st (th_ses t))
         \<and> (\<forall>ws. po_role (sv_policy sv) = Guest \<longrightarrow> po_workspace (sv_policy sv) = Some ws \<longrightarrow> guest_caps E ws (th_ses t))
         \<and> (\<forall>j u. sr_threads st j = Some u \<longrightarrow> i \<noteq> j \<longrightarrow>
              s_key (th_ses t) \<noteq> s_key (th_ses u)
              \<and> dom (map_of (s_caps (th_ses t))) \<inter> dom (map_of (s_caps (th_ses u))) = {}
              \<and> dom (map_of (s_mailboxes (th_ses t))) \<inter> dom (map_of (s_mailboxes (th_ses u))) = {}))"
proof -
  have count: "count_ok st" by (rule runs_count_ok [OF assms(1) start_ok(2)])
  have ok: "threads_ok E sv st" by (rule runs_threads_ok [OF assms(1) start_ok(1) assms(2)])
  have closed: "sr_threads st' = Map.empty \<and> \<not> fst (accept_conn (sr_conns st'))"
    if "MAX_CONNS \<le> sr_dead st" "service_runs E sv st st'" for st'
  proof -
    have "count_ok st'" "MAX_CONNS \<le> sr_dead st'"
      using runs_count_ok [OF that(2) count] runs_dead [OF that(2)] that(1) by simp_all
    moreover from this have "card (dom (sr_threads st')) = 0" unfolding count_ok_def by linarith
    ultimately show ?thesis by (simp add: count_ok_def accept_conn_def)
  qed
  have apart: "s_key (th_ses t) \<noteq> s_key (th_ses u)
      \<and> dom (map_of (s_caps (th_ses t))) \<inter> dom (map_of (s_caps (th_ses u))) = {}
      \<and> dom (map_of (s_mailboxes (th_ses t))) \<inter> dom (map_of (s_mailboxes (th_ses u))) = {}"
    if "sr_threads st i = Some t" "sr_threads st j = Some u" "i \<noteq> j" for i j t u
    by (rule names_apart [OF threads_apart [OF ok that(3,1,2)], of E "seen st (th_ses t)"])
      (use threads_okD [OF ok that(1)] in \<open>simp_all add: session_ok_def\<close>)
  show ?thesis
    using count closed apart threads_okD [OF ok] by (simp add: count_ok_def session_ok_def)
qed

text \<open>A service with a log, and two of its connections, the first with an entry on record.\<close>

definition logged_service :: service where
  "logged_service = demo_service\<lparr>sv_sink := Some demo_sink\<rparr>"

definition fresh_session :: "string \<Rightarrow> session" where
  "fresh_session h = (blank_session h)\<lparr>s_sink := True, s_l5 := allow_all, s_consent := True\<rparr>"

lemma logged_start:
  "start_session quiet_env logged_service s
     = Some (s\<lparr>rng := Suc (rng s), ses := fresh_session (low_bytes @ hex_fixed 2 (rng s mod 256))\<rparr>)"
  by (simp add: start_session_def logged_service_def demo_service_def with_sink_def new_session_def draw_def quiet_draw
      set_policy_def set_consent_def fresh_session_def blank_session_def)

lemma logged_opens:
  assumes "sr_up st" "\<not> sr_refusing st" "sr_conns st < MAX_CONNS" "sr_threads st i = None"
    and "a = (sr_shared st)\<lparr>rng := Suc (rng (sr_shared st)), ses := fresh_session (low_bytes @ hex_fixed 2 (rng (sr_shared st) mod 256))\<rparr>"
  shows "service_runs quiet_env logged_service st
    (put_thread i (Some (Starting (ses a))) a (st\<lparr>sr_conns := Suc (sr_conns st)\<rparr>))"
proof -
  let ?a = "st\<lparr>sr_conns := Suc (sr_conns st), sr_spawned := Suc (sr_spawned st)\<rparr>"
  have "accept_conn (sr_conns st) = (True, Suc (sr_conns st))" using assms(3) by (simp add: accept_conn_def)
  from sv_accepted [OF assms(1,2) this] have "server_step quiet_env logged_service st ?a" .
  moreover have "start_session quiet_env logged_service (sr_shared ?a) = Some a" unfolding logged_start assms(5) by simp
  from sv_opened [OF _ _ _ this, of "sr_spawned st" i]
  have "server_step quiet_env logged_service ?a (put_thread i (Some (Starting (ses a))) a (st\<lparr>sr_conns := Suc (sr_conns st)\<rparr>))"
    using assms(1,4) by (simp add: put_thread_def)
  ultimately show ?thesis by (rule two_steps)
qed

lemma logged_run:
  "\<exists>st t u. service_runs quiet_env logged_service (service_start demo_sys) st \<and> sr_threads st 0 = Some t
     \<and> sr_threads st 1 = Some u \<and> rng (sr_shared st) = 3 \<and> length (s_audit (th_ses t)) = 1"
proof -
  let ?s0 = "service_start demo_sys" and ?run = "service_runs quiet_env logged_service"
  define k where "k i = fresh_session (low_bytes @ hex_fixed 2 (i mod 256))" for i :: nat
  define a where "a = demo_sys\<lparr>rng := 2, ses := k 1\<rparr>"
  define s1 where "s1 = put_thread 0 (Some (Starting (ses a))) a (?s0\<lparr>sr_conns := 1\<rparr>)"
  define b where "b = snd (audit quiet_env ''grant_dir'' [] ''allow'' (seen s1 (ses a)))"
  define s2 where "s2 = put_thread 0 (Some (Starting (ses b))) b s1"
  define c where "c = (sr_shared s2)\<lparr>rng := 3, ses := k 2\<rparr>"
  define s3 where "s3 = put_thread 1 (Some (Starting (ses c))) c (s2\<lparr>sr_conns := 2\<rparr>)"
  have 1: "?run ?s0 s1"
    using logged_opens [of ?s0 0 a] by (simp add: service_start_def a_def s1_def k_def MAX_CONNS_def)
  have t1: "sr_threads s1 0 = Some (Starting (ses a))" "sr_up s1" by (simp_all add: s1_def service_start_def)
  have role: "po_role (sv_policy logged_service) = Guest" "po_workspace (sv_policy logged_service) = Some ''/srv/ws''"
    by (simp_all add: logged_service_def demo_service_def)
  have "setup_prim quiet_env ''/srv/ws'' (seen s1 (ses a)) b" unfolding b_def by (rule s_audit)
  from sv_sets_up [OF t1(2,1) role this] have 2: "server_step quiet_env logged_service s1 s2" by (simp add: s2_def)
  have t2: "rng (sr_shared s2) = 2" "sr_conns s2 = 1" "sr_up s2" "\<not> sr_refusing s2" "sr_threads s2 1 = None"
    by (simp_all add: s2_def b_def s1_def a_def service_start_def)
  have 3: "?run s2 s3"
    using logged_opens [of s2 1 c] t2 by (simp add: s3_def c_def k_def MAX_CONNS_def numeral_2_eq_2)
  have "?run ?s0 s3" using rtranclp.rtrancl_into_rtrancl [OF 1 2] 3 by (rule rtranclp_trans)
  moreover have "sr_threads s3 0 = Some (Starting (ses b))" "sr_threads s3 1 = Some (Starting (ses c))" "rng (sr_shared s3) = 3"
    by (simp_all add: s3_def s2_def c_def)
  moreover have "length (s_audit (ses b)) = 1" by (simp add: b_def a_def k_def fresh_session_def blank_session_def)
  ultimately show ?thesis by (intro exI [of _ s3] exI [of _ "Starting (ses b)"] exI [of _ "Starting (ses c)"]) simp
qed

lemma service_invariant_witness:
  "\<exists>(st :: unit server) t u. sr_threads st 0 = Some t \<and> sr_threads st 1 = Some u \<and> guest_caps quiet_env ''/srv/ws'' (th_ses t)
     \<and> s_key (th_ses t) \<noteq> s_key (th_ses u) \<and> sr_conns st = sr_spawned st + card (dom (sr_threads st)) + sr_dead st + of_bool (sr_refusing st)"
proof -
  obtain st t u where st: "service_runs quiet_env logged_service (service_start demo_sys) st" "sr_threads st 0 = Some t"
    "sr_threads st 1 = Some u" "rng (sr_shared st) = 3"
    using logged_run by blast
  have "draws_distinct quiet_env (rng (sr_shared st))" using st(4) quiet_draws_distinct by simp
  note inv = service_invariant [OF st(1) this]
  have role: "po_role (sv_policy logged_service) = Guest" "po_workspace (sv_policy logged_service) = Some ''/srv/ws''"
    by (simp_all add: logged_service_def demo_service_def)
  have "guest_caps quiet_env ''/srv/ws'' (th_ses t)" using inv st(2) role by blast
  moreover have "s_key (th_ses t) \<noteq> s_key (th_ses u)" using inv st(2,3) by (metis zero_neq_one)
  moreover have "sr_conns st = sr_spawned st + card (dom (sr_threads st)) + sr_dead st + of_bool (sr_refusing st)" by (rule conjunct1 [OF inv])
  ultimately show ?thesis using st(2,3) by (intro exI [of _ st] exI [of _ t] exI [of _ u]) simp
qed

text \<open>
  C20: The durable log is a faithful interleaving of what the sessions have on record. While no write
  fails, there is a list of events that, recorded one after the other from the start, gives exactly
  the sink and the files the service has reached, and whose events of a running session are that
  session's in-memory audit, in its order, none missing. Unless the counter wraps around, the files
  then verify; of the texts only that they are UTF-8 is asked, which strings of the source are.
\<close>

theorem service_log:
  assumes "service_runs E sv (service_start s0) st" "draws_distinct E (rng (sr_shared st))"
    and "sv_sink sv = Some (sink s0)" "no_faults E" "CHR ''/'' \<in> set (sk_path (sink s0))"
  shows "\<exists>es. record_all es (sink s0) (disk s0) = (True, sink (sr_shared st), disk (sr_shared st))
    \<and> (\<forall>i t. sr_threads st i = Some t \<longrightarrow>
         filter (\<lambda>e. fst e = s_key (th_ses t)) es = map (log_entry (s_key (th_ses t))) (s_audit (th_ses t)))
    \<and> (reads_fine E \<longrightarrow> synced (sink s0) (disk s0) \<longrightarrow> log_room (disk s0) (length es) \<longrightarrow>
         list_all texts_valid es \<longrightarrow> es \<noteq> [] \<longrightarrow> fst (verify_persisted E (disk (sr_shared st)) w))"
proof -
  have "log_ok E (sink s0) (disk s0) (service_start s0) []" by (simp add: log_ok_def service_start_def)
  from runs_log_ok [OF assms(1) this start_ok(1) assms(2) _ assms(4,5)]
  obtain es where es: "log_ok E (sink s0) (disk s0) st es" using assms(3) by auto
  have "fst (verify_persisted E (disk (sr_shared st)) w)"
    if "reads_fine E" "synced (sink s0) (disk s0)" "log_room (disk s0) (length es)" "list_all texts_valid es" "es \<noteq> []"
  proof -
    have "list_all clean_event es" using es that(4) by (auto simp: log_ok_def list_all_iff intro: lined_clean)
    from record_all_synced [OF that(2,3) this assms(5)] show ?thesis
      using that(5) es synced_verifies [OF _ _ that(1)] by (auto simp: log_ok_def)
  qed
  then show ?thesis using es by (auto simp: log_ok_def on_log_def intro!: exI [of _ es])
qed

lemma service_log_witness:
  "\<exists>(st :: unit server) t es. sr_threads st 0 = Some t \<and> length (filter (\<lambda>e. fst e = s_key (th_ses t)) es) = 1
     \<and> record_all es demo_sink demo_disk = (True, sink (sr_shared st), disk (sr_shared st))"
proof -
  obtain st t where st: "service_runs quiet_env logged_service (service_start demo_sys) st" "sr_threads st 0 = Some t"
    "rng (sr_shared st) = 3" "length (s_audit (th_ses t)) = 1"
    using logged_run by blast
  have d: "draws_distinct quiet_env (rng (sr_shared st))" using st(3) quiet_draws_distinct by simp
  have s: "sink demo_sys = demo_sink" "disk demo_sys = demo_disk" by (simp_all add: demo_sys_def)
  have h: "no_faults quiet_env" "sv_sink logged_service = Some (sink demo_sys)" "CHR ''/'' \<in> set (sk_path (sink demo_sys))"
    by (simp_all add: no_faults_def quiet_env_def logged_service_def s) (simp add: demo_sink_def)
  obtain es where es: "record_all es demo_sink demo_disk = (True, sink (sr_shared st), disk (sr_shared st))"
    "filter (\<lambda>e. fst e = s_key (th_ses t)) es = map (log_entry (s_key (th_ses t))) (s_audit (th_ses t))"
    using service_log [OF st(1) d h(2,1,3)] st(2) unfolding s by blast
  then show ?thesis using st(2,4) by (intro exI [of _ st] exI [of _ t] exI [of _ es]) simp
qed

end
