(* ===== verification/Cap_Types.thy ===== *)
theory Cap_Types
  imports Service
begin

text \<open>
  The types the capabilities of a session would have if Rust's \<open>struct Cap\<close> were a sum: what a minted
  capability of each kind carries, and what a derived one does. Some of what the code checks again at
  each use, and gives an error for, cannot happen; a missing root descriptor can, and only for a
  read-only child of something that is neither a directory nor a command.
\<close>

section \<open>Shapes are kept\<close>

lemma shapes_insert:
  "shapes (ses s) \<Longrightarrow> draw E s = Some (h, s1) \<Longrightarrow> cap_shape c \<Longrightarrow> shapes (ses (insert_cap c s1))"
  by (auto simp: shapes_def draw_caps split: if_splits)

lemma cap_shape_revoked [simp]: "cap_shape (c\<lparr>c_revoked := b\<rparr>) = cap_shape c"
  by (simp add: cap_shape_def minted_shape_def child_shape_def)

lemma prim_shapes: "prim E mint s s' \<Longrightarrow> shapes (ses s) \<Longrightarrow> shapes (ses s')"
proof (induction rule: prim.induct)
  case (p_mint s h s1 c)
  then show ?case using shapes_insert by blast
next
  case (p_derive s h s1 c r pc)
  then show ?case using shapes_insert by blast
next
  case (p_revoke s r)
  have "cap_shape c" if "map_of (revoke_entry r (s_caps (ses s))) x = Some c" for x c
    using that p_revoke unfolding shapes_def
    by (cases "cap_at s r") (auto simp: map_of_revoke_entry split: if_splits)
  then show ?case by (simp add: shapes_def)
qed (auto simp: shapes_def draw_caps)

lemma evolves_shapes: "evolves E mint s s' \<Longrightarrow> shapes (ses s) \<Longrightarrow> shapes (ses s')"
  by (induction rule: rtranclp_induct) (auto dest: prim_shapes)

lemma served_shapes: "served E pol s s' \<Longrightarrow> shapes (ses s) \<Longrightarrow> shapes (ses s')"
  by (induction rule: served.induct) (auto dest: handle_evolves evolves_shapes)

lemma connect_shapes:
  assumes "connect_session E sv s0 = Some s" shows "shapes (ses s)"
proof -
  obtain s2 where s2: "start_session E sv s0 = Some s2"
    using assms by (auto simp: connect_session_parts bind_eq_Some_conv)
  have "s_caps (ses s2) = []"
    using s2 by (cases "sv_consent sv") (auto simp: start_session_def with_sink_def new_session_def bind_eq_Some_conv
        draw_Some set_policy_def set_consent_def blank_session_def split: option.splits)
  then have "shapes (ses s2)" by (simp add: shapes_def)
  then show ?thesis
    using assms s2 evolves_shapes [OF set_bootstrap_evolves]
    by (auto simp: connect_session_parts split: if_splits option.splits)
qed

section \<open>Errors that cannot happen\<close>

text \<open>An error of a gated operation: the gate's, the intent's, or the effect's on the session as it was.\<close>

definition gate_error :: "error \<Rightarrow> bool" where
  "gate_error e = (case e of PolicyDenied _ \<Rightarrow> True | NoConsentLedger \<Rightarrow> True | ConsentRefused _ \<Rightarrow> True
     | ConsentRequired _ _ \<Rightarrow> True | _ \<Rightarrow> False)"

lemma gate_errors: "gate E verb sig hint detail s = (Inl e, s1) \<Longrightarrow> gate_error e"
  by (auto simp: gate_def gate_error_def split: decision.splits consent_outcome.splits prod.splits if_splits)

lemma gated_Inl:
  assumes "gated E verb sig hint detail iop rop d err effect s = Some (Inl e, s')" "\<not> gate_error e" "e \<noteq> err"
  obtains s1 s2 s3 where "gate E verb sig hint detail s = (Inr (), s1)" "audit E iop d ''attempt'' s1 = (True, s2)"
    "effect s2 = Some (Inl e, s3)"
proof -
  obtain g s1 where g: "gate E verb sig hint detail s = (g, s1)" by fastforce
  obtain ok s2 where a: "audit E iop d ''attempt'' s1 = (ok, s2)" by fastforce
  show thesis
  proof (cases g)
    case (Inl x)
    then show ?thesis using assms g gate_errors [of E verb sig hint detail s x s1] by (simp add: gated_def)
  next
    case (Inr u)
    then show ?thesis using assms g a that by (cases ok) (auto simp: gated_def bind_eq_Some_conv)
  qed
qed

lemma derive_sub_has_fd: "shapes (ses s) \<Longrightarrow> derive_sub E r seg s \<noteq> Some (Inl DirNoRootFd, t)"
proof
  assume sh: "shapes (ses s)" and d: "derive_sub E r seg s = Some (Inl DirNoRootFd, t)"
  obtain g where g: "get_active (ses s) r = Some g" using d by (auto simp: derive_sub_def bind_eq_Some_conv)
  show False
  proof (cases g)
    case (Inl e)
    then show ?thesis using d g by (auto simp: derive_sub_def get_active_def bind_eq_Some_conv split: if_splits option.splits)
  next
    case (Inr c)
    then have "c_kind c = Dir \<Longrightarrow> c_dir_fd c \<noteq> None" using shape_fd [OF shapes_active [OF _ sh]] g by simp
    then show ?thesis
      using d g Inr by (auto simp: derive_sub_def bind_eq_Some_conv split: if_splits option.splits prod.splits sum.splits)
  qed
qed

lemma exec_i_has_fd: "shapes (ses s) \<Longrightarrow> exec_i E r s \<noteq> Some (Inl NoCwdFd, t)"
proof
  assume sh: "shapes (ses s)" and d: "exec_i E r s = Some (Inl NoCwdFd, t)"
  obtain g where g: "get_active (ses s) r = Some g" using d by (auto simp: exec_i_def bind_eq_Some_conv)
  show False
  proof (cases g)
    case (Inl e)
    then show ?thesis using d g by (auto simp: exec_i_def get_active_def bind_eq_Some_conv split: if_splits option.splits)
  next
    case (Inr c)
    then have "c_argv c \<noteq> [] \<Longrightarrow> c_dir_fd c \<noteq> None" using shape_argv [OF shapes_active [OF _ sh]] g by simp
    then show ?thesis
      using d g Inr by (auto simp: exec_i_def bind_eq_Some_conv split: if_splits option.splits prod.splits sum.splits)
  qed
qed

text \<open>A read-only child of what has no directory: it may read and list, and has nothing to read.\<close>

definition hollow :: "cap \<Rightarrow> bool" where
  "hollow c \<longleftrightarrow> c_kind c \<in> {Sink, Message, Http} \<and> c_parent c \<noteq> None \<and> c_ops c = [Read, List]
     \<and> c_dir_fd c = None \<and> c_msg c = None \<and> c_http c = None"

lemma no_fd_hollow:
  assumes "cap_shape c" "c_dir_fd c = None" "Read \<in> set (c_ops c) \<or> List \<in> set (c_ops c)" shows "hollow c"
proof (cases "c_parent c")
  case None
  then have m: "minted_shape c" using assms(1) by (simp add: cap_shape_def)
  have "c_kind c \<noteq> Dir" using m assms(2) by (auto simp: minted_shape_def)
  with m assms(2,3) show ?thesis by (auto simp: minted_shape_def split: if_splits)
next
  case (Some p)
  then show ?thesis using assms by (cases "c_kind c") (auto simp: cap_shape_def child_shape_def hollow_def)
qed

lemma read_i_hollow:
  assumes sh: "shapes (ses s)" and d: "read_i E r rel s = Some (Inl RootFdMissing, t)"
  shows "\<exists>c. map_of (s_caps (ses s)) r = Some c \<and> hollow c"
proof -
  obtain g where g: "get_active (ses s) r = Some g" using d by (auto simp: read_i_def bind_eq_Some_conv)
  show ?thesis
  proof (cases g)
    case (Inl e)
    then show ?thesis using d g by (auto simp: read_i_def get_active_def bind_eq_Some_conv split: if_splits option.splits)
  next
    case (Inr c)
    then have "Read \<in> set (c_ops c) \<and> c_dir_fd c = None"
      using d g by (auto simp: read_i_def bind_eq_Some_conv split: if_splits option.splits prod.splits sum.splits)
    then show ?thesis using no_fd_hollow shapes_active [OF _ sh] g Inr by (auto simp: get_active_Inr)
  qed
qed

lemma list_i_hollow:
  assumes sh: "shapes (ses s)" and d: "list_i E r rel s = Some (Inl RootFdMissing, t)"
  shows "\<exists>c. map_of (s_caps (ses s)) r = Some c \<and> hollow c"
proof -
  obtain g where g: "get_active (ses s) r = Some g" using d by (auto simp: list_i_def bind_eq_Some_conv)
  show ?thesis
  proof (cases g)
    case (Inl e)
    then show ?thesis using d g by (auto simp: list_i_def get_active_def bind_eq_Some_conv split: if_splits option.splits)
  next
    case (Inr c)
    then have "List \<in> set (c_ops c) \<and> c_dir_fd c = None"
      using d g by (auto simp: list_i_def bind_eq_Some_conv split: if_splits option.splits sum.splits)
        (metis Inl_Inr_False prod.inject sum.exhaust)+
    then show ?thesis using no_fd_hollow shapes_active [OF _ sh] g Inr by (auto simp: get_active_Inr)
  qed
qed

lemma read_hollow:
  assumes "shapes (ses s)" "read E r rel s = Some (Inl RootFdMissing, t)"
  shows "\<exists>c. map_of (s_caps (ses s)) r = Some c \<and> hollow c"
proof -
  obtain res s1 where r: "read_i E r rel s = Some (res, s1)"
    using assms(2) by (auto simp: read_def bind_eq_Some_conv)
  then have "res = Inl RootFdMissing"
    using assms(2) by (auto simp: read_def bind_eq_Some_conv Let_def case_prod_unfold split: if_splits)
  then show ?thesis using read_i_hollow [OF assms(1)] r by simp
qed

lemma list_hollow:
  assumes "shapes (ses s)" "list_op E r rel s = Some (Inl RootFdMissing, t)"
  shows "\<exists>c. map_of (s_caps (ses s)) r = Some c \<and> hollow c"
proof -
  obtain res s1 where r: "list_i E r rel s = Some (res, s1)"
    using assms(2) by (auto simp: list_op_def bind_eq_Some_conv)
  then have "res = Inl RootFdMissing"
    using assms(2) by (auto simp: list_op_def bind_eq_Some_conv Let_def case_prod_unfold split: if_splits)
  then show ?thesis using list_i_hollow [OF assms(1)] r by simp
qed

definition boxes_exist :: "session \<Rightarrow> bool" where
  "boxes_exist ss \<longleftrightarrow> (\<forall>r c m. map_of (s_caps ss) r = Some c \<longrightarrow> c_msg c = Some m \<longrightarrow>
     map_of (s_mailboxes ss) (m_mailbox m) \<noteq> None)"

lemma get_msg_err: "get_msg ss r = Some (Inl e) \<Longrightarrow> e \<noteq> MailboxGone"
  by (auto simp: get_msg_def get_active_def bind_eq_Some_conv split: if_splits option.splits sum.splits)

lemma post_bytes_box: "boxes_exist (ses s) \<Longrightarrow> post_bytes r subject tnt payload s \<noteq> Some (Inl MailboxGone, t)"
proof
  assume bx: "boxes_exist (ses s)" and d: "post_bytes r subject tnt payload s = Some (Inl MailboxGone, t)"
  obtain g where g: "get_msg (ses s) r = Some g" using d by (auto simp: post_bytes_def bind_eq_Some_conv)
  show False
  proof (cases g)
    case (Inl e)
    then show ?thesis using d g get_msg_err by (auto simp: post_bytes_def)
  next
    case (Inr m)
    then have "map_of (s_mailboxes (ses s)) (m_mailbox m) \<noteq> None"
      using g bx by (auto simp: get_msg_Inr get_active_Inr boxes_exist_def)
    then show ?thesis
      using d g Inr by (auto simp: post_bytes_def bind_eq_Some_conv Let_def split: if_splits)
  qed
qed

lemma post_literal_box:
  assumes "boxes_exist (ses s)" shows "post_literal_owner_only r subject payload s \<noteq> Some (Inl MailboxGone, t)"
proof
  assume d: "post_literal_owner_only r subject payload s = Some (Inl MailboxGone, t)"
  obtain g where g: "get_msg (ses s) r = Some g" using d by (auto simp: post_literal_owner_only_def bind_eq_Some_conv)
  show False
    using d g get_msg_err post_bytes_box [OF assms]
    by (cases g) (auto simp: post_literal_owner_only_def bind_eq_Some_conv split: if_splits)
qed

lemma read_i_err: "read_i E src rel s = Some (Inl e, t) \<Longrightarrow> e \<noteq> MailboxGone"
  by (auto simp: read_i_def get_active_def bind_eq_Some_conv
      split: if_splits option.splits sum.splits prod.splits)

lemma forward_read_box:
  assumes "boxes_exist (ses s)" shows "forward_read E r subject src rel s \<noteq> Some (Inl MailboxGone, t)"
proof
  assume d: "forward_read E r subject src rel s = Some (Inl MailboxGone, t)"
  obtain rd s3 where rd: "read_i E src rel s = Some (rd, s3)" using d by (auto simp: forward_read_def bind_eq_Some_conv)
  have "boxes_exist (ses s3)" using assms read_i_frame [OF rd] by simp
  then show False
    using d rd read_i_err [of E src rel s _ s3] post_bytes_box [of s3]
    by (cases rd) (auto simp: forward_read_def)
qed

section \<open>Property\<close>

text \<open>
  C9: Capabilities are well typed. In every state a served connection reaches, each capability of
  the table is under its own reference; a minted one has the payload of its kind and no other, and a
  derived one is a directory with a descriptor, a facet that cannot receive, or a read-only child
  that has \<open>Read\<close>, \<open>List\<close> and of its parent's payload the descriptor alone. So a directory never
  lacks its descriptor when a child is derived, a command never lacks its directory's and a facet
  never lacks its mailbox: these errors of the code are not reached, and no lookup finds a capability
  active that is not in the table. The error for a missing root descriptor is reached by reading or
  listing only through a read-only child of a sink, a message or an HTTP capability.
\<close>

theorem capabilities_well_typed:
  assumes "connect_session E sv s0 = Some s1" "served E (sv_policy sv) s1 s" "draws_distinct E (rng s)"
  shows "(\<forall>x c. cap_at s x = Some c \<longrightarrow> c_id c = x \<and> (if c_parent c = None then minted_shape c else child_shape c))
    \<and> derive_sub E r seg s \<noteq> Some (Inl DirNoRootFd, t) \<and> exec E r s \<noteq> Some (Inl NoCwdFd, t)
    \<and> post E r subject payload s \<noteq> Some (Inl MailboxGone, t)
    \<and> post_from E r subject src rel s \<noteq> Some (Inl MailboxGone, t)
    \<and> get_active (ses s) r \<noteq> Some (Inl (Detached sr))
    \<and> (read E r rel s = Some (Inl RootFdMissing, t) \<or> list_op E r rel s = Some (Inl RootFdMissing, t) \<longrightarrow>
         (\<exists>c. cap_at s r = Some c \<and> hollow c))"
proof -
  have d1: "draws_distinct E (rng s1)" using draws_distinct_le [OF assms(3) served_rng [OF assms(2)]] .
  have "conn_inv E s1" using connect_session_start [OF assms(1) d1] by blast
  then have inv: "conn_inv E s" using served_conn_inv [OF assms(2) _ assms(3)] by blast
  have sh: "shapes (ses s)" by (rule served_shapes [OF assms(2) connect_shapes [OF assms(1)]])
  have ids: "\<forall>x c. cap_at s x = Some c \<longrightarrow> c_id c = x \<and> cap_shape c"
    using inv sh by (auto simp: conn_inv_def table_inv_def caps_ok_def table_ok_def shapes_def)
  have bx: "boxes_exist (ses s)" using inv unfolding conn_inv_def mail_inv_def boxes_exist_def by blast
  have ok: "caps_ok (s_caps (ses s))" using inv by (simp add: conn_inv_def table_inv_def)
  have "exec E r s \<noteq> Some (Inl NoCwdFd, t)"
  proof
    assume "exec E r s = Some (Inl NoCwdFd, t)"
    then obtain sr where "gated E ''exec'' (action_sig [''exec'', r]) (approval_hint ''exec'' ''CommandCap'' sr)
       (exec_detail (ses s) r sr) ''exec.intent'' ''exec.result'' sr ExecIntentFailed (exec_i E r) s = Some (Inl NoCwdFd, t)"
      by (auto simp: exec_gated bind_eq_Some_conv)
    then show False
    proof (rule gated_Inl)
      fix u s2 s3 assume h: "gate E ''exec'' (action_sig [''exec'', r]) (approval_hint ''exec'' ''CommandCap'' sr) (exec_detail (ses s) r sr) s = (Inr (), u)"
        "audit E ''exec.intent'' sr ''attempt'' u = (True, s2)" "exec_i E r s2 = Some (Inl NoCwdFd, s3)"
      have "shapes (ses s2)" using sh reached(1) [OF h(1,2)] by (simp add: shapes_def)
      then show False using exec_i_has_fd h(3) by blast
    qed (simp_all add: gate_error_def)
  qed
  moreover have "post E r subject payload s \<noteq> Some (Inl MailboxGone, t)"
  proof
    assume "post E r subject payload s = Some (Inl MailboxGone, t)"
    then show False unfolding post_gated bind_eq_Some_conv
    proof (elim exE conjE gated_Inl)
      fix sr u s2 s3 assume h: "gate E ''post'' (action_sig [''post'', r, subject, sha256_hex (as_bytes payload)])
        (approval_hint ''post'' ''MessageCap'' sr) (post_detail sr subject (sha256_hex (as_bytes payload))) s = (Inr (), u)"
        "audit E ''post.intent'' (sr @ '' subj='' @ subject @ '' src=literal'') ''attempt'' u = (True, s2)"
        "post_literal_owner_only r subject payload s2 = Some (Inl MailboxGone, s3)"
      have "boxes_exist (ses s2)" using bx reached(1,2) [OF h(1,2)] by (simp add: boxes_exist_def)
      then show False using post_literal_box h(3) by blast
    qed (simp_all add: gate_error_def)
  qed
  moreover have "post_from E r subject src rel s \<noteq> Some (Inl MailboxGone, t)"
  proof
    assume "post_from E r subject src rel s = Some (Inl MailboxGone, t)"
    then show False unfolding post_from_gated bind_eq_Some_conv
    proof (elim exE conjE gated_Inl)
      fix sr ssrc u s2 s3 assume h: "gate E ''post_from'' (action_sig [''post_from'', r, subject, src, rel])
        (approval_hint ''post_from'' ''MessageCap'' sr) (post_from_detail sr subject ssrc rel) s = (Inr (), u)"
        "audit E ''post.intent'' (sr @ '' subj='' @ subject @ '' src='' @ ssrc @ '' '' @ rel) ''attempt'' u = (True, s2)"
        "forward_read E r subject src rel s2 = Some (Inl MailboxGone, s3)"
      have "boxes_exist (ses s2)" using bx reached(1,2) [OF h(1,2)] by (simp add: boxes_exist_def)
      then show False using forward_read_box h(3) by blast
    qed (simp_all add: gate_error_def)
  qed
  moreover have "get_active (ses s) r \<noteq> Some (Inl (Detached sr))"
    using ok alive_known [of "cap_at s" r]
    by (auto simp: get_active_def caps_ok_active bind_eq_Some_conv split: if_splits option.splits)
  ultimately show ?thesis
    using ids derive_sub_has_fd [OF sh] read_hollow [OF sh] list_hollow [OF sh] unfolding cap_shape_def by blast
qed

lemma capabilities_well_typed_witness:
  "\<exists>s x c. connect_session quiet_env demo_service demo_sys = Some s \<and> cap_at s x = Some c \<and> c_id c = x
     \<and> (if c_parent c = None then minted_shape c else child_shape c) \<and> exec quiet_env x s \<noteq> Some (Inl NoCwdFd, s)"
proof -
  obtain s c where s: "connect_session quiet_env demo_service demo_sys = Some s" "rng s = 3" "cap_at s (c_id c) = Some c"
    using demo_connect by blast
  have "draws_distinct quiet_env (rng s)" using s(2) quiet_draws_distinct by simp
  from capabilities_well_typed [OF s(1) served_refl this] s(1,3) show ?thesis by blast
qed

end
