(* ===== verification/Liveness.thy ===== *)
theory Liveness
  imports Server
begin

text \<open>
  What the program gets done: an approved action passes when it is next asked for, every lookup of a
  reference returns, and a connection answers its requests one by one, in their order.
\<close>

section \<open>Consent\<close>

fun consent_run ::
    "('k \<Rightarrow> string \<Rightarrow> 'l \<Rightarrow> consent_outcome \<times> 'l) \<Rightarrow> (status \<Rightarrow> string \<Rightarrow> 'l \<Rightarrow> ('e + string) \<times> 'l)
     \<Rightarrow> 'k consent_event list \<Rightarrow> 'l \<Rightarrow> 'l" where
  "consent_run ask fix [] l = l"
| "consent_run ask fix (Ask k summ # es) l = consent_run ask fix es (snd (ask k summ l))"
| "consent_run ask fix (Settle st i # es) l = consent_run ask fix es (snd (fix st i l))"

definition not_asked :: "'k \<Rightarrow> 'k consent_event \<Rightarrow> bool" where
  "not_asked k e = (case e of Ask k' _ \<Rightarrow> k' \<noteq> k | Settle _ _ \<Rightarrow> True)"

context consent_service
begin

lemma ask_other:
  assumes "ok l (Suc n)" "k' \<noteq> k"
  shows "status_of (snd (ask k' s l)) k = status_of l k"
proof (cases "status_of l k'")
  case None
  then show ?thesis using ask_new [OF assms(1), of k' s] assms(2) by simp
next
  case (Some st)
  then show ?thesis
    using ask_approved [OF assms(1), of k' s] ask_settled [OF assms(1), of k' st s] assms(2)
    by (cases "st = Approved") auto
qed

lemma settle_other:
  assumes "ok l n" "status_of l k \<noteq> Some Pending"
  shows "status_of (snd (fix_status st i l)) k = status_of l k"
proof (cases "is_ok (fst (fix_status st i l))")
  case True
  then show ?thesis using fix_pending [OF assms(1) True] assms(2) by (auto simp: fun_upd_def)
next
  case False
  then have "is_err (fst (fix_status st i l))" by (cases "fst (fix_status st i l)") auto
  then show ?thesis using fix_failed by simp
qed

lemma approved_waits:
  assumes "ok l (asks es + n)" "status_of l k = Some Approved" "list_all (not_asked k) es"
  shows "ok (consent_run ask fix_status es l) n \<and> status_of (consent_run ask fix_status es l) k = Some Approved"
  using assms
proof (induction es arbitrary: l)
  case Nil
  then show ?case by (simp add: asks_def)
next
  case (Cons e es)
  show ?case
  proof (cases e)
    case (Ask k' s)
    then have "ok l (Suc (asks es + n))" "k' \<noteq> k" using Cons.prems by (auto simp: asks_def not_asked_def)
    then show ?thesis using Cons ask_ok ask_other [of l "asks es + n" k' k s] Ask by auto
  next
    case (Settle st i)
    then have ok: "ok l (asks es + n)" using Cons.prems by (simp add: asks_def)
    then show ?thesis using Cons fix_ok settle_other [OF ok, of k st i] Settle by auto
  qed
qed

end

definition ledger_run :: "(string \<times> string) consent_event list \<Rightarrow> consent_ledger \<Rightarrow> consent_ledger" where
  "ledger_run = consent_run ask_action settle"

lemma pending_action:
  assumes "ledger_ready l (Suc n)" "request_or_check sig session summary l = (Now_Pending i, l1)"
  shows "action_of i l1 = Some (sig, session)"
proof (cases "find_req sig session l")
  case None
  then show ?thesis using assms(2) by (auto simp: request_or_check_def Let_def action_of_def)
next
  case (Some x)
  obtain j q where x: "x = (j, q)" by (cases x)
  have ok: "ledger_ok l" using assms(1) by (simp add: ledger_ready_def)
  have "map_of (reqs l) j = Some q" "rq_sig q = sig" "rq_session q = session"
    using find_req_Some [OF Some [unfolded x]] map_of_req [OF ok] by auto
  then show ?thesis using assms(2) Some x
    by (auto simp: request_or_check_def action_of_def split: status.splits)
qed

text \<open>
  C37: An approval is not lost. When a request for an action was answered \<open>pending\<close> and its id is then
  approved, the next call of that action in that session passes, whatever requests, approvals and
  denials of other actions and sessions come in between; and the call after it does not pass.
\<close>

theorem approved_call_passes:
  assumes "ledger_ok l" "has_room l (asks es + 3)"
    and "request_or_check sig session summary l = (Now_Pending i, l1)" "approve i l1 = (Inr m, l2)"
    and "list_all (not_asked (sig, session)) es"
  shows "fst (request_or_check sig session s1 (ledger_run es l2)) = Now_Approved
    \<and> fst (request_or_check sig session s2 (snd (request_or_check sig session s1 (ledger_run es l2)))) \<noteq> Now_Approved"
proof -
  let ?k = "(sig, session)" let ?l3 = "ledger_run es l2"
  have r0: "ledger_ready l (Suc (asks es + 2))" using assms(1,2) by (simp add: ledger_ready_def numeral_nat)
  have l1: "l1 = snd (ask_action ?k summary l)" using assms(3) by (simp add: ask_action_def)
  have l2: "settle Approved i l1 = (Inr m, l2)" using assms(4) by (simp add: approve_def)
  have r1: "ledger_ready l1 (asks es + 2)" unfolding l1 by (rule ledger.ask_ok [OF r0])
  have "status_of (snd (settle Approved i l1)) ?k = Some Approved"
    using ledger.fix_pending [OF r1, of Approved i] pending_action [OF r0 assms(3)] l2 by auto
  then have st: "status_of l2 ?k = Some Approved" using l2 by simp
  have r2: "ledger_ready l2 (asks es + 2)" using ledger.fix_ok [OF r1, of Approved i] l2 by simp
  from ledger.approved_waits [OF r2 st assms(5)]
  have r3: "ledger_ready ?l3 (Suc (Suc 0))" "status_of ?l3 ?k = Some Approved"
    by (simp_all add: ledger_run_def numeral_2_eq_2)
  from ledger.ask_approved [OF r3, of s1]
  have pass: "fst (ask_action ?k s1 ?l3) = Now_Approved" "status_of (snd (ask_action ?k s1 ?l3)) ?k = None"
    by simp_all
  from ledger.ask_new [OF ledger.ask_ok [OF r3(1), of ?k s1], of ?k s2] pass show ?thesis
    by (simp add: ask_action_def)
qed

lemma approved_call_passes_witness:
  "fst (request_or_check ''exec|c'' ''s'' ''run'' (ledger_run [Ask (''exec|d'', ''s'') ''other''] 
      (snd (approve ''consent_1'' (snd (request_or_check ''exec|c'' ''s'' ''run'' new_ledger)))))) = Now_Approved"
proof -
  let ?es = "[Ask (''exec|d'', ''s'') ''other'']"
  let ?l1 = "snd (request_or_check ''exec|c'' ''s'' ''run'' new_ledger)"
  have "request_or_check ''exec|c'' ''s'' ''run'' new_ledger = (Now_Pending ''consent_1'', ?l1)"
    by (simp add: request_or_check_def find_req_def new_ledger_def consent_id_def Let_def show_nat_small)
  moreover obtain m where "approve ''consent_1'' ?l1 = (Inr m, snd (approve ''consent_1'' ?l1))"
    by (simp add: approve_def settle_def request_or_check_def find_req_def new_ledger_def consent_id_def Let_def show_nat_small)
  moreover have "has_room new_ledger (asks ?es + 3)" by (simp add: has_room_def new_ledger_def asks_def)
  moreover have "list_all (not_asked (''exec|c'', ''s'')) ?es" by (simp add: not_asked_def)
  ultimately show ?thesis using approved_call_passes [OF new_ledger_ok] by blast
qed

section \<open>Lookups\<close>

text \<open>A table with a cycle of parents would keep the lookup from returning.\<close>

lemma lookup_diverges_on_cycle:
  "is_active [(''a'', (blank_cap ''a'' Dir)\<lparr>c_parent := Some ''a''\<rparr>)] ''a'' = None"
proof -
  let ?cs = "[(''a'', (blank_cap ''a'' Dir)\<lparr>c_parent := Some ''a''\<rparr>)]"
  have "is_active ?cs r = Some b \<Longrightarrow> r \<noteq> ''a''" for r b
  proof (rule is_active.raw_induct [where P = "\<lambda>cs r b. cs = ?cs \<longrightarrow> r \<noteq> ''a''", rule_format, of ?cs r b])
    fix f cs r b
    assume IH: "\<And>cs r b. f cs r = Some b \<Longrightarrow> cs = ?cs \<Longrightarrow> r \<noteq> ''a''"
      and step: "(case map_of cs r of None \<Rightarrow> Some False
        | Some c \<Rightarrow> if c_revoked c then Some False
            else (case c_parent c of Some p \<Rightarrow> f cs p | None \<Rightarrow> Some True)) = Some b"
      and cs: "cs = ?cs"
    show "r \<noteq> ''a''"
    proof
      assume "r = ''a''"
      then have "f ?cs ''a'' = Some b" using step unfolding cs by (simp add: blank_cap_def)
      then show False using IH by blast
    qed
  qed simp_all
  then show ?thesis by (cases "is_active ?cs ''a''") auto
qed

text \<open>
  C38: Every lookup returns. In every state a connection reaches the chain of parents of every
  reference is finite, so \<open>is_active\<close> ends, and says whether the capability and all its
  ancestors are there and not revoked; the lookup of a reference fails to return only where the
  shortening of the reference for its message panics.
\<close>

theorem lookups_return:
  assumes "conn_inv E s0" "served E pol s0 s" "draws_distinct E (rng s)"
  shows "is_active (s_caps (ses s)) r = Some (alive (cap_at s) r)
    \<and> (get_active (ses s) r = None \<longleftrightarrow> \<not> s_audit_broken (ses s) \<and> \<not> alive (cap_at s) r \<and> short r = None)"
proof -
  have "caps_ok (s_caps (ses s))"
    using served_conn_inv [OF assms(2,1,3)] by (simp add: conn_inv_def table_inv_def)
  then have act: "is_active (s_caps (ses s)) r = Some (alive (cap_at s) r)" by (rule caps_ok_active)
  then show ?thesis using alive_known [of "cap_at s" r]
    by (auto simp: get_active_def bind_eq_None_conv split: option.splits)
qed

lemma lookups_return_witness:
  "\<exists>t. served quiet_env demo_guest demo_sys t
     \<and> is_active (s_caps (ses t)) (c_id demo_child) = Some (alive (cap_at t) (c_id demo_child))
     \<and> alive (cap_at t) (c_id demo_child) \<and> get_active (ses t) (c_id demo_child) \<noteq> None"
proof -
  obtain t where t: "served quiet_env demo_guest demo_sys t" "rng t = 2"
    "is_active (s_caps (ses t)) (c_id demo_child) = Some True"
    using demo_child_served by blast
  have "draws_distinct quiet_env (rng t)" using t(2) quiet_draws_distinct by simp
  note l = lookups_return [OF demo_conn_inv t(1) this, of "c_id demo_child"]
  then have "alive (cap_at t) (c_id demo_child)" using t(3) by simp
  with l t(1) show ?thesis by blast
qed

section \<open>Requests\<close>

text \<open>The handler alone, over a list of frames: the replies in order and the session left.\<close>

fun answer_all :: "'w env \<Rightarrow> policy \<Rightarrow> byte list list \<Rightarrow> 'w sys \<Rightarrow> (string list \<times> 'w sys) option" where
  "answer_all E pol [] s = Some ([], s)"
| "answer_all E pol (f # fs) s = do {
     (reply, s1) \<leftarrow> handle E pol (from_utf8_lossy f) s;
     (replies, s2) \<leftarrow> answer_all E pol fs s1;
     Some (reply # replies, s2)
   }"

text \<open>A client that reads \<open>n\<close> replies.\<close>

fun receive :: "nat \<Rightarrow> stream \<Rightarrow> byte list list" where
  "receive 0 es = []"
| "receive (Suc n) es = (case read_frame es of (Inr (Some p), r) \<Rightarrow> p # receive n r | _ \<Rightarrow> [])"

lemma fill_nothing:
  "calm es \<Longrightarrow> stream_bytes es = [] \<Longrightarrow> fill n got es = (Inr (got, n \<le> length got), []) \<or> n \<le> length got"
proof (induction es)
  case Nil
  then show ?case by (subst fill.simps) simp
next
  case (Cons e es)
  then show ?case by (cases e) (auto simp: fill.simps [of n got "Interrupted # es"])
qed

lemma read_frame_end: "calm es \<Longrightarrow> stream_bytes es = [] \<Longrightarrow> \<exists>r. read_frame es = (Inr None, r)"
  using fill_nothing [of es 4 "[]"] by (simp add: read_frame_def)

abbreviation put_all :: "byte list \<Rightarrow> byte list \<Rightarrow> (string + unit) \<times> byte list" where
  "put_all bs sent \<equiv> (Inr (), sent @ bs)"

abbreviation put_flush :: "byte list \<Rightarrow> (string + unit) \<times> byte list" where
  "put_flush sent \<equiv> (Inr (), sent)"

lemma write_frame_put: "write_frame put_all put_flush p sent = (Inr (), sent @ frame_bytes p)"
  by (simp add: write_frame_def frame_bytes_def)

lemma serve_loop_answers:
  assumes "calm es" "stream_bytes es = concat (map frame_bytes fs)" "list_all (\<lambda>f. length f \<le> MAX_FRAME) fs"
    and "answer_all E pol fs s = Some (replies, s')"
  shows "serve_loop E pol put_all put_flush es s sent = Some (s', sent @ concat (map (frame_bytes \<circ> as_bytes) replies))
    \<and> length replies = length fs"
  using assms
proof (induction fs arbitrary: es s sent replies)
  case Nil
  then obtain r where "read_frame es = (Inr None, r)" using read_frame_end [of es] by auto
  then show ?case using Nil by (simp add: serve_loop.simps [of E pol put_all put_flush es])
next
  case (Cons f fs)
  obtain reply s1 rs where h: "handle E pol (from_utf8_lossy f) s = Some (reply, s1)"
      "answer_all E pol fs s1 = Some (rs, s')" "replies = reply # rs"
    using Cons.prems(4) by (auto simp: bind_eq_Some_conv)
  obtain r where r: "read_frame es = (Inr (Some f), r)" "stream_bytes r = concat (map frame_bytes fs)" "calm r"
    using frame_reads [OF Cons.prems(1), of f "concat (map frame_bytes fs)"] Cons.prems(2,3) by auto
  have "serve_loop E pol put_all put_flush es s sent
      = serve_loop E pol put_all put_flush r s1 (sent @ frame_bytes (as_bytes reply))"
    using r(1) h(1) by (simp add: serve_loop.simps [of E pol put_all put_flush es] write_frame_put)
  with Cons.IH [OF r(3,2) _ h(2), of "sent @ frame_bytes (as_bytes reply)"] Cons.prems(3) h(3)
  show ?case by simp
qed

lemma receive_frames:
  "calm es \<Longrightarrow> stream_bytes es = concat (map frame_bytes ps) @ rest \<Longrightarrow> list_all (\<lambda>p. length p \<le> MAX_FRAME) ps
     \<Longrightarrow> receive (length ps) es = ps"
proof (induction ps arbitrary: es)
  case (Cons p ps)
  obtain r where "read_frame es = (Inr (Some p), r)" "stream_bytes r = concat (map frame_bytes ps) @ rest" "calm r"
    using frame_reads [OF Cons.prems(1), of p "concat (map frame_bytes ps) @ rest"] Cons.prems(2,3) by auto
  then show ?case using Cons by simp
qed simp

text \<open>
  C40: Every request is answered, once and in order. However the frames of a client are cut into
  pieces, the connection handles them in their order, each on the session the one before left, and
  what it sends is the framed replies in that order; a client that reads as many replies as it sent
  requests gets exactly them, as long as no reply exceeds the frame limit.
\<close>

theorem requests_answered_in_order:
  assumes "calm es" "stream_bytes es = concat (map frame_bytes fs)" "list_all (\<lambda>f. length f \<le> MAX_FRAME) fs"
    and "answer_all E pol fs s = Some (replies, s')"
  shows "\<exists>sent. serve_loop E pol put_all put_flush es s [] = Some (s', sent)
    \<and> (\<forall>inbox. calm inbox \<longrightarrow> stream_bytes inbox = sent \<longrightarrow> list_all (\<lambda>r. length r \<le> MAX_FRAME) replies
         \<longrightarrow> receive (length fs) inbox = map as_bytes replies)"
proof -
  let ?sent = "concat (map (frame_bytes \<circ> as_bytes) replies)"
  from serve_loop_answers [OF assms, of "[]"]
  have run: "serve_loop E pol put_all put_flush es s [] = Some (s', ?sent)" "length replies = length fs" by simp_all
  have "receive (length fs) inbox = map as_bytes replies"
    if "calm inbox" "stream_bytes inbox = ?sent" "list_all (\<lambda>r. length r \<le> MAX_FRAME) replies" for inbox
    using receive_frames [of inbox "map as_bytes replies" "[]"] that run(2) by (simp add: list.pred_map comp_def)
  with run(1) show ?thesis by blast
qed

lemma requests_answered_in_order_witness:
  "\<exists>sent. serve_loop quiet_env demo_guest put_all put_flush
      (map (\<lambda>b. Arrived b []) (frame_bytes (as_bytes ''NOPE'')) @ [Interrupted]) demo_sys [] = Some (demo_sys, sent)"
proof -
  let ?es = "map (\<lambda>b. Arrived b []) (frame_bytes (as_bytes ''NOPE'')) @ [Interrupted]"
  have "calm (map (\<lambda>b. Arrived b []) bs @ [Interrupted])" "stream_bytes (map (\<lambda>b. Arrived b []) bs @ [Interrupted]) = bs" for bs
    by (induction bs) auto
  moreover obtain reply where "handle quiet_env demo_guest ''NOPE'' demo_sys = Some (reply, demo_sys)"
    by (simp add: handle_def handle_verb_def)
  moreover have "from_utf8_lossy (as_bytes ''NOPE'') = ''NOPE''"
    by (rule from_utf8_lossy_ascii) (simp add: is_ascii_Cons)
  ultimately show ?thesis
    using requests_answered_in_order [of ?es "[as_bytes ''NOPE'']" quiet_env demo_guest demo_sys "[reply]" demo_sys]
    by (fastforce simp: MAX_FRAME_def)
qed

end
