(* ===== verification/Demo.thy ===== *)
theory Demo
  imports Liveness Capvm
begin

text \<open>
  \<open>main.rs\<close>, \<open>demo\<close>: a client that goes through what a guest may and may not do, over two
  connections of a service it starts itself, and prints the answers. The directory of the demo is
  made with \<open>std::fs\<close>, which is an argument here. A panic is \<^const>\<open>None\<close>.
\<close>

section \<open>The client\<close>

text \<open>A stream on which everything has arrived.\<close>

fun whole :: "byte list \<Rightarrow> stream" where
  "whole [] = []"
| "whole (b # bs) = [Arrived b bs]"

text \<open>
  \<open>call\<close>: a frame out, a frame in. The thread of the connection answers it and waits for the next;
  a request it does not answer, or a reply the client does not read, is a panic of the client.
\<close>

definition call :: "'w env \<Rightarrow> policy \<Rightarrow> string \<Rightarrow> 'w sys \<Rightarrow> (string \<times> 'w sys) option" where
  "call E pol req s = do {
     (s', sent) \<leftarrow> serve_loop E pol put_all put_flush (whole (frame_bytes (as_bytes req))) s [];
     (case read_frame (whole sent) of
        (Inr (Some p), _) \<Rightarrow> Some (from_utf8_lossy p, s')
      | _ \<Rightarrow> None)
   }"

text \<open>The lines it prints, and their text.\<close>

datatype shown = Sec string | Boot string | Ok_Line string | Deny_Line string | Trail string | Done string

fun printed :: "shown \<Rightarrow> string" where
  "printed (Sec t) = [nl] @ ''== '' @ t @ '' =='' @ [nl]"
| "printed (Boot t) = ''  bootstrap '' @ t @ [nl]"
| "printed (Ok_Line t) = ''  [ok]   '' @ t @ [nl]"
| "printed (Deny_Line t) = ''  [deny] '' @ t @ [nl]"
| "printed (Trail t) = ''  '' @ t @ [nl]"
| "printed (Done t) = [nl] @ t @ [nl]"

definition spaced :: "string \<Rightarrow> string" where
  "spaced t = replace_all [tab] (CHR '' '') t"

definition invoke_read :: "string \<Rightarrow> string \<Rightarrow> string" where
  "invoke_read r path = join [tab] [''INVOKE'', r, ''read'', path]"

section \<open>The scenes\<close>

text \<open>1 to 3: the bootstrap capability, paths outside it, attenuation.\<close>

definition demo_use :: "'w env \<Rightarrow> policy \<Rightarrow> 'w sys \<Rightarrow> (string \<times> string \<times> shown list \<times> 'w sys) option" where
  "demo_use E pol s0 = do {
     (a, s1) \<leftarrow> call E pol ''BOOTSTRAP'' s0;
     repo \<leftarrow> cap_of a;
     (b, s2) \<leftarrow> call E pol (join [tab] [''DESCRIBE'', repo]) s1;
     (c, s3) \<leftarrow> call E pol (invoke_read repo ''main.txt'') s2;
     (d, s4) \<leftarrow> call E pol (invoke_read repo ''/etc/passwd'') s3;
     (e, s5) \<leftarrow> call E pol (invoke_read repo ''../../etc/passwd'') s4;
     (f, s6) \<leftarrow> call E pol (join [tab] [''DERIVE'', repo, ''sub'', ''src'']) s5;
     sub \<leftarrow> cap_of f;
     (g, s7) \<leftarrow> call E pol (join [tab] [''DERIVE'', sub, ''readonly'']) s6;
     ro \<leftarrow> cap_of g;
     (h, s8) \<leftarrow> call E pol (invoke_read ro ''secret.txt'') s7;
     Some (repo, sub,
       [Sec (''1. BOOTSTRAP:'' @ U [0x53D6, 0x670D, 0x52A1, 0x7AEF, 0x9884, 0x6CE8, 0x5165,
         0x7684] @ '' workspace '' @ U [0x6839] @ ''(guest '' @ U [0x65E0, 0x4EFB, 0x4F55]
           @ '' mint verb)''),
        Boot (spaced b), Ok_Line (ok_payload c),
        Sec (''2. '' @ U [0x8D8A, 0x754C, 0x8BBF, 0x95EE, 0x88AB, 0x62D2] @ ''(symlink/''
          @ U [0x7EDD, 0x5BF9] @ ''/..)''),
        Deny_Line (spaced d), Deny_Line (spaced e),
        Sec (''3. DERIVE '' @ U [0x8870, 0x51CF] @ ''(sub + readonly)'' @ U [0x540E, 0x8BFB]
          @ ''(secret '' @ U [0x8DEF, 0x5F84, 0x670D, 0x52A1, 0x7AEF, 0x5347, 0x7EA7]
            @ '' taint)''),
        Ok_Line (ok_payload h)], s8)
   }"

text \<open>4 and 5: minting by a guest, a second bootstrap, revocation.\<close>

definition demo_limits ::
    "'w env \<Rightarrow> policy \<Rightarrow> string \<Rightarrow> string \<Rightarrow> string \<Rightarrow> 'w sys \<Rightarrow> (shown list \<times> 'w sys) option" where
  "demo_limits E pol root repo sub s0 = do {
     (a, s1) \<leftarrow> call E pol (join [tab] [''GRANT_DIR'', root, ''read'', ''project'']) s0;
     (b, s2) \<leftarrow> call E pol (join [tab] [''GRANT_SINK'', ''https://evil.example.com'']) s1;
     (c, s3) \<leftarrow> call E pol (join [tab] [''GRANT_CMD'', repo, ''/bin/sh'' @ [US] @ ''-c'' @ [US] @ ''id'']) s2;
     (d, s4) \<leftarrow> call E pol ''BOOTSTRAP'' s3;
     (e, s5) \<leftarrow> call E pol (join [tab] [''REVOKE'', repo]) s4;
     (f, s6) \<leftarrow> call E pol (invoke_read sub ''secret.txt'') s5;
     Some (
       [Sec (''4. guest '' @ U [0x4E0D, 0x80FD, 0x81EA, 0x94F8, 0x80FD, 0x529B] @ ''(P0 ''
         @ U [0x5DF2, 0x5C01] @ '':'' @ U [0x65E0] @ '' GRANT_*,'' @ U [0x4E8C, 0x6B21]
           @ '' BOOTSTRAP '' @ U [0x4EA6, 0x62D2] @ '')''),
        Deny_Line (spaced a), Deny_Line (spaced b), Deny_Line (spaced c), Deny_Line (spaced d),
        Sec (''5. REVOKE + '' @ U [0x7EA7, 0x8054] @ ''('' @ U [0x64A4, 0x9500] @ '' repo ''
          @ U [0x540E] @ '','' @ U [0x6D3E, 0x751F, 0x7684] @ '' sub '' @ U [0x4E5F, 0x5931,
            0x6548] @ '')''),
        Deny_Line (spaced f)], s6)
   }"

text \<open>6: a second connection; the state it leaves, with the first connection's session back.\<close>

definition demo_replay :: "'w env \<Rightarrow> service \<Rightarrow> string \<Rightarrow> 'w sys \<Rightarrow> (shown list \<times> 'w sys) option" where
  "demo_replay E sv repo s0 = do {
     s1 \<leftarrow> connect_session E sv s0;
     (a, s2) \<leftarrow> call E (sv_policy sv) (invoke_read repo ''main.txt'') s1;
     Some (
       [Sec (''6. '' @ U [0x8DE8, 0x4F1A, 0x8BDD, 0x4E0D, 0x53EF, 0x91CD, 0x653E] @ ''(''
         @ U [0x65B0, 0x8FDE, 0x63A5] @ ''='' @ U [0x65B0, 0x4F1A, 0x8BDD] @ ''+'' @ U [0x65B0,
           0x6CE8, 0x5165, 0x6839] @ '','' @ U [0x65E7] @ '' ref '' @ U [0x4E0D, 0x5728, 0x5176]
             @ '' registry)''),
        Deny_Line (spaced a)], s2\<lparr>ses := ses s0\<rparr>)
   }"

text \<open>7: the audit of the first session.\<close>

definition demo_trail :: "'w env \<Rightarrow> policy \<Rightarrow> 'w sys \<Rightarrow> (shown list \<times> 'w sys) option" where
  "demo_trail E pol s0 = do {
     (a, s1) \<leftarrow> call E pol ''AUDIT'' s0;
     Some (
       [Sec (''7. '' @ U [0x5BA1, 0x8BA1] @ '':hash-chain('' @ U [0x6BCF, 0x6B65, 0x64CD, 0x4F5C]
         @ ''/'' @ U [0x62D2, 0x7EDD, 0x8BB0, 0x94FE] @ '';'' @ U [0x5185, 0x5B58, 0x94FE]
           @ ''='' @ U [0x8FDB, 0x7A0B, 0x5185, 0x5B8C, 0x6574, 0x6027] @ '','' @ U [0x6301,
             0x4E45, 0x5316, 0x89C1] @ '' --audit-log)'')]
       @ map Trail (log_lines (from_utf8_lossy (b64_decode (field_or (splitn_tab 3 a) 2 [])))), s1)
   }"

definition demo_scenes :: "'w env \<Rightarrow> service \<Rightarrow> string \<Rightarrow> 'w sys \<Rightarrow> (shown list \<times> 'w sys) option" where
  "demo_scenes E sv root s0 = do {
     s1 \<leftarrow> connect_session E sv s0;
     (repo, sub, l1, s2) \<leftarrow> demo_use E (sv_policy sv) s1;
     (l2, s3) \<leftarrow> demo_limits E (sv_policy sv) root repo sub s2;
     (l3, s4) \<leftarrow> demo_replay E sv repo s3;
     Some (l1 @ l2 @ l3, s4)
   }"

section \<open>The run\<close>

text \<open>\<open>PathBuf::join\<close> with a relative name.\<close>

definition path_join :: "string \<Rightarrow> string \<Rightarrow> string" where
  "path_join p q = (if p = [] \<or> last p = CHR ''/'' then p @ q else p @ ''/'' @ q)"

definition draw_name :: "'w env \<Rightarrow> 'w sys \<Rightarrow> (string \<times> 'w sys) option" where
  "draw_name E s = do { h \<leftarrow> rand_hex E (rng s) 6; Some (''caprpc_'' @ h, s\<lparr>rng := Suc (rng s)\<rparr>) }"

definition on_world :: "('w \<Rightarrow> 'w option) \<Rightarrow> 'w sys \<Rightarrow> 'w sys option" where
  "on_world f s = map_option (\<lambda>w. s\<lparr>world := w\<rparr>) (f (world s))"

text \<open>
  The whole demo: its directory below the temporary one (\<open>mkdir\<close> and \<open>put\<close> are \<open>create_dir_all\<close> and
  \<open>fs::write\<close>), the service, the scenes, the audit.
\<close>

definition demo ::
    "'w env \<Rightarrow> string \<Rightarrow> (string \<Rightarrow> 'w \<Rightarrow> 'w option) \<Rightarrow> (string \<Rightarrow> byte list \<Rightarrow> 'w \<Rightarrow> 'w option) \<Rightarrow> 'w sys
      \<Rightarrow> (shown list \<times> 'w sys) option" where
  "demo E tmp mkdir put s0 = do {
     (name, s1) \<leftarrow> draw_name E s0;
     let dir = path_join tmp name;
     s2 \<leftarrow> on_world (mkdir (path_join dir ''src'')) s1;
     s3 \<leftarrow> on_world (put (path_join dir ''main.txt'') (as_bytes (''hello from capable-rpc'' @ [nl]))) s2;
     s4 \<leftarrow> on_world (put (path_join dir ''src/secret.txt'') (as_bytes (''API_KEY=sk-do-not-exfil'' @ [nl]))) s3;
     let root = from_utf8_lossy (as_bytes dir);
     (name2, s5) \<leftarrow> draw_name E s4;
     let sv = \<lparr>sv_sock = from_utf8_lossy (as_bytes (path_join tmp (name2 @ ''.sock''))),
               sv_policy = policy_guest root, sv_sink = None, sv_engine = allow_all, sv_consent = False\<rparr>;
     (l1, s6) \<leftarrow> demo_scenes E sv root s5;
     (l2, s7) \<leftarrow> demo_trail E (sv_policy sv) s6;
     Some (l1 @ l2 @ [Done (''CapTP-lite '' @ U [0x7AEF, 0x5230, 0x7AEF, 0x8DD1, 0x901A, 0x3002])],
       s7)
   }"

section \<open>A call is one frame handled\<close>

lemma whole_calm [simp]: "calm (whole bs)" "stream_bytes (whole bs) = bs"
  by (cases bs; simp)+

text \<open>
  A payload that is read is the start of the one that was written: all of it, or, from 4 GiB on,
  where the length has wrapped around, some first part.
\<close>

lemma frame_reads_prefix:
  assumes "calm es" "stream_bytes es = frame_bytes p" "read_frame es = (Inr (Some q), r)"
  shows "\<exists>k. q = take k p \<and> (length p < 2 ^ 32 \<longrightarrow> q = p)"
proof -
  have "4 \<le> length (stream_bytes es)" using assms(2) by (simp add: frame_bytes_def)
  then obtain r1 where h: "fill 4 [] es = (Inr (frame_header (length p), True), r1)"
      "stream_bytes r1 = p" "calm r1"
    using fill_exact [of "[]" 4 es] assms(1,2) by (auto simp: frame_bytes_def)
  let ?n = "header_value (frame_header (length p))"
  have f: "fill ?n [] r1 = (Inr (q, True), r)"
    using assms(3) h(1) by (auto simp: read_frame_def Let_def split: prod.splits sum.splits if_splits)
  have "?n \<le> length p"
    using fill_bytes [OF f] fill_length [OF f] h(2) by simp
  then have "q = take ?n p" using fill_exact [of "[]" ?n r1] h(2,3) f by auto
  then show ?thesis using frame_header_value [of "length p"] by fastforce
qed

lemma call_run:
  assumes "call E pol req s = Some (t, s')"
  obtains sent p r where "serve_loop E pol put_all put_flush (whole (frame_bytes (as_bytes req))) s [] = Some (s', sent)"
    "read_frame (whole sent) = (Inr (Some p), r)" "t = from_utf8_lossy p"
  using assms unfolding call_def
  by (cases "serve_loop E pol put_all put_flush (whole (frame_bytes (as_bytes req))) s []")
    (auto split: prod.splits sum.splits option.splits)

lemma call_served: "call E pol req s = Some (t, s') \<Longrightarrow> served E pol s s'"
  by (erule call_run) (rule serve_loop_served)

lemma call_handled:
  assumes "call E pol req s = Some (t, s')" "length req \<le> MAX_FRAME"
  obtains reply k where "handle E pol (from_utf8_lossy (as_bytes req)) s = Some (reply, s')"
    "t = from_utf8_lossy (take k (as_bytes reply))"
    "length reply < 2 ^ 32 \<longrightarrow> t = from_utf8_lossy (as_bytes reply)"
proof -
  let ?in = "whole (frame_bytes (as_bytes req))"
  obtain sent p r where run: "serve_loop E pol put_all put_flush ?in s [] = Some (s', sent)"
    and got: "read_frame (whole sent) = (Inr (Some p), r)" "t = from_utf8_lossy p"
    by (rule call_run [OF assms(1)])
  have len: "length (as_bytes req) \<le> MAX_FRAME" using assms(2) by (simp add: as_bytes_def)
  obtain r where "read_frame ?in = (Inr (Some (as_bytes req)), r)"
    using frame_reads [of ?in "as_bytes req" "[]"] len by auto
  then obtain reply s1 where h: "handle E pol (from_utf8_lossy (as_bytes req)) s = Some (reply, s1)"
    using run by (auto simp: serve_loop.simps [of E pol put_all put_flush ?in] split: option.splits)
  have "serve_loop E pol put_all put_flush ?in s [] = Some (s1, frame_bytes (as_bytes reply))"
    using serve_loop_answers [of ?in "[as_bytes req]" E pol s "[reply]" s1 "[]"] len h by simp
  then have sent: "sent = frame_bytes (as_bytes reply)" "s1 = s'" using run by auto
  obtain k where "p = take k (as_bytes reply)" "length (as_bytes reply) < 2 ^ 32 \<longrightarrow> p = as_bytes reply"
    using frame_reads_prefix [OF whole_calm(1) _ got(1), of "as_bytes reply"] sent(1) whole_calm(2) by blast
  then show thesis using that h sent(2) got(2) length_as_bytes by metis
qed

section \<open>Replies as text\<close>

lemma lossy_append:
  assumes "is_ascii a"
  shows "from_utf8_lossy (as_bytes (a @ x)) = a @ from_utf8_lossy (as_bytes x)"
proof -
  have "concat (map (\<lambda>c. enc_char (of_char c)) a) = a"
    using assms by (induction a) (auto simp: is_ascii_Cons enc_char_ascii)
  then show ?thesis
    using decode_ascii [OF assms] dec_all_append [of "map of_char a" "map of_char x"]
    by (simp add: from_utf8_lossy_def decode_def comp_def image_iff del: as_bytes_append)
qed

text \<open>The start of an error reply is no grant and names no capability.\<close>

definition granted :: "string \<Rightarrow> bool" where
  "granted t \<longleftrightarrow> prefix ''OK'' t \<or> prefix ''CAP'' t"

lemma cap_of_no_cap: "\<not> prefix ''CAP'' t \<Longrightarrow> cap_of t = Some []"
proof -
  assume n: "\<not> prefix ''CAP'' t"
  have "prefix (hd (split_on tab t)) t"
  proof (induction t)
    case (Cons c t)
    then show ?case by (cases "split_on tab t") auto
  qed simp
  then have "hd (split_on tab t) \<noteq> ''CAP''" using n by auto
  then show ?thesis by (simp add: cap_of_def Let_def)
qed

lemma prefix_spaced: "tab \<notin> set u \<Longrightarrow> CHR '' '' \<notin> set u \<Longrightarrow> prefix u (spaced t) \<longleftrightarrow> prefix u t"
proof (induction u arbitrary: t)
  case (Cons c u)
  then show ?case by (cases t) (auto simp: spaced_def replace_all_def)
qed simp

lemma error_not_granted:
  assumes "t = from_utf8_lossy (take k (as_bytes (reply_text (Inl e))))"
  shows "\<not> granted t \<and> \<not> granted (spaced t) \<and> cap_of t = Some []"
proof -
  obtain a x where a: "reply_text (Inl e) = a @ x" "a = ''ER'' \<or> a = ''CO''"
  proof (cases "prefix CONSENT_REQUIRED e")
    case True
    then show thesis using that [of "''CO''" "''NSENT'' @ drop (length CONSENT_REQUIRED) e"] by (simp add: reply_text_def)
  next
    case False
    then show thesis using that [of "''ER''" "''R'' @ [tab] @ e"] by (simp add: reply_text_def)
  qed
  have "is_ascii (take k a)" for k using a(2) by (auto simp: is_ascii_def take_Cons split: nat.splits)
  then have t: "t = take k a @ from_utf8_lossy (as_bytes (take (k - length a) x))"
    using lossy_append [of "take k a" "take (k - length a) x"] assms a(1)
    by (simp add: as_bytes_def take_map)
  consider "k = 0" | "k = 1" | j where "k = Suc (Suc j)" by (metis One_nat_def not0_implies_Suc)
  then have "\<not> prefix ''OK'' t \<and> \<not> prefix ''CAP'' t"
    using t a(2) from_utf8_lossy_ascii [of "[]"] by cases auto
  then show ?thesis using cap_of_no_cap prefix_spaced [of "''OK''" t] prefix_spaced [of "''CAP''" t]
    by (simp add: granted_def)
qed

section \<open>References the client holds\<close>

text \<open>What a client has from \<open>cap_of\<close>: nothing, or a reference of its session.\<close>

definition held :: "'w sys \<Rightarrow> string \<Rightarrow> bool" where
  "held s r \<longleftrightarrow> r = [] \<or> cap_at s r \<noteq> None"

text \<open>The entropy source gives as many bytes as it is asked for.\<close>

definition full_draws :: "'w env \<Rightarrow> bool" where
  "full_draws E \<longleftrightarrow> (\<forall>i bs. os_random E i 16 = Some bs \<longrightarrow> length bs = 16)"

lemma known_ref:
  assumes "conn_inv E s" "full_draws E" "cap_at s r \<noteq> None"
  shows "r \<noteq> []" "is_ascii r" "tab \<notin> set r" "length r \<le> 40"
proof -
  obtain i h where h: "rand_hex E i 16 = Some h" "r = cap_of_hex h"
    using assms(1,3) unfolding conn_inv_def table_inv_def caps_drawn_def drawn_def by blast
  then show "is_ascii r" "tab \<notin> set r" using cap_id_ascii [OF rand_hex_digits [OF h(1)]] by simp_all
  show "r \<noteq> []" by (simp add: h(2) cap_of_hex_def)
  obtain bs where bs: "os_random E i 16 = Some bs" "h = concat (map (\<lambda>b. hex_fixed 2 (unat b)) bs)"
    using h(1) by (auto simp: rand_hex_def)
  have "length h = 2 * length bs" unfolding bs(2) by (induction bs) (auto simp: length_hex_fixed)
  then show "length r \<le> 40" using bs(1) assms(2) by (simp add: h(2) cap_of_hex_def full_draws_def)
qed

lemma held_ref:
  assumes "conn_inv E s" "full_draws E" "held s r"
  shows "is_ascii r" "tab \<notin> set r" "length r \<le> 40"
  using known_ref [OF assms(1,2)] assms(3) by (auto simp: held_def)

lemma not_alive_Nil: "conn_inv E s \<Longrightarrow> \<not> alive (cap_at s) []"
  using alive_known [of "cap_at s" "[]"]
  by (auto simp: conn_inv_def table_inv_def caps_drawn_def cap_of_hex_def)

lemma join_plain:
  assumes "fs \<noteq> []" "\<forall>f \<in> set fs. is_ascii f \<and> tab \<notin> set f"
  shows "from_utf8_lossy (as_bytes (join [tab] fs)) = join [tab] fs" "split_on tab (join [tab] fs) = fs"
proof -
  have "is_ascii (join [tab] fs)"
    using assms(2)
  proof (induction fs)
    case (Cons f fs)
    then show ?case by (cases fs) (auto simp: is_ascii_Cons)
  qed simp
  then show "from_utf8_lossy (as_bytes (join [tab] fs)) = join [tab] fs" by (rule from_utf8_lossy_ascii)
  show "split_on tab (join [tab] fs) = fs" using split_on_join [OF assms(1)] assms(2) by blast
qed

text \<open>A call of short plain fields is the verb on these fields.\<close>

lemma call_verb:
  assumes "call E pol (join [tab] fs) s = Some (t, s')" "fs \<noteq> []" "\<forall>f \<in> set fs. is_ascii f \<and> tab \<notin> set f"
    and "length (join [tab] fs) \<le> MAX_FRAME"
  obtains r k where "handle_verb E pol fs s = Some (r, s')"
    "t = from_utf8_lossy (take k (as_bytes (reply_text r)))"
    "length (reply_text r) < 2 ^ 32 \<longrightarrow> t = from_utf8_lossy (as_bytes (reply_text r))"
proof -
  note join_plain [OF assms(2,3)]
  then show thesis
    using call_handled [OF assms(1,4)] that by (auto simp: handle_def)
qed

lemma call_refused:
  assumes "call E pol (join [tab] fs) s = Some (t, s')" "fs \<noteq> []" "\<forall>f \<in> set fs. is_ascii f \<and> tab \<notin> set f"
    and "length (join [tab] fs) \<le> MAX_FRAME"
    and "\<And>r. handle_verb E pol fs s = Some (r, s') \<Longrightarrow> \<exists>e. r = Inl e"
  shows "\<not> granted (spaced t)"
proof -
  obtain r k where "handle_verb E pol fs s = Some (r, s')"
    "t = from_utf8_lossy (take k (as_bytes (reply_text r)))"
    using call_verb [OF assms(1-4)] by blast
  then show ?thesis using assms(5) error_not_granted by blast
qed

section \<open>What is refused\<close>

lemma dead_lookup:
  assumes "conn_inv E s" "\<not> alive (cap_at s) r" "get_active (ses s) r = Some g"
  shows "\<exists>e. g = Inl e"
proof (cases g)
  case (Inr c)
  then have "is_active (s_caps (ses s)) r = Some True" using assms(3) by (simp add: get_active_Inr)
  then show ?thesis using is_active_sound assms(2) by blast
qed blast

lemma read_error:
  assumes "read E r rel s = Some (res, s')" "\<And>x s1. read_i E r rel s = Some (x, s1) \<Longrightarrow> \<exists>e. x = Inl e"
  shows "\<exists>e. res = Inl e"
proof -
  obtain x s1 where "read_i E r rel s = Some (x, s1)" "res = x \<or> res = Inl ReadUnaudited"
    using assms(1) by (auto simp: read_def Let_def bind_eq_Some_conv case_prod_beta split: if_splits)
  then show ?thesis using assms(2) by blast
qed

lemma read_dead:
  assumes "conn_inv E s" "\<not> alive (cap_at s) r" "read E r rel s = Some (res, s')"
  shows "\<exists>e. res = Inl e"
proof (rule read_error [OF assms(3)])
  fix x s1 assume "read_i E r rel s = Some (x, s1)"
  moreover from this obtain g where g: "get_active (ses s) r = Some g" by (auto simp: read_i_def bind_eq_Some_conv)
  moreover from this obtain e where "g = Inl e" using dead_lookup [OF assms(1,2)] by blast
  ultimately show "\<exists>e. x = Inl e" by (auto simp: read_i_def)
qed

lemma read_outside:
  assumes "prefix ''/'' rel \<or> ''..'' \<in> set (split_on (CHR ''/'') rel)" "read E r rel s = Some (res, s')"
  shows "\<exists>e. res = Inl e"
proof (rule read_error [OF assms(2)])
  fix x s1 assume r: "read_i E r rel s = Some (x, s1)"
  have j: "\<exists>e. safe_join root rel = Inl e" for root using assms(1) by (auto simp: safe_join_def)
  obtain g where g: "get_active (ses s) r = Some g" using r by (auto simp: read_i_def bind_eq_Some_conv)
  show "\<exists>e. x = Inl e"
  proof (cases g)
    case (Inr c)
    obtain e where "safe_join (c_root c) rel = Inl e" using j by blast
    then show ?thesis using r g Inr by (auto simp: read_i_def bind_eq_Some_conv split: if_splits)
  qed (use r g in \<open>auto simp: read_i_def\<close>)
qed

lemma verb_read:
  "handle_verb E pol [''INVOKE'', r, ''read'', rel] s = reply_as E data_reply (read E r rel s)"
  by (simp add: handle_verb_def handle_invoke_def need_def nth_opt_def field_or_def)

lemma invoke_refused:
  assumes "call E pol (invoke_read r rel) s = Some (t, s')" "is_ascii r" "tab \<notin> set r" "length r \<le> 40"
    and "is_ascii rel" "tab \<notin> set rel" "length rel \<le> 40"
    and "\<And>res. read E r rel s = Some (res, s') \<Longrightarrow> \<exists>e. res = Inl e"
  shows "\<not> granted (spaced t)"
proof (rule call_refused [OF assms(1) [unfolded invoke_read_def]])
  fix x assume "handle_verb E pol [''INVOKE'', r, ''read'', rel] s = Some (x, s')"
  then show "\<exists>e. x = Inl e" using assms(8) by (auto simp: verb_read reply_as_def)
qed (use assms in \<open>auto simp: is_ascii_Cons MAX_FRAME_def\<close>)

section \<open>The bootstrap capability is given once\<close>

lemma prim_no_bootstrap:
  "prim E False s s' \<Longrightarrow> s_bootstrap (ses s) = None \<Longrightarrow> s_bootstrap (ses s') = None"
  by (induction rule: prim.induct) (auto simp: draw_Some insert_cap_def)

lemma served_no_bootstrap:
  "served E pol s s' \<Longrightarrow> po_role pol = Guest \<Longrightarrow> s_bootstrap (ses s) = None \<Longrightarrow> s_bootstrap (ses s') = None"
proof (induction rule: served.induct)
  case (served_frame s s1 payload reply s2)
  have "evolves E False s1 s2" using handle_evolves [OF served_frame.hyps(2)] served_frame.prems(1) by simp
  then show ?case using served_frame.IH [OF served_frame.prems]
    by (induction rule: rtranclp_induct) (auto dest: prim_no_bootstrap)
qed simp_all

lemma verb_bootstrap: "handle_verb E pol [''BOOTSTRAP''] s = reply_as E cap_reply (Some (take_bootstrap s))"
  by (simp add: handle_verb_def)

lemma cap_reply_taken:
  assumes "conn_inv E s" "full_draws E" "cap_at s i \<noteq> None"
    and "length (reply_text (Inr (cap_reply i))) < 2 ^ 32 \<longrightarrow> t = from_utf8_lossy (as_bytes (reply_text (Inr (cap_reply i))))"
  shows "cap_of t = Some i"
proof -
  note i = known_ref [OF assms(1-3)]
  have "is_ascii (cap_reply i)" using i(2) by (simp add: cap_reply_def is_ascii_Cons)
  moreover have "length (cap_reply i) < 2 ^ 32" using i(4) by (simp add: cap_reply_def)
  ultimately have "t = cap_reply i" using assms(4) from_utf8_lossy_ascii by (simp add: reply_text_def)
  then show ?thesis using cap_of_cap_reply i(3) by simp
qed

lemma bootstrap_called:
  assumes "call E pol ''BOOTSTRAP'' s = Some (t, s')" "conn_inv E s" "full_draws E"
    and "\<forall>i. s_bootstrap (ses s) = Some i \<longrightarrow> cap_at s i \<noteq> None"
  obtains repo where "cap_of t = Some repo" "held s' repo" "s_bootstrap (ses s') = None"
    "s_bootstrap (ses s) = None \<Longrightarrow> \<not> granted (spaced t)"
proof -
  have "call E pol (join [tab] [''BOOTSTRAP'']) s = Some (t, s')" using assms(1) by simp
  then obtain r k where r: "handle_verb E pol [''BOOTSTRAP''] s = Some (r, s')"
    "t = from_utf8_lossy (take k (as_bytes (reply_text r)))"
    "length (reply_text r) < 2 ^ 32 \<longrightarrow> t = from_utf8_lossy (as_bytes (reply_text r))"
    by (rule call_verb) (auto simp: is_ascii_Cons MAX_FRAME_def)
  show thesis
  proof (cases "s_bootstrap (ses s)")
    case None
    then obtain e where "r = Inl e" "s' = s" using r(1) by (auto simp: verb_bootstrap reply_as_def take_bootstrap_def)
    then show thesis using that None error_not_granted [of t k e] r(2) by (auto simp: held_def)
  next
    case (Some i)
    then have "r = Inr (cap_reply i)" "s' = upd_ses (s_bootstrap_update (\<lambda>_. None)) s"
      using r(1) by (auto simp: verb_bootstrap reply_as_def take_bootstrap_def)
    moreover have "cap_at s i \<noteq> None" using assms(4) Some by blast
    ultimately show thesis
      using that [of i] cap_reply_taken [OF assms(2,3), of i t] r(3) Some by (simp add: held_def)
  qed
qed

section \<open>Attenuation, minting, revocation\<close>

abbreviation child_of :: "'w sys \<Rightarrow> string \<Rightarrow> string \<Rightarrow> bool" where
  "child_of s r i \<equiv> (r, i) \<in> parent_rel (cap_at s)"

lemma derive_readonly_child:
  assumes "derive_readonly E r s = Some (Inr i, s')" shows "child_of s' r i"
proof -
  obtain g where g: "get_active (ses s) r = Some g" using assms by (auto simp: derive_readonly_def bind_eq_Some_conv)
  have "\<exists>d. cap_at s' i = Some d \<and> c_parent d = Some r"
  proof (cases g)
    case (Inr c)
    then show ?thesis using assms g
      by (auto simp: derive_readonly_def bind_eq_Some_conv Let_def)
  qed (use assms g in \<open>simp add: derive_readonly_def\<close>)
  then show ?thesis by (simp add: parent_rel_def)
qed

lemma verb_derive:
  "handle_verb E pol [''DERIVE'', r, ''sub'', seg] s = reply_as E cap_reply (derive_sub E r seg s)"
  "handle_verb E pol [''DERIVE'', r, ''readonly''] s = reply_as E cap_reply (derive_readonly E r s)"
  by (simp_all add: handle_verb_def handle_derive_def need_def nth_opt_def)

lemma reply_as_Inr: "reply_as E g m = Some (Inr y, s') \<Longrightarrow> \<exists>v. m = Some (Inr v, s') \<and> y = g v"
  by (cases m) (auto simp: reply_as_def split: sum.splits)

lemma derive_called:
  assumes "call E pol (join [tab] (''DERIVE'' # r # how)) s = Some (t, s')" "conn_inv E s'" "full_draws E"
    and "is_ascii r" "tab \<notin> set r" "length r \<le> 40"
    and "how = [''sub'', ''src''] \<or> how = [''readonly'']"
  obtains i where "cap_of t = Some i" "i = [] \<or> child_of s' r i" "held s' i"
proof -
  obtain x k where x: "handle_verb E pol (''DERIVE'' # r # how) s = Some (x, s')"
    "t = from_utf8_lossy (take k (as_bytes (reply_text x)))"
    "length (reply_text x) < 2 ^ 32 \<longrightarrow> t = from_utf8_lossy (as_bytes (reply_text x))"
    by (rule call_verb [OF assms(1)]) (use assms(4-7) in \<open>auto simp: is_ascii_Cons MAX_FRAME_def\<close>)
  show thesis
  proof (cases x)
    case (Inl e)
    then show thesis using that [of "[]"] error_not_granted [of t k e] x(2) by (simp add: held_def)
  next
    case (Inr y)
    obtain i where i: "y = cap_reply i" "child_of s' r i"
      using assms(7)
    proof
      assume "how = [''sub'', ''src'']"
      with x(1) Inr have "reply_as E cap_reply (derive_sub E r ''src'' s) = Some (Inr y, s')" by (simp only: verb_derive)
      from reply_as_Inr [OF this] derive_sub_parent show thesis using that by blast
    next
      assume "how = [''readonly'']"
      with x(1) Inr have "reply_as E cap_reply (derive_readonly E r s) = Some (Inr y, s')" by (simp only: verb_derive)
      from reply_as_Inr [OF this] derive_readonly_child show thesis using that by blast
    qed
    then have "cap_at s' i \<noteq> None" by (auto simp: parent_rel_def)
    then show thesis
      using that [of i] cap_reply_taken [OF assms(2,3), of i t] x(3) i Inr by (simp add: held_def)
  qed
qed

lemma mint_refused:
  assumes "call E pol req s = Some (t, s')" "length req \<le> MAX_FRAME" "po_role pol = Guest"
    and "req = ''GRANT_DIR'' @ tab # x \<or> req = ''GRANT_SINK'' @ tab # x \<or> req = ''GRANT_CMD'' @ tab # x"
  shows "\<not> granted (spaced t) \<and> s' = s"
proof -
  obtain reply k where r: "handle E pol (from_utf8_lossy (as_bytes req)) s = Some (reply, s')"
    "t = from_utf8_lossy (take k (as_bytes reply))"
    by (rule call_handled [OF assms(1,2)])
  obtain v where v: "v = ''GRANT_DIR'' \<or> v = ''GRANT_SINK'' \<or> v = ''GRANT_CMD''" "req = (v @ [tab]) @ x"
    using assms(4) by (metis append_Cons append_Nil append_assoc)
  then have "is_ascii (v @ [tab])" by (auto simp: is_ascii_Cons)
  then have "from_utf8_lossy (as_bytes req) = v @ tab # from_utf8_lossy (as_bytes x)"
    unfolding v(2) using lossy_append [of "v @ [tab]" x] by simp
  moreover have "tab \<notin> set v" using v(1) by auto
  ultimately obtain fs where "split_on tab (from_utf8_lossy (as_bytes req)) = v # fs"
    by (simp add: split_on_append_sep)
  then obtain e where "handle_verb E pol (split_on tab (from_utf8_lossy (as_bytes req))) s = Some (Inl e, s)"
    using v(1) assms(3) by (auto simp: handle_verb_def deny_guest_mint_def)
  then show ?thesis using r error_not_granted [of t k e] by (simp add: handle_def)
qed

lemma child_dies:
  assumes "child_of s r x" "served E pol s s1" "conn_inv E s" "draws_distinct E (rng s1)" "\<not> alive (cap_at s1) r"
  shows "\<not> alive (cap_at s1) x"
proof -
  have "(r, x) \<in> parent_rel (cap_at s1)"
    using grows_parent_rel [OF served_grows [OF assms(2-4)]] assms(1) by blast
  then show ?thesis using alive_ancestor assms(5) by blast
qed

lemma revoke_called:
  assumes "call E pol (join [tab] [''REVOKE'', r]) s = Some (t, s')" "conn_inv E s"
    and "is_ascii r" "tab \<notin> set r" "length r \<le> 40"
  shows "\<not> alive (cap_at s') r"
proof -
  obtain x k where "handle_verb E pol [''REVOKE'', r] s = Some (x, s')"
    by (rule call_verb [OF assms(1)]) (use assms(3-5) in \<open>auto simp: is_ascii_Cons MAX_FRAME_def\<close>)
  then obtain res where "revoke E r s = Some (res, s')"
    by (auto simp: handle_verb_def need_def nth_opt_def reply_as_def)
  then have "s_caps (ses s') = revoke_entry r (s_caps (ses s))"
    by (auto simp: revoke_def bind_eq_Some_conv Let_def)
  then show ?thesis
    using alive_revoke_entry [of r "s_caps (ses s)" r] alive_known [of "cap_at s'" r]
    by (cases "cap_at s r") (auto simp: revoke_entry_def)
qed

section \<open>What the demo shows\<close>

text \<open>The texts of the lines printed as denials.\<close>

fun denied :: "shown list \<Rightarrow> string list" where
  "denied [] = []"
| "denied (l # ls) = (case l of Deny_Line t \<Rightarrow> t # denied ls | _ \<Rightarrow> denied ls)"

lemma denied_append: "denied (ls @ ms) = denied ls @ denied ms"
  by (induction ls) (auto split: shown.split)

abbreviation refused :: "string list \<Rightarrow> bool" where
  "refused ts \<equiv> list_all (\<lambda>t. \<not> granted t) ts"

text \<open>A call leaves the invariant and the references the client holds.\<close>

lemma called:
  assumes "call E pol req s = Some (t, s')" "conn_inv E s" "draws_distinct E (rng s')"
  shows "conn_inv E s'" "served E pol s s'" "held s r \<Longrightarrow> held s' r" "child_of s r i \<Longrightarrow> child_of s' r i"
proof -
  show v: "served E pol s s'" by (rule call_served [OF assms(1)])
  then show "conn_inv E s'" by (rule served_conn_inv [OF _ assms(2,3)])
  have g: "grows (cap_at s) (cap_at s')" by (rule served_grows [OF v assms(2,3)])
  then show "held s r \<Longrightarrow> held s' r" by (fastforce simp: held_def grows_def)
  show "child_of s r i \<Longrightarrow> child_of s' r i" using grows_parent_rel [OF g] by blast
qed

lemma bind_SomeE: "Option.bind m f = Some y \<Longrightarrow> (\<And>x. m = Some x \<Longrightarrow> f x = Some y \<Longrightarrow> P) \<Longrightarrow> P"
  by (auto simp: bind_eq_Some_conv)

lemma bind_pairE:
  "Option.bind m (\<lambda>(a, b). f a b) = Some y \<Longrightarrow> (\<And>a b. m = Some (a, b) \<Longrightarrow> f a b = Some y \<Longrightarrow> P) \<Longrightarrow> P"
  by (auto simp: bind_eq_Some_conv)

lemma call_rng: "call E pol req s = Some (t, s') \<Longrightarrow> rng s \<le> rng s'"
  using served_rng call_served by blast

lemma demo_use_rng: "demo_use E pol s0 = Some (repo, sub, ls, s8) \<Longrightarrow> rng s0 \<le> rng s8"
  unfolding demo_use_def by (elim bind_pairE bind_SomeE, (drule call_rng)+) simp

lemma demo_limits_rng: "demo_limits E pol root repo sub s0 = Some (ls, s6) \<Longrightarrow> rng s0 \<le> rng s6"
  unfolding demo_limits_def by (elim bind_pairE bind_SomeE, (drule call_rng)+) simp

lemma demo_replay_rng: "demo_replay E sv repo s0 = Some (ls, s3) \<Longrightarrow> rng s0 \<le> rng s3"
  unfolding demo_replay_def by (elim bind_pairE bind_SomeE) (auto dest!: connect_first call_rng)

lemma demo_use_shows:
  assumes "demo_use E pol s0 = Some (repo, sub, ls, s8)" "conn_inv E s0" "draws_distinct E (rng s8)" "full_draws E"
    and "\<forall>i. s_bootstrap (ses s0) = Some i \<longrightarrow> cap_at s0 i \<noteq> None" "po_role pol = Guest"
  shows "length (denied ls) = 2 \<and> refused (denied ls) \<and> conn_inv E s8 \<and> rng s0 \<le> rng s8 \<and> held s8 repo \<and> held s8 sub
    \<and> (sub = [] \<or> child_of s8 repo sub) \<and> s_bootstrap (ses s8) = None"
proof -
  obtain a b c d e f g h ro s1 s2 s3 s4 s5 s6 s7 where
    c1: "call E pol ''BOOTSTRAP'' s0 = Some (a, s1)" and repo: "cap_of a = Some repo" and
    c2: "call E pol (join [tab] [''DESCRIBE'', repo]) s1 = Some (b, s2)" and
    c3: "call E pol (invoke_read repo ''main.txt'') s2 = Some (c, s3)" and
    c4: "call E pol (invoke_read repo ''/etc/passwd'') s3 = Some (d, s4)" and
    c5: "call E pol (invoke_read repo ''../../etc/passwd'') s4 = Some (e, s5)" and
    c6: "call E pol (join [tab] [''DERIVE'', repo, ''sub'', ''src'']) s5 = Some (f, s6)" and sub: "cap_of f = Some sub" and
    c7: "call E pol (join [tab] [''DERIVE'', sub, ''readonly'']) s6 = Some (g, s7)" and ro: "cap_of g = Some ro" and
    c8: "call E pol (invoke_read ro ''secret.txt'') s7 = Some (h, s8)" and
    ls: "denied ls = [spaced d, spaced e]"
    using assms(1) unfolding demo_use_def
  proof (elim bind_pairE bind_SomeE, goal_cases)
    case (1 a s1 repo' b s2 c s3 d s4 e s5 f s6 sub' g s7 ro h s8')
    from 1(13) have q: "repo' = repo" "sub' = sub" "s8' = s8" by (simp_all only: option.inject prod.inject)
    have l: "denied ls = [spaced d, spaced e]" using 1(13) by auto
    show thesis by (rule 1(1) [OF 1(2-12) [unfolded q] l])
  qed
  note le = call_rng [OF c1] call_rng [OF c2] call_rng [OF c3] call_rng [OF c4] call_rng [OF c5] call_rng [OF c6] call_rng [OF c7] call_rng [OF c8]
  have dist: "draws_distinct E n" if "n \<le> rng s8" for n using draws_distinct_le [OF assms(3) that] .
  obtain r0 where "cap_of a = Some r0" "held s1 r0" "s_bootstrap (ses s1) = None"
    using bootstrap_called [OF c1 assms(2,4,5)] by metis
  then have h1: "held s1 repo" and b1: "s_bootstrap (ses s1) = None" using repo by simp_all
  have k1: "conn_inv E s1" using called(1) [OF c1 assms(2)] dist le by simp
  have k2: "conn_inv E s2" "held s2 repo" using called(1,3) [OF c2 k1] h1 dist le by simp_all
  have k3: "conn_inv E s3" "held s3 repo" using called(1,3) [OF c3 k2(1)] k2(2) dist le by simp_all
  have k4: "conn_inv E s4" "held s4 repo" using called(1,3) [OF c4 k3(1)] k3(2) dist le by simp_all
  have k5: "conn_inv E s5" "held s5 repo" using called(1,3) [OF c5 k4(1)] k4(2) dist le by simp_all
  have k6: "conn_inv E s6" "held s6 repo" using called(1,3) [OF c6 k5(1)] k5(2) dist le by simp_all
  obtain i where "cap_of f = Some i" "i = [] \<or> child_of s6 repo i" "held s6 i"
    using derive_called [OF c6 k6(1) assms(4) held_ref [OF k5(1) assms(4) k5(2)]] by blast
  then have h6: "sub = [] \<or> child_of s6 repo sub" "held s6 sub" using sub by simp_all
  have k7: "conn_inv E s7" "held s7 repo" "held s7 sub" "sub = [] \<or> child_of s7 repo sub"
    using called(1,3,4) [OF c7 k6(1)] k6(2) h6 dist le by auto
  have k8: "conn_inv E s8" "held s8 repo" "held s8 sub" "sub = [] \<or> child_of s8 repo sub"
    using called(1,3,4) [OF c8 k7(1)] k7(2-4) dist le by auto
  have "served E pol s1 s8"
    by (rule served_trans [OF call_served [OF c8]], rule served_trans [OF call_served [OF c7]],
        rule served_trans [OF call_served [OF c6]], rule served_trans [OF call_served [OF c5]],
        rule served_trans [OF call_served [OF c4]], rule served_trans [OF call_served [OF c3]], rule call_served [OF c2])
  then have "s_bootstrap (ses s8) = None" by (rule served_no_bootstrap [OF _ assms(6) b1])
  moreover have "\<not> granted (spaced d)"
    by (rule invoke_refused [OF c4 held_ref [OF k3(1) assms(4) k3(2)]]) (auto simp: is_ascii_Cons dest: read_outside [rotated])
  moreover have "\<not> granted (spaced e)"
    by (rule invoke_refused [OF c5 held_ref [OF k4(1) assms(4) k4(2)]]) (auto simp: is_ascii_Cons dest: read_outside [rotated])
  ultimately show ?thesis using k8 le by (simp add: ls)
qed

lemma demo_limits_shows:
  assumes "demo_limits E pol root repo sub s0 = Some (ls, s6)" "conn_inv E s0" "draws_distinct E (rng s6)" "full_draws E"
    and "held s0 repo" "held s0 sub" "sub = [] \<or> child_of s0 repo sub" "s_bootstrap (ses s0) = None"
    and "po_role pol = Guest" "length root \<le> 2 ^ 20"
  shows "length (denied ls) = 5 \<and> refused (denied ls) \<and> conn_inv E s6 \<and> rng s0 \<le> rng s6 \<and> held s6 repo"
proof -
  obtain a b c d e f s1 s2 s3 s4 s5 where
    c1: "call E pol (join [tab] [''GRANT_DIR'', root, ''read'', ''project'']) s0 = Some (a, s1)" and
    c2: "call E pol (join [tab] [''GRANT_SINK'', ''https://evil.example.com'']) s1 = Some (b, s2)" and
    c3: "call E pol (join [tab] [''GRANT_CMD'', repo, ''/bin/sh'' @ [US] @ ''-c'' @ [US] @ ''id'']) s2 = Some (c, s3)" and
    c4: "call E pol ''BOOTSTRAP'' s3 = Some (d, s4)" and
    c5: "call E pol (join [tab] [''REVOKE'', repo]) s4 = Some (e, s5)" and
    c6: "call E pol (invoke_read sub ''secret.txt'') s5 = Some (f, s6)" and
    ls: "denied ls = [spaced a, spaced b, spaced c, spaced d, spaced f]"
    using assms(1) unfolding demo_limits_def
  proof (elim bind_pairE bind_SomeE, goal_cases)
    case (1 a s1 b s2 c s3 d s4 e s5 f s6')
    from 1(8) have q: "s6' = s6" by (simp_all only: option.inject prod.inject)
    have l: "denied ls = [spaced a, spaced b, spaced c, spaced d, spaced f]" using 1(8) by auto
    show thesis by (rule 1(1) [OF 1(2-7) [unfolded q] l])
  qed
  note ref = held_ref [OF assms(2,4,5)]
  have m1: "\<not> granted (spaced a) \<and> s1 = s0"
    by (rule mint_refused [OF c1 _ assms(9)]) (use assms(10) in \<open>auto simp: MAX_FRAME_def\<close>)
  have m2: "\<not> granted (spaced b) \<and> s2 = s1"
    by (rule mint_refused [OF c2 _ assms(9)]) (auto simp: MAX_FRAME_def)
  have m3: "\<not> granted (spaced c) \<and> s3 = s2"
    by (rule mint_refused [OF c3 _ assms(9)]) (use ref(3) in \<open>auto simp: MAX_FRAME_def\<close>)
  then have s3: "s3 = s0" using m1 m2 by simp
  have le: "rng s3 \<le> rng s4" "rng s4 \<le> rng s5" "rng s5 \<le> rng s6"
    using call_rng [OF c4] call_rng [OF c5] call_rng [OF c6] by simp_all
  have dist: "draws_distinct E n" if "n \<le> rng s6" for n using draws_distinct_le [OF assms(3) that] .
  have b4: "\<not> granted (spaced d)"
    using bootstrap_called [OF c4] assms(2,4,8) s3 by (metis option.distinct(1))
  have k4: "conn_inv E s4" "held s4 repo" "held s4 sub" "sub = [] \<or> child_of s4 repo sub"
    using called(1,3,4) [OF c4] assms(2,5-7) s3 dist le by auto
  have k5: "conn_inv E s5" "held s5 repo" "held s5 sub" "sub = [] \<or> child_of s5 repo sub"
    using called(1,3,4) [OF c5 k4(1)] k4 dist le by auto
  have k6: "conn_inv E s6" "held s6 repo" using called(1,3) [OF c6 k5(1)] k5 dist le by auto
  have "\<not> alive (cap_at s5) repo" by (rule revoke_called [OF c5 k4(1) held_ref [OF k4(1) assms(4) k4(2)]])
  then have "\<not> alive (cap_at s5) sub" using k5(4) alive_ancestor not_alive_Nil [OF k5(1)] by blast
  then have "\<not> granted (spaced f)"
    by (intro invoke_refused [OF c6 held_ref [OF k5(1) assms(4) k5(3)]]) (auto simp: is_ascii_Cons dest: read_dead [OF k5(1)])
  then show ?thesis using m1 m2 m3 b4 k6 le s3 by (simp add: ls)
qed

lemma demo_replay_shows:
  assumes "demo_replay E sv repo s0 = Some (ls, s3)" "conn_inv E s0" "draws_distinct E (rng s3)" "full_draws E"
    and "held s0 repo"
  shows "length (denied ls) = 1 \<and> refused (denied ls) \<and> ses s3 = ses s0 \<and> rng s0 \<le> rng s3"
proof -
  obtain a s1 s2 where c: "connect_session E sv s0 = Some s1"
    "call E (sv_policy sv) (invoke_read repo ''main.txt'') s1 = Some (a, s2)"
    and s3: "s3 = s2\<lparr>ses := ses s0\<rparr>" and ls: "denied ls = [spaced a]"
    using assms(1) by (auto simp: demo_replay_def bind_eq_Some_conv)
  have le: "rng s0 \<le> rng s1" "rng s1 \<le> rng s2"
    using connect_first [OF c(1)] served_rng [OF call_served [OF c(2)]] by simp_all
  have dist: "draws_distinct E (rng s1)" "draws_distinct E (rng s2)" using assms(3) draws_distinct_le le(2) s3 by auto
  have k1: "conn_inv E s1" using connect_session_start [OF c(1) dist(1)] by blast
  have "cap_at s1 repo = None"
  proof (rule ccontr)
    assume n: "cap_at s1 repo \<noteq> None"
    then obtain i h where i: "rng s0 \<le> i" "i < rng s1" "rand_hex E i 16 = Some h" "repo = cap_of_hex h"
      using connect_first [OF c(1)] by blast
    then have "repo \<noteq> []" by (simp add: cap_of_hex_def)
    then obtain j where "j < rng s0" "rand_hex E j 16 = Some h"
      using assms(2,5) i(4) by (auto simp: held_def conn_inv_def table_inv_def caps_drawn_def drawn_def)
    then show False using dist(1) i le unfolding draws_distinct_def
      by (metis leD less_le_trans option.distinct(1) order_less_imp_le)
  qed
  then have "\<not> alive (cap_at s1) repo" using alive_known by fastforce
  then have "\<not> granted (spaced a)"
    by (intro invoke_refused [OF c(2) held_ref [OF assms(2,4,5)]]) (auto simp: is_ascii_Cons dest: read_dead [OF k1])
  then show ?thesis using s3 le by (simp add: ls)
qed

end
