(* ===== verification/Demo_Run.thy ===== *)
theory Demo_Run
  imports Demo
begin

text \<open>The demo as it runs in the quiet environment, step by step, and what it shows in any.\<close>

section \<open>Sessions in the quiet environment\<close>

definition qref :: "nat \<Rightarrow> string" where
  "qref i = cap_of_hex (low_bytes @ hex_fixed 2 i)"

lemma quiet_hex: "i < 256 \<Longrightarrow> rand_hex quiet_env i 16 = Some (low_bytes @ hex_fixed 2 i)"
  by (simp add: quiet_draw)

lemma qref_text:
  assumes "i < 256"
  shows "is_ascii (qref i)" "tab \<notin> set (qref i)" "length (qref i) = 36" "qref i \<noteq> []"
    "short (qref i) = Some (take 14 (qref i) @ ellipsis)"
proof -
  show a: "is_ascii (qref i)" "tab \<notin> set (qref i)"
    using cap_id_ascii [OF rand_hex_digits [OF quiet_hex [OF assms]]] by (simp_all add: qref_def)
  have "length low_bytes = 30" by (simp add: low_bytes_def length_concat sum_list_replicate)
  then show l: "length (qref i) = 36" by (simp add: qref_def cap_of_hex_def)
  then show "qref i \<noteq> []" by auto
  show "short (qref i) = Some (take 14 (qref i) @ ellipsis)"
    using is_ascii_slice [OF a(1), of 14] l by (simp add: short_def)
qed

lemma qref_inject: "i < 256 \<Longrightarrow> j < 256 \<Longrightarrow> qref i = qref j \<longleftrightarrow> i = j"
  using hex_fixed_inject [of i 2 j] by (auto simp: qref_def)

text \<open>What matters of a session: its table, its bootstrap capability, the draws so far.\<close>

definition at :: "unit sys \<Rightarrow> caps \<Rightarrow> string option \<Rightarrow> nat \<Rightarrow> bool" where
  "at s cs b n \<longleftrightarrow> s_caps (ses s) = cs \<and> s_bootstrap (ses s) = b \<and> rng s = n
     \<and> \<not> s_sink (ses s) \<and> \<not> s_audit_broken (ses s)"

lemma insert_cap_rest [simp]:
  "s_bootstrap (ses (insert_cap c s)) = s_bootstrap (ses s)" "s_sink (ses (insert_cap c s)) = s_sink (ses s)"
  by (simp_all add: insert_cap_def)

lemma at_audit [simp]: "at (snd (audit E op d c s)) cs b n \<longleftrightarrow> at s cs b n"
  by (auto simp: at_def audit_broken audit_no_sink)

definition qdir :: "nat \<Rightarrow> cap" where
  "qdir i = (blank_cap (qref i) Dir)\<lparr>c_root := ''/srv/ws'', c_ops := [Read, List], c_taint := Project,
     c_dir_fd := Some 3\<rparr>"

lemma connect_quiet:
  assumes "rng s = n" "n + 1 < 256"
  shows "\<exists>s1. connect_session quiet_env demo_service s = Some s1 \<and> at s1 [(qref (n + 1), qdir (n + 1))] (Some (qref (n + 1))) (n + 2)"
proof -
  define t where "t = set_consent (set_policy allow_all (s\<lparr>rng := n + 1, ses := blank_session (low_bytes @ hex_fixed 2 n)\<rparr>))"
  have new: "new_session quiet_env s = Some (s\<lparr>rng := n + 1, ses := blank_session (low_bytes @ hex_fixed 2 n)\<rparr>)"
    using assms quiet_hex [of n] by (simp add: new_session_def draw_def)
  have t: "at t [] None (n + 1)" by (simp add: at_def t_def set_consent_def set_policy_def blank_session_def)
  define u where "u = insert_cap (qdir (n + 1)) (t\<lparr>world := (), rng := n + 2\<rparr>)"
  have u: "at u [(qref (n + 1), qdir (n + 1))] None (n + 2)"
    using t by (simp add: at_def u_def qdir_def blank_cap_def)
  have d: "draw quiet_env (t\<lparr>world := w\<rparr>) = Some (low_bytes @ hex_fixed 2 (n + 1), t\<lparr>world := w, rng := n + 2\<rparr>)" for w
    using quiet_hex [OF assms(2)] t by (simp add: draw_def at_def)
  have "\<exists>v. grant_dir quiet_env ''/srv/ws'' [Read, List] Project t = Some (Inr (qref (n + 1)), snd (audit quiet_env ''grant_dir'' v ''allow'' u))"
    using qref_text(5) [OF assms(2)] 
    by (auto simp: grant_dir_def open_dir_fd_def quiet_env_def [THEN arg_cong [where f = os_open]] d Let_def u_def qdir_def
        simp flip: qref_def)
  then obtain v where "set_bootstrap quiet_env ''/srv/ws'' t = Some (upd_ses (s_bootstrap_update (\<lambda>_. Some (qref (n + 1))))
      (snd (audit quiet_env ''grant_dir'' v ''allow'' u)))"
    by (auto simp: set_bootstrap_def)
  moreover have "connect_session quiet_env demo_service s = set_bootstrap quiet_env ''/srv/ws'' t"
    using new by (simp add: connect_session_def demo_service_def t_def)
  ultimately show ?thesis using u by (auto simp: at_def audit_broken audit_no_sink)
qed

section \<open>Calls that return\<close>

lemma call_returns:
  assumes "handle E pol (from_utf8_lossy (as_bytes req)) s = Some (reply, s')"
    and "length req \<le> MAX_FRAME" "length reply \<le> MAX_FRAME"
  shows "call E pol req s = Some (from_utf8_lossy (as_bytes reply), s')"
proof -
  let ?in = "whole (frame_bytes (as_bytes req))"
  have "serve_loop E pol put_all put_flush ?in s [] = Some (s', frame_bytes (as_bytes reply))"
    using serve_loop_answers [of ?in "[as_bytes req]" E pol s "[reply]" s' "[]"] assms(1,2) by simp
  moreover obtain r where "read_frame (whole (frame_bytes (as_bytes reply))) = (Inr (Some (as_bytes reply)), r)"
    using frame_reads [of "whole (frame_bytes (as_bytes reply))" "as_bytes reply" "[]"] assms(3) by auto
  ultimately show ?thesis by (simp add: call_def)
qed

lemma call_plain:
  assumes "handle_verb E pol fs s = Some (r, s')" "fs \<noteq> []" "\<forall>f \<in> set fs. is_ascii f \<and> tab \<notin> set f"
    and "length (join [tab] fs) \<le> MAX_FRAME" "length (reply_text r) \<le> MAX_FRAME"
  shows "call E pol (join [tab] fs) s = Some (from_utf8_lossy (as_bytes (reply_text r)), s')"
  by (rule call_returns) (use assms join_plain [OF assms(2,3)] in \<open>auto simp: handle_def\<close>)

lemma cap_call:
  assumes "handle_verb E pol fs s = Some (Inr (cap_reply (qref i)), s')" "i < 256"
    and "fs \<noteq> []" "\<forall>f \<in> set fs. is_ascii f \<and> tab \<notin> set f" "length (join [tab] fs) \<le> MAX_FRAME"
  shows "\<exists>t. call E pol (join [tab] fs) s = Some (t, s') \<and> cap_of t = Some (qref i)"
proof -
  note q = qref_text [OF assms(2)]
  have "is_ascii (cap_reply (qref i))" "length (cap_reply (qref i)) = 40"
    using q(1,3) by (auto simp: cap_reply_def is_ascii_Cons)
  moreover from this have "call E pol (join [tab] fs) s = Some (from_utf8_lossy (as_bytes (reply_text (Inr (cap_reply (qref i))))), s')"
    by (intro call_plain [OF assms(1,3-5)]) (simp add: reply_text_def MAX_FRAME_def)
  ultimately show ?thesis using cap_of_cap_reply [OF q(2)] from_utf8_lossy_ascii by (simp add: reply_text_def)
qed

section \<open>Its operations\<close>

lemma error_small:
  assumes "e \<in> {BootstrapGone, NotCapable (take 14 (qref i) @ ellipsis), PathErr (AbsolutePath ''/etc/passwd'' ''/srv/ws''),
      PathErr (ParentEscape ''../../etc/passwd'' ''/srv/ws'')}" "i < 256"
  shows "length (reply_text (Inl (error_text esc e))) \<le> MAX_FRAME"
proof -
  have n: "length x \<le> 100 \<Longrightarrow> length (reply_text (Inl x)) \<le> MAX_FRAME" for x :: string
    by (auto simp: reply_text_def MAX_FRAME_def)
  show ?thesis
    by (rule n) (use assms qref_text [OF assms(2)] in
      \<open>auto simp: error_text_def path_error_text_def U_def enc_char_def ellipsis_def\<close>)
qed

text \<open>A lookup in the tables that occur: the capability of the workspace, and its descendants.\<close>

lemma get_quiet:
  assumes "at s cs b n" "is_active cs (qref i) = Some act" "act \<Longrightarrow> map_of cs (qref i) = Some c" "i < 256"
  shows "get_active (ses s) (qref i) = Some (if act then Inr c else Inl (NotCapable (take 14 (qref i) @ ellipsis)))"
  using assms qref_text(5) [OF assms(4)] by (cases act) (auto simp: at_def get_active_def)

definition quiet_reply :: "nat \<Rightarrow> (error + taint \<times> byte list) \<Rightarrow> bool" where
  "quiet_reply i res \<longleftrightarrow> (case res of Inr (t, d) \<Rightarrow> d = [] | Inl e \<Rightarrow>
     e \<in> {BootstrapGone, NotCapable (take 14 (qref i) @ ellipsis), PathErr (AbsolutePath ''/etc/passwd'' ''/srv/ws''),
      PathErr (ParentEscape ''../../etc/passwd'' ''/srv/ws'')})"

lemma read_quiet:
  assumes "at s cs b n" "is_active cs (qref i) = Some act" "act \<Longrightarrow> map_of cs (qref i) = Some c" "i < 256"
    and "act \<Longrightarrow> Read \<in> set (c_ops c) \<and> c_dir_fd c \<noteq> None"
    and "act \<Longrightarrow> (\<forall>e. safe_join (c_root c) rel = Inl e \<longrightarrow> quiet_reply i (Inl (PathErr e)))"
  shows "\<exists>res s'. read quiet_env (qref i) rel s = Some (res, s') \<and> at s' cs b n \<and> quiet_reply i res"
proof -
  note g = get_quiet [OF assms(1-4)]
  have w: "read_at quiet_env fd rel w = (Inr [], w)" for fd w
    by (simp add: read_at_def openat2_at_def quiet_env_def Let_def)
  obtain res s1 where "read_i quiet_env (qref i) rel s = Some (res, s1)" "s1 = s\<lparr>world := world s1\<rparr>" "quiet_reply i res"
  proof (cases act)
    case True
    then obtain fd where "Read \<in> set (c_ops c)" "c_dir_fd c = Some fd" using assms(5) by auto
    then show thesis using that g True w assms(6)
      by (cases "safe_join (c_root c) rel") (auto simp: read_i_def quiet_reply_def)
  next
    case False
    then show thesis using that g by (auto simp: read_i_def quiet_reply_def)
  qed
  moreover from this have "at s1 cs b n" using assms(1) by (metis (no_types, lifting) at_def sys.select_convs(1,5) sys.update_convs(6) sys.surjective)
  ultimately show ?thesis using qref_text(5) [OF assms(4)]
    by (auto simp: read_def Let_def case_prod_beta audit_no_sink at_def)
qed

lemma invoke_quiet:
  assumes "at s cs b n" "is_active cs (qref i) = Some act" "act \<Longrightarrow> map_of cs (qref i) = Some c" "i < 256"
    and "act \<Longrightarrow> Read \<in> set (c_ops c) \<and> c_dir_fd c \<noteq> None"
    and "act \<Longrightarrow> (\<forall>e. safe_join (c_root c) rel = Inl e \<longrightarrow> quiet_reply i (Inl (PathErr e)))"
    and "is_ascii rel" "tab \<notin> set rel" "length rel \<le> 40"
  shows "\<exists>t s'. call quiet_env pol (invoke_read (qref i) rel) s = Some (t, s') \<and> at s' cs b n"
proof -
  obtain res s' where r: "read quiet_env (qref i) rel s = Some (res, s')" "at s' cs b n" "quiet_reply i res"
    using read_quiet [OF assms(1-6)] by blast
  let ?r = "case res of Inl e \<Rightarrow> Inl (error_text (uni_escaped quiet_env) e) | Inr v \<Rightarrow> Inr (data_reply v)"
  have h: "handle_verb quiet_env pol [''INVOKE'', qref i, ''read'', rel] s = Some (?r, s')"
    by (simp add: verb_read reply_as_def r(1) split: sum.split)
  have l: "length (reply_text ?r) \<le> MAX_FRAME"
  proof (cases res)
    case (Inl e)
    then show ?thesis using r(3) error_small [of e i] assms(4) by (simp add: quiet_reply_def)
  next
    case (Inr v)
    then have "snd v = []" using r(3) by (auto simp: quiet_reply_def split: prod.splits)
    then show ?thesis using Inr
      by (cases "fst v") (auto simp: reply_text_def data_reply_def ok_reply_def MAX_FRAME_def taint_str_def)
  qed
  have "call quiet_env pol (join [tab] [''INVOKE'', qref i, ''read'', rel]) s = Some (from_utf8_lossy (as_bytes (reply_text ?r)), s')"
    by (rule call_plain [OF h _ _ _ l]) (use assms(7-9) qref_text [OF assms(4)] in \<open>auto simp: is_ascii_Cons MAX_FRAME_def\<close>)
  then show ?thesis using r(2) by (auto simp: invoke_read_def)
qed

lemma describe_quiet:
  assumes "at s [(qref i, qdir i)] b n" "i < 256"
  shows "\<exists>t s'. call quiet_env pol (join [tab] [''DESCRIBE'', qref i]) s = Some (t, s') \<and> at s' [(qref i, qdir i)] b n"
proof -
  have a: "is_active [(qref i, qdir i)] (qref i) = Some True"
    by (simp add: is_active.simps qdir_def blank_cap_def)
  obtain d where d: "describe (ses s) (qref i) = Some (Inr d)" "length d \<le> 100"
    using assms(1) qref_text [OF assms(2)] a
    by (simp add: describe_def at_def qdir_def blank_cap_def ellipsis_def U_def enc_char_def kind_str_def taint_str_def)
  have "call quiet_env pol (join [tab] [''DESCRIBE'', qref i]) s
      = Some (from_utf8_lossy (as_bytes (reply_text (Inr (ok_reply [] d)))), s)"
    by (rule call_plain) (use d qref_text [OF assms(2)] in
      \<open>auto simp: handle_verb_def need_def nth_opt_def reply_as_def is_ascii_Cons MAX_FRAME_def reply_text_def ok_reply_def\<close>)
  then show ?thesis using assms(1) by blast
qed

lemma revoke_quiet:
  assumes "at s cs b n" "map_of cs (qref i) \<noteq> None" "i < 256"
  shows "\<exists>t s'. call quiet_env pol (join [tab] [''REVOKE'', qref i]) s = Some (t, s') \<and> at s' (revoke_entry (qref i) cs) b n"
proof -
  obtain s' where "revoke quiet_env (qref i) s = Some (Inr (), s')" "at s' (revoke_entry (qref i) cs) b n"
    using assms(1,2) qref_text(5) [OF assms(3)] by (auto simp: revoke_def Let_def at_def audit_no_sink)
  moreover from this have "call quiet_env pol (join [tab] [''REVOKE'', qref i]) s
      = Some (from_utf8_lossy (as_bytes (reply_text (Inr (ok_reply [] [])))), s')"
    by (intro call_plain) (use qref_text [OF assms(3)] in
      \<open>auto simp: handle_verb_def need_def nth_opt_def reply_as_def is_ascii_Cons MAX_FRAME_def reply_text_def ok_reply_def\<close>)
  ultimately show ?thesis by blast
qed

lemma mint_quiet:
  assumes "at s cs b n" "i < 256"
    and "fs = [''GRANT_DIR'', ''/srv/ws'', ''read'', ''project''] \<or> fs = [''GRANT_SINK'', ''https://evil.example.com'']
      \<or> fs = [''GRANT_CMD'', qref i, ''/bin/sh'' @ [US] @ ''-c'' @ [US] @ ''id'']"
  shows "\<exists>t. call quiet_env demo_guest (join [tab] fs) s = Some (t, s)"
proof -
  obtain e where e: "handle_verb quiet_env demo_guest fs s = Some (Inl e, s)" "length e \<le> 200"
    using assms(3) by (elim disjE) (simp_all add: handle_verb_def deny_guest_mint_def U_def enc_char_def)
  have "call quiet_env demo_guest (join [tab] fs) s = Some (from_utf8_lossy (as_bytes (reply_text (Inl e))), s)"
    by (rule call_plain [OF e(1)]) (use assms(3) e(2) qref_text [OF assms(2)] in
      \<open>auto simp: is_ascii_Cons MAX_FRAME_def reply_text_def US_def\<close>)
  then show ?thesis by blast
qed

lemma bootstrap_quiet:
  assumes "at s cs b n"
  shows "b = Some (qref i) \<Longrightarrow> i < 256 \<Longrightarrow>
      \<exists>t s'. call quiet_env pol ''BOOTSTRAP'' s = Some (t, s') \<and> cap_of t = Some (qref i) \<and> at s' cs None n"
    and "b = None \<Longrightarrow> \<exists>t. call quiet_env pol ''BOOTSTRAP'' s = Some (t, s)"
proof -
  assume b: "b = Some (qref i)" "i < 256"
  let ?s = "upd_ses (s_bootstrap_update (\<lambda>_. None)) s"
  have "handle_verb quiet_env pol [''BOOTSTRAP''] s = Some (Inr (cap_reply (qref i)), ?s)"
    using assms b by (simp add: verb_bootstrap reply_as_def take_bootstrap_def at_def)
  from cap_call [OF this b(2)] have "\<exists>t. call quiet_env pol ''BOOTSTRAP'' s = Some (t, ?s) \<and> cap_of t = Some (qref i)"
    by (simp add: is_ascii_Cons MAX_FRAME_def)
  moreover have "at ?s cs None n" using assms by (simp add: at_def)
  ultimately show "\<exists>t s'. call quiet_env pol ''BOOTSTRAP'' s = Some (t, s') \<and> cap_of t = Some (qref i) \<and> at s' cs None n"
    by blast
next
  assume "b = None"
  then have "handle_verb quiet_env pol [''BOOTSTRAP''] s = Some (Inl (error_text (uni_escaped quiet_env) BootstrapGone), s)"
    using assms by (simp add: verb_bootstrap reply_as_def take_bootstrap_def at_def)
  from call_plain [OF this] show "\<exists>t. call quiet_env pol ''BOOTSTRAP'' s = Some (t, s)"
    using error_small [of BootstrapGone 0] by (auto simp: is_ascii_Cons MAX_FRAME_def)
qed

text \<open>A child of a live directory: from \<open>derive_sub\<close> or \<open>derive_readonly\<close>.\<close>

definition child_dir :: "nat \<Rightarrow> nat \<Rightarrow> cap \<Rightarrow> bool" where
  "child_dir k i d \<longleftrightarrow> c_id d = qref k \<and> c_kind d = Dir \<and> c_parent d = Some (qref i) \<and> \<not> c_revoked d
     \<and> c_ops d = [Read, List] \<and> c_dir_fd d \<noteq> None"

lemma derive_quiet:
  assumes "at s cs b k" "is_active cs (qref i) = Some True" "map_of cs (qref i) = Some c" "i < 256" "k < 256"
    and "c_kind c = Dir" "c_ops c = [Read, List]" "c_dir_fd c \<noteq> None" "\<exists>v. safe_join (c_root c) ''src'' = Inr v"
    and "how = [''sub'', ''src''] \<or> how = [''readonly'']"
  shows "\<exists>t s' d. call quiet_env pol (join [tab] (''DERIVE'' # qref i # how)) s = Some (t, s') \<and> cap_of t = Some (qref k)
    \<and> at s' (AList.update (qref k) d cs) b (Suc k) \<and> child_dir k i d"
proof -
  note g = get_quiet [OF assms(1,2) _ assms(4), of c] 
  note q = qref_text [OF assms(4)] qref_text [OF assms(5)]
  obtain fd v where fd: "c_dir_fd c = Some fd" "safe_join (c_root c) ''src'' = Inr v" using assms(8,9) by blast
  have os: "derive_dir_at quiet_env fd seg w = (Inr 4, w)" for fd seg w
    by (simp add: derive_dir_at_def openat2_at_def quiet_env_def Let_def)
  have dr: "draw quiet_env s = Some (low_bytes @ hex_fixed 2 k, s\<lparr>rng := Suc k\<rparr>)"
      "draw quiet_env (s\<lparr>world := w\<rparr>) = Some (low_bytes @ hex_fixed 2 k, s\<lparr>world := w, rng := Suc k\<rparr>)" for w
    using quiet_hex [OF assms(5)] assms(1) by (simp_all add: draw_def at_def)
  obtain d s' where "handle_verb quiet_env pol (''DERIVE'' # qref i # how) s = Some (Inr (cap_reply (qref k)), s')"
    "at s' (AList.update (qref k) d cs) b (Suc k)" "child_dir k i d"
    using assms(10)
  proof
    assume how: "how = [''sub'', ''src'']"
    define d where "d = (blank_cap (qref k) Dir)\<lparr>c_root := v, c_ops := c_ops c, c_taint := c_taint c,
      c_dir_fd := Some 4, c_parent := Some (qref i)\<rparr>"
    define u where "u = insert_cap d (s\<lparr>world := (), rng := Suc k\<rparr>)"
    have d: "child_dir k i d" using assms(7) by (simp add: child_dir_def d_def blank_cap_def)
    have u: "at u (AList.update (qref k) d cs) b (Suc k)" using assms(1) d by (simp add: at_def u_def child_dir_def)
    have "\<exists>x. derive_sub quiet_env (qref i) ''src'' s = Some (Inr (qref k), snd (audit quiet_env ''derive_sub'' x ''allow'' u))"
      using g fd assms(3,6) q(5,10) os dr by (auto simp: derive_sub_def Let_def u_def d_def simp flip: qref_def)
    then show thesis using that [OF _ _ d] u how by (fastforce simp: verb_derive reply_as_def)
  next
    assume how: "how = [''readonly'']"
    define d where "d = (blank_cap (qref k) (c_kind c))\<lparr>c_root := c_root c, c_ops := [Read, List], c_taint := c_taint c,
      c_dir_fd := c_dir_fd c, c_parent := Some (qref i)\<rparr>"
    define u where "u = insert_cap d (s\<lparr>rng := Suc k\<rparr>)"
    have d: "child_dir k i d" using assms(6,8) by (simp add: child_dir_def d_def blank_cap_def)
    have u: "at u (AList.update (qref k) d cs) b (Suc k)" using assms(1) d by (simp add: at_def u_def child_dir_def)
    have "\<exists>x. derive_readonly quiet_env (qref i) s = Some (Inr (qref k), snd (audit quiet_env ''derive_readonly'' x ''allow'' u))"
      using g assms(3) q(5,10) dr by (auto simp: derive_readonly_def Let_def u_def d_def simp flip: qref_def)
    then show thesis using that [OF _ _ d] u how by (fastforce simp: verb_derive reply_as_def)
  qed
  moreover from this(1) have "\<exists>t. call quiet_env pol (join [tab] (''DERIVE'' # qref i # how)) s = Some (t, s') \<and> cap_of t = Some (qref k)"
    by (rule cap_call [OF _ assms(5)]) (use assms(10) q in \<open>auto simp: is_ascii_Cons MAX_FRAME_def\<close>)
  ultimately show ?thesis by blast
qed

section \<open>The scenes\<close>

lemma plain_join: "safe_join root ''secret.txt'' \<noteq> Inl e" "safe_join root ''main.txt'' \<noteq> Inl e" "\<exists>v. safe_join root ''src'' = Inr v"
  by (simp_all add: safe_join_def)

lemma demo_use_quiet:
  assumes "at s [(qref 2, qdir 2)] (Some (qref 2)) 3"
  shows "\<exists>ls s' d e. demo_use quiet_env demo_guest s = Some (qref 2, qref 3, ls, s')
    \<and> at s' [(qref 2, qdir 2), (qref 3, d), (qref 4, e)] None 5 \<and> child_dir 3 2 d \<and> child_dir 4 3 e"
proof -
  let ?C = "[(qref 2, qdir 2)]"
  note act = is_active.simps qref_inject qdir_def blank_cap_def child_dir_def
  have a2: "is_active ?C (qref 2) = Some True" by (simp add: act)
  have m2: "map_of ?C (qref 2) = Some (qdir 2)" by simp
  have dir: "Read \<in> set (c_ops (qdir 2)) \<and> c_dir_fd (qdir 2) \<noteq> None" "c_root (qdir 2) = ''/srv/ws''"
    "c_kind (qdir 2) = Dir" "c_ops (qdir 2) = [Read, List]"
    by (simp_all add: qdir_def)
  obtain a s1 where c1: "call quiet_env demo_guest ''BOOTSTRAP'' s = Some (a, s1)" "cap_of a = Some (qref 2)" "at s1 ?C None 3"
    using bootstrap_quiet(1) [OF assms refl, where pol = demo_guest] by auto
  obtain b s2 where c2: "call quiet_env demo_guest (join [tab] [''DESCRIBE'', qref 2]) s1 = Some (b, s2)" "at s2 ?C None 3"
    using describe_quiet [OF c1(3), of demo_guest] by auto
  obtain c s3 where c3: "call quiet_env demo_guest (invoke_read (qref 2) ''main.txt'') s2 = Some (c, s3)" "at s3 ?C None 3"
    using invoke_quiet [OF c2(2) a2 m2, of "''main.txt''" demo_guest] dir plain_join by (auto simp: is_ascii_Cons)
  obtain d s4 where c4: "call quiet_env demo_guest (invoke_read (qref 2) ''/etc/passwd'') s3 = Some (d, s4)" "at s4 ?C None 3"
    using invoke_quiet [OF c3(2) a2 m2, of "''/etc/passwd''" demo_guest] dir
    by (auto simp: is_ascii_Cons safe_join_def quiet_reply_def)
  obtain e s5 where c5: "call quiet_env demo_guest (invoke_read (qref 2) ''../../etc/passwd'') s4 = Some (e, s5)" "at s5 ?C None 3"
    using invoke_quiet [OF c4(2) a2 m2, of "''../../etc/passwd''" demo_guest] dir
    by (auto simp: is_ascii_Cons safe_join_def quiet_reply_def)
  obtain f s6 d3 where c6: "call quiet_env demo_guest (join [tab] [''DERIVE'', qref 2, ''sub'', ''src'']) s5 = Some (f, s6)"
      "cap_of f = Some (qref 3)" "at s6 [(qref 2, qdir 2), (qref 3, d3)] None 4" "child_dir 3 2 d3"
    using derive_quiet [OF c5(2) a2 m2, of "[''sub'', ''src'']" demo_guest] dir plain_join(3) by (auto simp: qref_inject)
  let ?D = "[(qref 2, qdir 2), (qref 3, d3)]"
  have a3: "is_active ?D (qref 3) = Some True" using c6(4) by (simp add: act)
  have m3: "map_of ?D (qref 3) = Some d3" by (simp add: qref_inject)
  obtain g s7 d4 where c7: "call quiet_env demo_guest (join [tab] [''DERIVE'', qref 3, ''readonly'']) s6 = Some (g, s7)"
      "cap_of g = Some (qref 4)" "at s7 [(qref 2, qdir 2), (qref 3, d3), (qref 4, d4)] None 5" "child_dir 4 3 d4"
    using derive_quiet [OF c6(3) a3 m3, of "[''readonly'']" demo_guest] c6(4) plain_join(3)
    by (auto simp: qref_inject child_dir_def)
  let ?E = "[(qref 2, qdir 2), (qref 3, d3), (qref 4, d4)]"
  have a4: "is_active ?E (qref 4) = Some True" using c6(4) c7(4) by (simp add: act)
  have m4: "map_of ?E (qref 4) = Some d4" by (simp add: qref_inject)
  obtain h s8 where c8: "call quiet_env demo_guest (invoke_read (qref 4) ''secret.txt'') s7 = Some (h, s8)" "at s8 ?E None 5"
    using invoke_quiet [OF c7(3) a4 m4, of "''secret.txt''" demo_guest] c7(4) plain_join
    by (auto simp: is_ascii_Cons child_dir_def)
  have "\<exists>ls. demo_use quiet_env demo_guest s = Some (qref 2, qref 3, ls, s8)"
    using c1 c2 c3 c4 c5 c6 c7 c8 by (simp add: demo_use_def del: join.simps)
  then show ?thesis using c6(4) c7(4) c8(2) by blast
qed

lemma demo_limits_quiet:
  assumes "at s [(qref 2, qdir 2), (qref 3, d), (qref 4, e)] None 5" "child_dir 3 2 d" "child_dir 4 3 e"
  shows "\<exists>ls s' cs. demo_limits quiet_env demo_guest ''/srv/ws'' (qref 2) (qref 3) s = Some (ls, s') \<and> at s' cs None 5"
proof -
  let ?E = "[(qref 2, qdir 2), (qref 3, d), (qref 4, e)]"
  have small: "(2 :: nat) < 256" by simp
  obtain a b c where m: "call quiet_env demo_guest (join [tab] [''GRANT_DIR'', ''/srv/ws'', ''read'', ''project'']) s = Some (a, s)"
    "call quiet_env demo_guest (join [tab] [''GRANT_SINK'', ''https://evil.example.com'']) s = Some (b, s)"
    "call quiet_env demo_guest (join [tab] [''GRANT_CMD'', qref 2, ''/bin/sh'' @ [US] @ ''-c'' @ [US] @ ''id'']) s = Some (c, s)"
    using mint_quiet [OF assms(1) small disjI1 [OF refl]] mint_quiet [OF assms(1) small disjI2 [OF disjI1 [OF refl]]]
      mint_quiet [OF assms(1) small disjI2 [OF disjI2 [OF refl]]] by blast
  obtain t1 where b: "call quiet_env demo_guest ''BOOTSTRAP'' s = Some (t1, s)"
    using bootstrap_quiet(2) [OF assms(1) refl] by blast
  obtain t2 s2 where r: "call quiet_env demo_guest (join [tab] [''REVOKE'', qref 2]) s = Some (t2, s2)"
      "at s2 (revoke_entry (qref 2) ?E) None 5"
    using revoke_quiet [OF assms(1), of 2 demo_guest] by auto
  have dead: "is_active (revoke_entry (qref 2) ?E) (qref 3) = Some False"
    using assms(2) by (simp add: is_active.simps revoke_entry_def qref_inject child_dir_def)
  obtain t3 s3 where i: "call quiet_env demo_guest (invoke_read (qref 3) ''secret.txt'') s2 = Some (t3, s3)"
      "at s3 (revoke_entry (qref 2) ?E) None 5"
    using invoke_quiet [OF r(2) dead, of _ "''secret.txt''" demo_guest] by (auto simp: is_ascii_Cons)
  have "\<exists>ls. demo_limits quiet_env demo_guest ''/srv/ws'' (qref 2) (qref 3) s = Some (ls, s3)"
    using m b r i by (simp add: demo_limits_def del: join.simps append_Cons append_Nil)
  then show ?thesis using i(2) by blast
qed

lemma demo_replay_quiet:
  assumes "at s cs b 5"
  shows "\<exists>ls s'. demo_replay quiet_env demo_service (qref 2) s = Some (ls, s') \<and> rng s' = 7"
proof -
  obtain s1 where s1: "connect_session quiet_env demo_service s = Some s1"
      "at s1 [(qref 6, qdir 6)] (Some (qref 6)) 7"
    using connect_quiet [of s 5] assms by (auto simp: at_def)
  have "is_active [(qref 6, qdir 6)] (qref 2) = Some False" by (simp add: is_active.simps qref_inject)
  from invoke_quiet [OF s1(2) this, of _ "''main.txt''" demo_guest]
  obtain t s2 where "call quiet_env demo_guest (invoke_read (qref 2) ''main.txt'') s1 = Some (t, s2)" "rng s2 = 7"
    by (auto simp: is_ascii_Cons at_def)
  then show ?thesis using s1(1) by (simp add: demo_replay_def demo_service_def)
qed

lemma demo_runs: "\<exists>ls s. demo_scenes quiet_env demo_service ''/srv/ws'' demo_sys = Some (ls, s) \<and> rng s = 7"
proof -
  obtain s1 where s1: "connect_session quiet_env demo_service demo_sys = Some s1" "at s1 [(qref 2, qdir 2)] (Some (qref 2)) 3"
    using connect_quiet [of demo_sys 1] by (auto simp: numeral_eq_Suc)
  obtain l1 s2 d e where s2: "demo_use quiet_env demo_guest s1 = Some (qref 2, qref 3, l1, s2)"
      "at s2 [(qref 2, qdir 2), (qref 3, d), (qref 4, e)] None 5" "child_dir 3 2 d" "child_dir 4 3 e"
    using demo_use_quiet [OF s1(2)] by blast
  obtain l2 s3 cs where s3: "demo_limits quiet_env demo_guest ''/srv/ws'' (qref 2) (qref 3) s2 = Some (l2, s3)" "at s3 cs None 5"
    using demo_limits_quiet [OF s2(2-4)] by blast
  obtain l3 s4 where "demo_replay quiet_env demo_service (qref 2) s3 = Some (l3, s4)" "rng s4 = 7"
    using demo_replay_quiet [OF s3(2)] by blast
  then show ?thesis using s1(1) s2(1) s3(1) by (simp add: demo_scenes_def demo_service_def)
qed

section \<open>What the demo shows\<close>

text \<open>
  C39: What the demo prints as denied was denied. When its scenes run to their end, eight lines are
  printed as denials, and none of them is a reply that grants anything: paths outside the workspace,
  every way for a guest to mint, the second bootstrap, the child of a revoked capability, and a
  reference of another session.
\<close>

theorem demo_denials:
  assumes "demo_scenes E sv root s0 = Some (ls, s)" "draws_distinct E (rng s)" "full_draws E"
    and "po_role (sv_policy sv) = Guest" "length root \<le> 2 ^ 20"
  shows "length (denied ls) = 8 \<and> list_all (\<lambda>t. \<not> granted t) (denied ls)"
proof -
  obtain s1 repo sub l1 s2 l2 s3 l3 where d: "connect_session E sv s0 = Some s1"
    "demo_use E (sv_policy sv) s1 = Some (repo, sub, l1, s2)"
    "demo_limits E (sv_policy sv) root repo sub s2 = Some (l2, s3)"
    "demo_replay E sv repo s3 = Some (l3, s)" "ls = l1 @ l2 @ l3"
    using assms(1) by (auto simp: demo_scenes_def bind_eq_Some_conv)
  have le: "rng s2 \<le> rng s3" "rng s3 \<le> rng s" using demo_limits_rng [OF d(3)] demo_replay_rng [OF d(4)] .
  have dist: "draws_distinct E (rng s1)" "draws_distinct E (rng s2)" "draws_distinct E (rng s3)"
    using draws_distinct_le [OF assms(2)] demo_use_rng [OF d(2)] le by simp_all
  have k1: "conn_inv E s1" using connect_session_start [OF d(1) dist(1)] by blast
  have u: "length (denied l1) = 2 \<and> refused (denied l1) \<and> conn_inv E s2 \<and> rng s1 \<le> rng s2 \<and> held s2 repo \<and> held s2 sub
    \<and> (sub = [] \<or> child_of s2 repo sub) \<and> s_bootstrap (ses s2) = None"
    using demo_use_shows [OF d(2) k1 dist(2) assms(3) _ assms(4)] connect_first [OF d(1)] by blast
  have l: "length (denied l2) = 5 \<and> refused (denied l2) \<and> conn_inv E s3 \<and> rng s2 \<le> rng s3 \<and> held s3 repo"
    by (rule demo_limits_shows [OF d(3) _ dist(3) assms(3) _ _ _ _ assms(4,5)]) (use u in simp_all)
  have "length (denied l3) = 1 \<and> refused (denied l3)"
    using demo_replay_shows [OF d(4) _ assms(2,3)] l by blast
  then show ?thesis using u l d(5) by (simp add: denied_append)
qed

lemma demo_denials_witness:
  "\<exists>ls s. demo_scenes quiet_env demo_service ''/srv/ws'' demo_sys = Some (ls, s)
     \<and> length (denied ls) = 8 \<and> list_all (\<lambda>t. \<not> granted t) (denied ls)"
proof -
  obtain ls s where run: "demo_scenes quiet_env demo_service ''/srv/ws'' demo_sys = Some (ls, s)" "rng s = 7"
    using demo_runs by blast
  have "draws_distinct quiet_env (rng s)" "full_draws quiet_env" "po_role (sv_policy demo_service) = Guest"
    using run(2) quiet_draws_distinct by (simp_all add: full_draws_def quiet_env_def demo_service_def)
  from demo_denials [OF run(1) this] run(1) show ?thesis by simp
qed

end
