(* ===== verification/Unit_Tests.thy ===== *)
theory Unit_Tests
  imports Capvm
begin

text \<open>
  The repository's own tests of its pure parts, as definitions over the model: each is the conjunction
  of the test's assertions, in their order, and each holds. A literal address is the value its text
  parses to.
\<close>

section \<open>\<open>net.rs\<close>\<close>

text \<open>The resolver is the environment's: it gives a literal back as its address, and \<open>localhost\<close> loopback.\<close>

definition blocks_metadata_and_private :: "'w env \<Rightarrow> 'w \<Rightarrow> bool" where
  "blocks_metadata_and_private E w \<longleftrightarrow>
     is_err (fst (resolve_checked E ''metadata.google.internal'' 80 w))
     \<and> is_err (fst (resolve_checked E ''169.254.169.254'' 80 w))
     \<and> is_err (fst (resolve_checked E ''10.0.0.1'' 80 w))
     \<and> is_err (fst (resolve_checked E ''192.168.1.1'' 80 w))
     \<and> is_err (fst (resolve_checked E ''127.0.0.1'' 80 w))
     \<and> is_err (fst (resolve_checked E ''localhost'' 80 w))"

definition ip_classification :: bool where
  "ip_classification \<longleftrightarrow>
     is_blocked_ip (V4 169 254 169 254) \<and> is_blocked_ip (V4 10 1 2 3) \<and> is_blocked_ip (V6 0 0 0 0 0 0 0 1)
     \<and> is_blocked_ip (V6 0xfe80 0 0 0 0 0 0 1) \<and> \<not> is_blocked_ip (V4 93 184 216 34)
     \<and> \<not> is_blocked_ip (V4 8 8 8 8)"

definition path_glob :: bool where
  "path_glob \<longleftrightarrow>
     path_matches ''/v1/*'' ''/v1/models'' \<and> \<not> path_matches ''/v1/*'' ''/v1/models/x''
     \<and> path_matches ''/v1/**'' ''/v1/a/b/c'' \<and> path_matches ''/v1/**'' ''/v1''
     \<and> \<not> path_matches ''/v1/*'' ''/v2/models''"

definition canonical_target_and_injection_and_normalization :: bool where
  "canonical_target_and_injection_and_normalization \<longleftrightarrow>
     canonical_request_target ''/v1/models'' = Inr ''/v1/models''
     \<and> canonical_request_target ''/v1/a/../b'' = Inr ''/v1/b''
     \<and> canonical_request_target ''/v1//models'' = Inr ''/v1/models''
     \<and> canonical_request_target ''/v1/models?x=1'' = Inr ''/v1/models?x=1''
     \<and> is_err (canonical_request_target (''/a'' @ [cr, nl] @ ''X-Original-URL: /admin''))
     \<and> is_err (canonical_request_target (''/a'' @ [CHR 0x00] @ ''b''))
     \<and> is_err (canonical_request_target ''/a b'')
     \<and> is_err (canonical_request_target ''http://evil/'')
     \<and> is_err (canonical_request_target ''admin'')
     \<and> is_err (canonical_request_target ''//host/x'')
     \<and> is_err (canonical_request_target ''/v1/%2e%2e/admin'')
     \<and> is_err (canonical_request_target ''/v1/%2f..%2fadmin'')
     \<and> is_err (canonical_request_target ''/v1/%5c..%5cadmin'')
     \<and> is_err (canonical_request_target (''/v1/'' @ [CHR 0x5C] @ ''..'' @ [CHR 0x5C]
       @ ''admin''))
     \<and> is_err (canonical_request_target ''/%GG'')
     \<and> is_err (canonical_request_target ''/..'')
     \<and> is_ok (valid_host ''api.example.com'') \<and> is_ok (valid_host ''a-b.example.com'')
     \<and> is_ok (valid_host ''x1.y2.z3'') \<and> is_ok (valid_host ''[2001:db8::1]'')
     \<and> is_ok (valid_host ''93.184.216.34'')
     \<and> is_err (valid_host (''evil'' @ [cr, nl] @ ''Host: x'')) \<and> is_err (valid_host ''a b'')
     \<and> is_err (valid_host ''a..b'') \<and> is_err (valid_host ''.example.com'')
     \<and> is_err (valid_host ''example.com.'') \<and> is_err (valid_host ''-a.example.com'')
     \<and> is_err (valid_host ''a-.example.com'') \<and> is_err (valid_host ''under_score.example.com'')
     \<and> is_err (valid_host ''1.2.3.4.5'') \<and> is_err (valid_host ''999.1'')
     \<and> is_err (valid_host ''[2001:db8::1'') \<and> is_err (valid_host ''[not-an-ip]'')
     \<and> is_err (valid_host ''a]b'') \<and> is_err (valid_host ''host:8080'')
     \<and> is_err (valid_host (replicate 64 (CHR ''a'')))"

definition blocks_reserved_and_multicast :: bool where
  "blocks_reserved_and_multicast \<longleftrightarrow>
     is_blocked_ip (V4 0 0 0 1) \<and> is_blocked_ip (V4 224 0 0 1) \<and> is_blocked_ip (V4 239 255 255 250)
     \<and> is_blocked_ip (V4 240 0 0 1) \<and> is_blocked_ip (V4 255 255 255 255) \<and> is_blocked_ip (V4 192 0 2 1)
     \<and> is_blocked_ip (V6 0xff02 0 0 0 0 0 0 1) \<and> \<not> is_blocked_ip (V4 93 184 216 34)"

section \<open>\<open>policy.rs\<close>\<close>

definition is_pending :: "consent_outcome \<Rightarrow> bool" where
  "is_pending r = (case r of Now_Pending _ \<Rightarrow> True | _ \<Rightarrow> False)"

definition consent_flow_approve_consume_once :: bool where
  "consent_flow_approve_consume_once \<longleftrightarrow>
     (case request_or_check ''exec:capA'' ''sessG'' ''exec CommandCap capA'' new_ledger of
        (Now_Pending i, l) \<Rightarrow>
          (case request_or_check ''exec:capA'' ''sessG'' ''exec CommandCap capA'' l of
             (Now_Pending j, l1) \<Rightarrow>
               i = j \<and> pending_count l1 = 1
               \<and> (case approve i l1 of (r, l2) \<Rightarrow> is_ok r
                   \<and> (case request_or_check ''exec:capA'' ''sessG'' ''x'' l2 of (r2, l3) \<Rightarrow>
                        r2 = Now_Approved
                        \<and> is_pending (fst (request_or_check ''exec:capA'' ''sessG'' ''x'' l3))))
           | _ \<Rightarrow> False)
      | _ \<Rightarrow> False)"

definition consent_denied_and_session_scoped :: bool where
  "consent_denied_and_session_scoped \<longleftrightarrow>
     (case request_or_check ''http_get:capH'' ''sessG'' ''s'' new_ledger of
        (Now_Pending i, l) \<Rightarrow>
          (case deny i l of (r, l1) \<Rightarrow> is_ok r
             \<and> (case request_or_check ''http_get:capH'' ''sessG'' ''s'' l1 of (r2, l2) \<Rightarrow>
                  r2 = Now_Denied
                  \<and> is_pending (fst (request_or_check ''http_get:capH'' ''sessOther'' ''s'' l2))))
      | _ \<Rightarrow> False)"

definition policy_decisions :: bool where
  "policy_decisions \<longleftrightarrow>
     (let e = \<lparr>deny_exec = False, prompt_exec = True, prompt_http = True, prompt_post = False\<rparr>;
          d = allow_all\<lparr>deny_exec := True\<rparr>
      in decide e ''exec'' = Prompt \<and> decide e ''http_get'' = Prompt \<and> decide e ''read'' = Allow
         \<and> decide e ''post'' = Allow \<and> decide d ''exec'' = Deny \<and> decide allow_all ''exec'' = Allow)"

section \<open>\<open>proto.rs\<close>\<close>

definition arrived :: "byte list \<Rightarrow> stream" where
  "arrived bs = (case bs of [] \<Rightarrow> [] | b # r \<Rightarrow> [Arrived b r])"

definition oversized_frame_rejected_before_alloc :: bool where
  "oversized_frame_rejected_before_alloc \<longleftrightarrow>
     is_err (fst (read_frame (arrived (frame_header (100 * 1024 * 1024)))))"

definition truncated_header_is_error_not_eof :: bool where
  "truncated_header_is_error_not_eof \<longleftrightarrow> fst (read_frame (arrived [0, 0])) = Inl Truncated_Header"

definition clean_eof_is_none :: bool where
  "clean_eof_is_none \<longleftrightarrow> fst (read_frame (arrived [])) = Inr None"

section \<open>\<open>lib.rs\<close>, \<open>capvm.rs\<close>\<close>

definition guest_grant_confined_to_workspace :: "'w env \<Rightarrow> string \<Rightarrow> 'w \<Rightarrow> bool" where
  "guest_grant_confined_to_workspace E root w \<longleftrightarrow>
     (let pol = policy_guest root in
      is_ok (fst (gate_grant_dir E pol root w)) \<and> is_ok (fst (gate_grant_dir E pol (root @ ''/src'') w))
      \<and> is_err (fst (gate_grant_dir E pol ''/etc'' w)) \<and> is_err (fst (gate_grant_dir E pol ''/'' w))
      \<and> is_ok (fst (gate_grant_dir E policy_control ''/etc'' w)))"

definition is_refused :: "((vm_error + 'a) \<times> 'b) option \<Rightarrow> bool" where
  "is_refused r = (case r of Some (Inl _, _) \<Rightarrow> True | _ \<Rightarrow> False)"

definition fresh_process_has_zero_authority :: "'w env \<Rightarrow> 'w sys \<Rightarrow> bool" where
  "fresh_process_has_zero_authority E s \<longleftrightarrow>
     (let p = process_new s in
      is_refused (cap_read E 0 ''main.txt'' p) \<and> is_refused (cap_read E 7 ''main.txt'' p) \<and> live_handles p = 0)"

section \<open>They pass\<close>

lemma resolve_blocked:
  "fst (net_resolve E h p w) = Inr [a] \<Longrightarrow> is_blocked_ip (sa_ip a) \<Longrightarrow> is_err (fst (resolve_checked E h p w))"
  by (auto simp: resolve_checked_def split: prod.splits)

lemma blocks_metadata_and_private_passes:
  assumes lit: "\<And>h a b c d. (h, V4 a b c d) \<in> {(''169.254.169.254'', V4 169 254 169 254), (''10.0.0.1'', V4 10 0 0 1),
      (''192.168.1.1'', V4 192 168 1 1), (''127.0.0.1'', V4 127 0 0 1), (''localhost'', V4 127 0 0 1)} \<Longrightarrow>
      fst (net_resolve E h 80 w) = Inr [\<lparr>sa_ip = V4 a b c d, sa_port = 80\<rparr>]"
  shows "blocks_metadata_and_private E w"
proof -
  have "is_blocked_ip (V4 169 254 169 254)" "is_blocked_ip (V4 10 0 0 1)" "is_blocked_ip (V4 192 168 1 1)"
    "is_blocked_ip (V4 127 0 0 1)" by code_simp+
  then show ?thesis
    unfolding blocks_metadata_and_private_def
    using resolve_blocked [OF lit [of "''169.254.169.254''" 169 254 169 254]] resolve_blocked [OF lit [of "''10.0.0.1''" 10 0 0 1]]
      resolve_blocked [OF lit [of "''192.168.1.1''" 192 168 1 1]] resolve_blocked [OF lit [of "''127.0.0.1''" 127 0 0 1]]
      resolve_blocked [OF lit [of "''localhost''" 127 0 0 1]]
    by (simp add: resolve_checked_def [of E "''metadata.google.internal''"] METADATA_HOSTS_def ascii_lower_def)
qed

lemma ip_classification_passes: ip_classification
  unfolding ip_classification_def by code_simp

lemma blocks_reserved_and_multicast_passes: blocks_reserved_and_multicast
  unfolding blocks_reserved_and_multicast_def by code_simp

lemma path_glob_passes: path_glob
  unfolding path_glob_def by code_simp

lemma policy_decisions_passes: policy_decisions
  by code_simp

lemma fill_4: "fill 4 [] (arrived [a, b, c, d]) = (Inr ([a, b, c, d], True), [])"
  by (simp add: arrived_def fill.simps requeue_def)

lemma header_100_mib: "frame_header (100 * 1024 * 1024) = [6, 64, 0, 0]"
  by (simp add: frame_header_def)

lemma oversized_frame_rejected_before_alloc_passes: oversized_frame_rejected_before_alloc
  unfolding oversized_frame_rejected_before_alloc_def header_100_mib read_frame_def fill_4
  by (simp add: header_value_def from_be32_def MAX_FRAME_def)

lemma truncated_header_is_error_not_eof_passes: truncated_header_is_error_not_eof
  unfolding truncated_header_is_error_not_eof_def arrived_def read_frame_def
  by (simp add: fill.simps requeue_def)

lemma clean_eof_is_none_passes: clean_eof_is_none
  unfolding clean_eof_is_none_def arrived_def read_frame_def by (simp add: fill.simps)

lemma consent_flow_approve_consume_once_passes: consent_flow_approve_consume_once
  by code_simp

lemma consent_denied_and_session_scoped_passes: consent_denied_and_session_scoped
  by code_simp

lemma canonical_target_and_injection_and_normalization_passes: canonical_target_and_injection_and_normalization
  unfolding canonical_target_and_injection_and_normalization_def by (intro conjI) code_simp+

lemma guest_grant_confined_to_workspace_passes: "guest_grant_confined_to_workspace quiet_env ''/tmp/capbroker'' ()"
  by code_simp

lemma fresh_process_has_zero_authority_passes: "fresh_process_has_zero_authority E s"
  by (simp add: fresh_process_has_zero_authority_def is_refused_def cap_read_def on_handle_def process_new_def
      clist_new_def clist_resolve_def nth_opt_def live_handles_def clist_live_def Let_def)

end
