(* ===== verification/Spec2Isabelle.thy ===== *)
theory Spec2Isabelle
  imports Prelude Rust_Str Sha256 Sha_Spec World Os Sandbox Os_Contract Net Egress Consent Chain Audit_Log Caps Display State Session Steps Session_Inv Session_Data Wire Proto Authority Effects Capvm Server Service Cap_Types Liveness Demo Demo_Run Unit_Tests
begin

text \<open>
  \<^bold>\<open>The program.\<close> A capability broker in Rust, in two crates. \<open>capable-broker\<close> (under
  \<open>src/crates/capable-broker/src\<close>) keeps the real capabilities: \<open>lib.rs\<close> has the session, its table of
  capabilities, minting, attenuation, use, revocation and the in-memory audit; \<open>os.rs\<close> the file access
  by descriptor and the sandbox of executed commands; \<open>net.rs\<close> the egress policy and the HTTP fetch;
  \<open>policy.rs\<close> the decision engine and the ledger of just-in-time approvals; \<open>audit.rs\<close> the durable
  audit; \<open>capvm.rs\<close> the table of handles of a guest process; \<open>sha256.rs\<close> the hash. \<open>capable-rpc\<close> (under
  \<open>src/crates/capable-rpc/src\<close>) puts a session behind each connection of a Unix socket: \<open>proto.rs\<close> has
  the frames, base64 and the request handler, \<open>main.rs\<close> the command line, the server and the demo. A
  peer never holds a capability: it names one by an opaque reference, or by a handle, and the
  broker looks it up, checks it, records what it is about to do, does it, and records the result.

  \<^bold>\<open>How the code is modelled.\<close> A Rust function is a HOL function of the same name. Strings are their
  UTF-8 bytes, \<open>u8\<close> to \<open>u64\<close> words of their width, \<open>usize\<close> a natural number, an enum a datatype, a
  struct a record, a hash map an association list whose order stands for the iteration order. An
  operation of a session has the type \<open>'w env \<Rightarrow> \<dots> \<Rightarrow> 'w sys \<Rightarrow> ((error + 'a) \<times> 'w sys) option\<close>: \<open>Inl\<close>
  is the \<open>Err\<close> of the source, one constructor for each message (\<open>error_text\<close> gives the message
  itself), \<^const>\<open>None\<close> is a panic or a call that does not return. \<open>'w env\<close> (\<open>World\<close>) holds what is
  not in the repository, the kernel, the disk, the network, the entropy source and the tables of
  Unicode, as functions over an arbitrary world; nothing is assumed of them but by hypotheses that
  are named in a theorem. \<open>'w sys\<close> (\<open>State\<close>) is a session with what it shares with the others of its
  service: sink, files, ledger, entropy, world.

  \<^bold>\<open>Theories and sources.\<close>
  \<^item> \<open>Prelude\<close>, \<open>Rust_Str\<close>: types, lists, collections of lemmas; the parts of Rust's strings in use.
  \<^item> \<open>Sha256\<close>, \<open>Sha_Spec\<close>: \<open>sha256.rs\<close>, and FIPS 180-4 with the equality of the two.
  \<^item> \<open>World\<close>, \<open>Os\<close>, \<open>Sandbox\<close>, \<open>Os_Contract\<close>: \<open>os.rs\<close>. \<open>openat2_at\<close>, \<open>read_at\<close>, \<open>list_at\<close>, \<open>getdents_loop\<close>;
    \<open>seccomp_prog\<close> with an interpreter of the filter, \<open>sandbox_apply\<close> as a sequence of system calls
    and these as numbers, registers and memory; what they promise their callers.
  \<^item> \<open>Net\<close>, \<open>Egress\<close>: \<open>net.rs\<close>. \<open>is_blocked_ip\<close>, \<open>canonical_request_target\<close>, \<open>path_matches\<close>,
    \<open>resolve_checked\<close>, \<open>fetch_get\<close>; the same in the terms of networks, canonical targets and runs of
    segments.
  \<^item> \<open>Consent\<close>: \<open>policy.rs\<close>. \<open>decide\<close>, \<open>request_or_check\<close>, \<open>approve\<close>, \<open>deny\<close>; the locale
    \<open>consent_service\<close> is the contract of such a ledger, interpreted on this one.
  \<^item> \<open>Chain\<close>, \<open>Audit_Log\<close>: hash chains as the locale \<open>hash_chain\<close>, interpreted on the lines of the
    durable log here and on the session's events in \<open>Session_Data\<close>; \<open>audit.rs\<close>, with a fault at every step of a write.
  \<^item> \<open>Caps\<close>, \<open>Display\<close>: the data and pure helpers of \<open>lib.rs\<close>; the text an approver is shown.
  \<^item> \<open>State\<close>, \<open>Session\<close>: \<open>lib.rs\<close>, the session, the gate, and its operations.
  \<^item> \<open>Steps\<close>, \<open>Session_Inv\<close>, \<open>Session_Data\<close>: every operation is a sequence of primitive changes
    (\<open>prim\<close>), and what these keep: the table, the lineage of capabilities, mailboxes, the audit.
  \<^item> \<open>Wire\<close>, \<open>Proto\<close>: \<open>proto.rs\<close>. \<open>read_frame\<close>, \<open>write_frame\<close>, base64; \<open>handle\<close>, a definition for each
    arm of its match.
  \<^item> \<open>Authority\<close>, \<open>Effects\<close>: what frames can do to a session (\<open>served\<close>), and what precedes an effect.
  \<^item> \<open>Capvm\<close>: \<open>capvm.rs\<close>; the locale \<open>handle_table\<close>, interpreted on the code's table.
  \<^item> \<open>Server\<close>, \<open>Liveness\<close>: \<open>main.rs\<close>. Flags, \<open>connect_session\<close>, \<open>serve_loop\<close>, the count of connections;
    that requests are answered, lookups return and approvals are not lost.
  \<^item> \<open>Service\<close>: \<open>main.rs\<close>, \<open>serve\<close> as a step relation (\<open>server_step\<close>): connections accepted and turned away,
    their threads interleaving at every primitive change, ending or panicking. \<open>frame_steps\<close> and
    \<open>connection_steps\<close>: handling a frame, and serving a connection, alone is a run of it.
  \<^item> \<open>Cap_Types\<close>: the payload each kind of capability has, and errors that are therefore not reached.
  \<^item> \<open>Demo\<close>, \<open>Demo_Run\<close>: \<open>main.rs\<close>, \<open>call\<close> and \<open>demo\<close>, run over the model of the server.
  \<^item> \<open>Unit_Tests\<close>: the repository's tests of its pure parts, whose assertions hold of the model.

  \<^bold>\<open>What is shown.\<close>
  \<^item> Authority. What a guest holds descends from what it was given, and each of the three derivations
    is written out (\<open>derived_from\<close>): a subdirectory has its parent's operations and a descriptor opened
    below its parent's, a facet its parent's mailbox and subject prefix, a read-only child the parent's
    descriptor with \<open>Read\<close> and \<open>List\<close>, the only operations an ancestor may lack
    (\<open>guest_authority_descends\<close>); a guest's connection stays in its workspace
    (\<open>guest_confined_to_workspace\<close>), a guest process in what its handles lead to (\<open>capvm_confined\<close>,
    \<open>clist_handles\<close>); what is revoked and what descends from it
    is no longer found active (\<open>revocation_cascades\<close>, in terms of the code's \<open>is_active\<close>); files are read
    and listed through \<open>openat2\<close> below a held descriptor or not at all, so that two kernels that agree
    there give the same result (\<open>files_stay_beneath\<close>, \<open>safe_join_below_root\<close>).
  \<^item> Effects. A command or a fetch needs the gate, a recorded intent and a capability that allows it
    (\<open>exec_effect_guarded\<close>, \<open>http_effect_guarded\<close>), under a prompting policy an approval of that very
    action (\<open>prompt_needs_approval\<close>, \<open>consent_passes_le_approvals\<close>, \<open>consent_denied_permanent\<close>,
    \<open>action_sig_binds\<close>, \<open>approval_text_unambiguous\<close>). That a thing is not done is stated as
    non-interference: any other function in its place gives the same result.
  \<^item> Egress and sandbox. \<open>refused_networks\<close>, \<open>request_target_canonical\<close>, \<open>path_matches_spec\<close>,
    \<open>fetch_bounded\<close>, \<open>mitigation_cuts_network\<close>; \<open>sandbox_in_place\<close> with the exact sequence of calls and
    their answers, \<open>seccomp_filter_verdicts\<close>.
  \<^item> Audit. \<open>session_audit_chain\<close>, \<open>audit_roundtrip\<close>, \<open>audit_tamper_detected\<close>,
    \<open>audit_truncation_detected\<close>; each with the collision of SHA-256 it would take, and
    \<open>sha256_is_fips\<close> says that SHA-256 it is. \<open>service_log\<close>: the log is an interleaving of what the
    sessions have on record.
  \<^item> The wire. \<open>frame_roundtrip\<close>, \<open>frame_limit\<close>, \<open>b64_roundtrip\<close>, \<open>requests_answered_in_order\<close>,
    \<open>listing_complete\<close>, \<open>lookups_return\<close>, \<open>approved_call_passes\<close>,
    \<open>untrusted_by_default\<close>, \<open>demo_denials\<close>; messages in \<open>messages_do_not_launder\<close>.
  \<^item> Invariants. Of a session \<open>session_invariant\<close> and \<open>capabilities_well_typed\<close>, of all sessions of a
    service together \<open>service_invariant\<close>.

  \<^bold>\<open>Hypotheses.\<close> \<open>draws_distinct E n\<close>: the first \<open>n\<close> draws of 16 bytes are different, which references
  rest on. \<open>full_draws\<close>: a draw has the bytes asked for. \<open>has_room\<close>: the ledger's 64-bit counter does
  not wrap around in the run. \<open>delivers\<close>: the kernel hands out directory entries in the form it
  documents. Each has a witness, mostly in \<open>quiet_env\<close>, whose draws differ for the first 256.

  \<^bold>\<open>Bounds and loops.\<close> No fuel is used. Loops are structural or have a measure (\<open>serve_loop\<close>: the
  bytes the stream still holds; \<open>fetch_loop\<close>: the room left below the limit); the two that follow the
  kernel or a chain of parents are partial functions (\<open>getdents_loop\<close>, \<open>is_active\<close>), and
  \<open>listing_complete\<close> and \<open>lookups_return\<close> say when they return. A frame has at most 8 MiB, a service 64 connections; the length field
  of a frame wraps around at 4 GiB, and so it does in the model.

  \<^bold>\<open>What the code does otherwise than it means to\<close>, each with a lemma:
  \<^item> \<open>bad_reference_kills_thread\<close>: a request that names a reference with a character
    across its byte 14 ends the thread and
    keeps its place in the count; \<open>service_invariant\<close>: 64 of them close the service.
  \<^item> \<open>audit_failed_record_forks_chain\<close>, \<open>sink_record_bare_path\<close>, \<open>event_content_ambiguous\<close>: a failed
    write leaves the sink behind its files; a log path without a directory never records; fields
    are hashed without their borders.
  \<^item> \<open>derive_readonly_amplifies\<close>, \<open>oneshot_child_unlimited\<close>, \<open>grant_message_ignores_mitigation\<close>,
    \<open>taint_parse_unknown\<close>: rights that attenuation adds, a limit it drops, a flag not looked at, labels
    misspelt into the least restrictive one.
  \<^item> \<open>consent_denied_permanent\<close>: a denial is said to last until the approver clears it, and nothing clears it.
  \<^item> \<open>guest_service_never_approves\<close>: a service has one policy, so a guest's has nobody who could approve what its
    engine prompts for.
  \<^item> \<open>frame_limit\<close>: replies over 8 MiB are written and not read. \<open>list_pending_not_by_issue\<close>: requests are
    listed in the order of their names. \<open>canon_list_exceeds\<close>: a rendering is up to five bytes over its cap.
  \<^item> \<open>special_use_not_refused\<close>, \<open>x32_calls_allowed\<close>: networks and a call interface the filters leave open.

  \<^bold>\<open>Not modelled.\<close> The listener, the socket file, its read timeout and the wait of the demo for it
  are I/O around \<open>connection\<close>; the messages printed to the terminal by \<open>serve\<close> and \<open>main\<close> are left out. The \<open>syscall\<close>
  instruction itself is the oracle. Spawning a command, with the sandbox its child puts on before it
  runs, is one oracle of \<open>exec_i\<close> (\<open>os_command\<close>); \<open>sandbox_apply\<close> is the model of that sandbox, and is
  not put together with it. The variants for other platforms refuse every call. Of the
  test modules \<open>Unit_Tests\<close> has those that need no files. The shell \<open>capsh\<close> is a client in OCaml.
  In \<open>served\<close> other sessions use what is shared between the requests of a session; in \<open>Service\<close> also
  inside a request, between any two primitive changes. That a request which is interrupted there still
  goes through primitive changes only is not derived from \<open>handle\<close> but read off the code: what is
  shared reaches it through the result of a primitive change, and no lock is held over two of them.
\<close>

end
